(* ===== verification/Prelude.thy ===== *)
theory Prelude
  imports Main "HOL-Library.AList"
begin

text \<open>
  What every component shares: the collections of simplification rules, the result type of a
  fallible call, the functions of Go's standard package \<open>strings\<close> that the program uses, the
  decimal printer of \<open>strconv\<close> and \<open>net\<close>, and generic lemmas on lists and
  association lists.  A Go \<open>string\<close> is a list of bytes, here a list of characters; a call
  that returns \<open>(x, err)\<close> is a value of \<open>error + x\<close>, with \<open>Inl\<close> for the error.
\<close>

section \<open>Collections and types\<close>

named_theorems go_string_simps \<open>rewrite rules for the functions of package strings\<close>
named_theorems frame_simps \<open>fields an operation leaves alone\<close>

text \<open>The iteration order of a Go map is unspecified; a model that ranges over a map takes it as
  a function that permutes the list of entries.\<close>

type_synonym 'a range_order = "'a list \<Rightarrow> 'a list"

definition is_range_order :: "'a range_order \<Rightarrow> bool" where
  "is_range_order ord \<longleftrightarrow> (\<forall>xs. set (ord xs) = set xs \<and> (distinct xs \<longrightarrow> distinct (ord xs)))"

lemma range_order_id [simp]: "is_range_order (\<lambda>xs. xs)"
  by (simp add: is_range_order_def)

lemma range_order_rev [simp]: "is_range_order rev"
  by (simp add: is_range_order_def)

lemma range_order_set: "is_range_order ord \<Longrightarrow> set (ord xs) = set xs"
  by (simp add: is_range_order_def)

lemma range_order_distinct: "is_range_order ord \<Longrightarrow> distinct xs \<Longrightarrow> distinct (ord xs)"
  by (simp add: is_range_order_def)

section \<open>Package strings\<close>

fun split_on :: "char \<Rightarrow> string \<Rightarrow> string list" where
  "split_on c [] = [[]]"
| "split_on c (x # xs) =
     (if x = c then [] # split_on c xs
      else case split_on c xs of [] \<Rightarrow> [[x]] | y # ys \<Rightarrow> (x # y) # ys)"

fun join_with :: "char \<Rightarrow> string list \<Rightarrow> string" where
  "join_with c [] = []"
| "join_with c [x] = x"
| "join_with c (x # y # ys) = x @ c # join_with c (y # ys)"

fun has_prefix :: "string \<Rightarrow> string \<Rightarrow> bool" where
  "has_prefix s [] = True"
| "has_prefix [] (p # ps) = False"
| "has_prefix (x # xs) (p # ps) = (x = p \<and> has_prefix xs ps)"

definition trim_prefix :: "string \<Rightarrow> string \<Rightarrow> string" where
  "trim_prefix s p = (if has_prefix s p then drop (length p) s else s)"

fun contains_str :: "string \<Rightarrow> string \<Rightarrow> bool" where
  "contains_str [] p = (p = [])"
| "contains_str (x # xs) p = (has_prefix (x # xs) p \<or> contains_str xs p)"

text \<open>\<open>strings.Replace(s, old, new, -1)\<close> for a non-empty \<open>old\<close>: the leftmost occurrences
  that do not overlap are replaced.  The program only passes non-empty constants.\<close>

function replace_all :: "string \<Rightarrow> string \<Rightarrow> string \<Rightarrow> string" where
  "replace_all s old new =
     (if s = [] \<or> old = [] then s
      else if has_prefix s old then new @ replace_all (drop (length old) s) old new
      else hd s # replace_all (tl s) old new)"
  by pat_completeness auto
termination
  by (relation "measure (\<lambda>(s, old, new). length s)") auto

declare replace_all.simps [simp del]

lemma split_on_nonempty [simp]: "split_on c s \<noteq> []"
  by (induction s) (auto split: list.splits)

lemma split_on_no_sep [go_string_simps]: "c \<notin> set s \<Longrightarrow> split_on c s = [s]"
  by (induction s) auto

lemma split_on_append_sep [go_string_simps]:
  "split_on c (s @ c # t) = split_on c s @ split_on c t"
  by (induction s) (auto split: list.splits)

lemma split_join: "cs \<noteq> [] \<Longrightarrow> \<forall>c \<in> set cs. ch \<notin> set c \<Longrightarrow> split_on ch (join_with ch cs) = cs"
  by (induction ch cs rule: join_with.induct) (auto simp: go_string_simps)

lemma split_on_pieces: "p \<in> set (split_on c s) \<Longrightarrow> c \<notin> set p"
  by (induction s arbitrary: p) (auto split: list.splits if_splits)

lemma join_split [simp]: "join_with c (split_on c s) = s"
proof (induction s)
  case Nil
  then show ?case by simp
next
  case (Cons x xs)
  show ?case
  proof (cases "split_on c xs")
    case Nil
    then show ?thesis by (metis split_on_nonempty)
  next
    case (Cons y ys)
    with Cons.IH show ?thesis
      by (cases ys) (auto split: list.splits)
  qed
qed

lemma has_prefix_append [simp]: "has_prefix (p @ s) p"
  by (induction p) auto

lemma has_prefix_iff: "has_prefix s p \<longleftrightarrow> (\<exists>t. s = p @ t)"
  by (induction s p rule: has_prefix.induct) auto

lemma trim_prefix_append [simp]: "trim_prefix (p @ s) p = s"
  by (simp add: trim_prefix_def)

lemma contains_str_iff: "contains_str s p \<longleftrightarrow> (\<exists>a b. s = a @ p @ b)"
proof (induction s)
  case Nil
  then show ?case by auto
next
  case (Cons x xs)
  show ?case
  proof
    assume "contains_str (x # xs) p"
    then consider (here) "has_prefix (x # xs) p" | (later) "contains_str xs p" by auto
    then show "\<exists>a b. x # xs = a @ p @ b"
    proof cases
      case here
      then show ?thesis unfolding has_prefix_iff by (metis append_Nil)
    next
      case later
      with Cons.IH show ?thesis by (metis append_Cons)
    qed
  next
    assume "\<exists>a b. x # xs = a @ p @ b"
    then obtain a b where eq: "x # xs = a @ p @ b" by blast
    show "contains_str (x # xs) p"
    proof (cases a)
      case Nil
      with eq have "has_prefix (x # xs) p" by (simp add: has_prefix_iff)
      then show ?thesis by simp
    next
      case (Cons a' as)
      with eq have "xs = as @ p @ b" by simp
      with Cons.IH show ?thesis by auto
    qed
  qed
qed

lemma replace_all_absent:
  "old \<noteq> [] \<Longrightarrow> \<not> contains_str s old \<Longrightarrow> replace_all s old new = s"
proof (induction s)
  case Nil
  then show ?case by (simp add: replace_all.simps)
next
  case (Cons x xs)
  then show ?case
    by (subst replace_all.simps) auto
qed

lemma replace_all_prefix:
  "old \<noteq> [] \<Longrightarrow> replace_all (old @ s) old new = new @ replace_all s old new"
  by (subst replace_all.simps) auto

lemma length_replace_all_empty:
  "length (replace_all s old []) \<le> length s"
proof (induction s old "[]::string" rule: replace_all.induct)
  case (1 s old)
  show ?case
  proof (cases "s = [] \<or> old = []")
    case True
    then show ?thesis by (subst replace_all.simps) auto
  next
    case False
    show ?thesis
    proof (cases "has_prefix s old")
      case True
      with False "1"(1) have "length (replace_all (drop (length old) s) old []) \<le> length s - length old"
        by auto
      with True False show ?thesis
        by (subst replace_all.simps) auto
    next
      case no: False
      with False "1"(2) have "length (replace_all (tl s) old []) \<le> length (tl s)"
        by blast
      with no False show ?thesis
        by (subst replace_all.simps) (cases s; auto)
    qed
  qed
qed

text \<open>Removing a substring that occurs makes the string strictly shorter.\<close>

lemma length_replace_all_present:
  "contains_str s old \<Longrightarrow> old \<noteq> [] \<Longrightarrow> length (replace_all s old []) < length s"
proof (induction s)
  case Nil
  then show ?case by simp
next
  case (Cons x xs)
  show ?case
  proof (cases "has_prefix (x # xs) old")
    case True
    have "length (replace_all (drop (length old) (x # xs)) old []) \<le> length (x # xs) - length old"
      using length_replace_all_empty [of "drop (length old) (x # xs)" old] by simp
    moreover from Cons.prems have "0 < length old" by simp
    moreover from True have "length old \<le> length (x # xs)"
      by (auto simp: has_prefix_iff dest: arg_cong [where f = length])
    moreover from True Cons.prems
    have "length (replace_all (x # xs) old []) = length (replace_all (drop (length old) (x # xs)) old [])"
      by (simp add: replace_all.simps [of "x # xs"])
    ultimately show ?thesis by linarith
  next
    case False
    with Cons show ?thesis
      by (subst replace_all.simps) auto
  qed
qed

lemma replace_all_eq_iff:
  "old \<noteq> [] \<Longrightarrow> replace_all s old [] = s \<longleftrightarrow> \<not> contains_str s old"
  using length_replace_all_present [of s old] replace_all_absent [of old s "[]"] by fastforce

section \<open>Decimal numbers\<close>

definition digit_char :: "nat \<Rightarrow> char" where
  "digit_char d = char_of (48 + d)"

definition is_digit :: "char \<Rightarrow> bool" where
  "is_digit c \<longleftrightarrow> 48 \<le> (of_char c :: nat) \<and> (of_char c :: nat) \<le> 57"

definition digit_val :: "char \<Rightarrow> nat" where
  "digit_val c = of_char c - 48"

text \<open>\<open>strconv.Itoa\<close> and \<open>itod\<close> of package \<open>net\<close> on a number that is not negative.\<close>

fun itoa_nat :: "nat \<Rightarrow> string" where
  "itoa_nat n = (if n < 10 then [digit_char n] else itoa_nat (n div 10) @ [digit_char (n mod 10)])"

declare itoa_nat.simps [simp del]

definition itoa :: "int \<Rightarrow> string" where
  "itoa i = (if i < 0 then CHR ''-'' # itoa_nat (nat (- i)) else itoa_nat (nat i))"

definition dec_val :: "string \<Rightarrow> nat" where
  "dec_val s = foldl (\<lambda>n c. n * 10 + digit_val c) 0 s"

lemma of_char_digit_char: "d < 10 \<Longrightarrow> of_char (digit_char d) = 48 + d"
  by (simp add: digit_char_def)

lemma is_digit_digit_char [simp]: "d < 10 \<Longrightarrow> is_digit (digit_char d)"
  by (simp add: is_digit_def of_char_digit_char)

lemma digit_val_digit_char [simp]: "d < 10 \<Longrightarrow> digit_val (digit_char d) = d"
  by (simp add: digit_val_def of_char_digit_char)

lemma itoa_nat_nonempty [simp]: "itoa_nat n \<noteq> []"
  by (subst itoa_nat.simps) simp

lemma itoa_nat_digits: "c \<in> set (itoa_nat n) \<Longrightarrow> is_digit c"
proof (induction n rule: itoa_nat.induct)
  case (1 n)
  then show ?case
    by (subst (asm) (2) itoa_nat.simps) (auto split: if_splits)
qed

lemma dec_val_itoa_nat [simp]: "dec_val (itoa_nat n) = n"
proof (induction n rule: itoa_nat.induct)
  case (1 n)
  show ?case
  proof (cases "n < 10")
    case True
    then show ?thesis by (subst itoa_nat.simps) (simp add: dec_val_def)
  next
    case False
    with 1 have "dec_val (itoa_nat (n div 10)) = n div 10" by simp
    then have "dec_val (itoa_nat (n div 10) @ [digit_char (n mod 10)]) = n div 10 * 10 + n mod 10"
      by (simp add: dec_val_def)
    with False show ?thesis by (subst itoa_nat.simps) simp
  qed
qed

lemma itoa_nat_inj: "itoa_nat m = itoa_nat n \<Longrightarrow> m = n"
  by (metis dec_val_itoa_nat)

section \<open>Lists and association lists\<close>

lemma map_of_SomeD_distinct:
  "distinct (map fst al) \<Longrightarrow> (k, v) \<in> set al \<longleftrightarrow> map_of al k = Some v"
  by (metis map_of_SomeD map_of_is_SomeI)

lemma map_of_update [simp]: "map_of (AList.update k v al) = (map_of al)(k \<mapsto> v)"
  by (rule update_conv')

lemma map_of_delete_upd [simp]: "map_of (AList.delete k al) = (map_of al)(k := None)"
  by (rule delete_conv')

lemma last_append_singleton_split:
  "c \<notin> set t \<Longrightarrow> last (split_on c (s @ c # t)) = t"
  by (simp add: go_string_simps)

end
