(* ===== verification/Libkv.thy ===== *)
theory Libkv
  imports Prelude "HOL-Library.Sublist"
begin

text \<open>
  The key-value client below \<open>pkg/kvstore\<close>: \<open>store/etcd/etcd.go\<close> and
  \<open>store/helpers.go\<close> of the vendored libkv, over the \<open>KeysAPI\<close> of an etcd v2 server.
  The server is not part of the repository: it is the parameter \<open>api\<close>, a record of the three
  requests the client sends over a state of any type, and the locale \<open>etcd_service\<close> states the
  documented behaviour the code relies on.
\<close>

section \<open>The service the client talks to\<close>

text \<open>A returned \<open>error\<close>: the sentinel errors of libkv, an \<open>etcd.Error\<close> with its code, any
  other error of the client (a lost connection, a timeout, an ill-formed reply), or an error the
  program makes itself, with its message.\<close>

datatype go_error =
    ErrKeyNotFound
  | ErrKeyModified
  | ErrKeyExists
  | EtcdError nat
  | OtherError string
  | ProgError string

datatype enode =
  ENode (node_key: string) (node_value: string) (node_modified: nat) (node_nodes: "enode list")

record get_options =
  get_quorum :: bool
  get_recursive :: bool
  get_sort :: bool

datatype prev_exist = PrevIgnore | PrevExist | PrevNoExist

record set_options =
  set_prev_value :: string
  set_prev_index :: nat
  set_prev_exist :: prev_exist
  set_ttl :: nat
  set_dir :: bool

record 's keys_api =
  api_get :: "'s \<Rightarrow> string \<Rightarrow> get_options \<Rightarrow> (go_error + enode) \<times> 's"
  api_set :: "'s \<Rightarrow> string \<Rightarrow> string \<Rightarrow> set_options \<Rightarrow> (go_error + enode) \<times> 's"
  api_delete :: "'s \<Rightarrow> string \<Rightarrow> (go_error + enode) \<times> 's"

definition code_key_not_found :: nat where "code_key_not_found = 100"
definition code_test_failed :: nat where "code_test_failed = 101"
definition code_not_file :: nat where "code_not_file = 102"
definition code_not_dir :: nat where "code_not_dir = 104"
definition code_node_exist :: nat where "code_node_exist = 105"

lemmas etcd_codes =
  code_key_not_found_def code_test_failed_def code_not_file_def code_not_dir_def code_node_exist_def

section \<open>helpers.go and etcd.go of libkv\<close>

record kvpair =
  kv_key :: string
  kv_value :: string
  kv_index :: nat

record write_options =
  wo_is_dir :: bool
  wo_ttl :: nat

definition split_key :: "string \<Rightarrow> string list" where
  "split_key key = (if CHR ''/'' \<in> set key then split_on CHR ''/'' key else [key])"

definition store_normalize :: "string \<Rightarrow> string" where
  "store_normalize key = CHR ''/'' # join_with CHR ''/'' (split_key key)"

definition etcd_normalize :: "string \<Rightarrow> string" where
  "etcd_normalize key = trim_prefix (store_normalize key) ''/''"

definition key_not_found :: "go_error \<Rightarrow> bool" where
  "key_not_found e =
     (case e of
        EtcdError c \<Rightarrow> c = code_key_not_found \<or> c = code_not_file \<or> c = code_not_dir
      | _ \<Rightarrow> False)"

definition lk_get :: "'s keys_api \<Rightarrow> 's \<Rightarrow> string \<Rightarrow> (go_error + kvpair) \<times> 's" where
  "lk_get api s key =
     (case api_get api s (etcd_normalize key)
             \<lparr>get_quorum = True, get_recursive = False, get_sort = False\<rparr> of
        (Inl e, s') \<Rightarrow> (Inl (if key_not_found e then ErrKeyNotFound else e), s')
      | (Inr n, s') \<Rightarrow>
          (Inr \<lparr>kv_key = key, kv_value = node_value n, kv_index = node_modified n\<rparr>, s'))"

definition lk_put ::
  "'s keys_api \<Rightarrow> 's \<Rightarrow> string \<Rightarrow> string \<Rightarrow> write_options option \<Rightarrow> (go_error + unit) \<times> 's" where
  "lk_put api s key val opts =
     (case api_set api s (etcd_normalize key) val
             \<lparr>set_prev_value = [], set_prev_index = 0, set_prev_exist = PrevIgnore,
              set_ttl = (case opts of None \<Rightarrow> 0 | Some w \<Rightarrow> wo_ttl w),
              set_dir = (case opts of None \<Rightarrow> False | Some w \<Rightarrow> wo_is_dir w)\<rparr> of
        (Inl e, s') \<Rightarrow> (Inl e, s')
      | (Inr n, s') \<Rightarrow> (Inr (), s'))"

definition lk_delete :: "'s keys_api \<Rightarrow> 's \<Rightarrow> string \<Rightarrow> (go_error + unit) \<times> 's" where
  "lk_delete api s key =
     (case api_delete api s (etcd_normalize key) of
        (Inl e, s') \<Rightarrow> (Inl (if key_not_found e then ErrKeyNotFound else e), s')
      | (Inr n, s') \<Rightarrow> (Inr (), s'))"

definition lk_exists :: "'s keys_api \<Rightarrow> 's \<Rightarrow> string \<Rightarrow> (go_error + bool) \<times> 's" where
  "lk_exists api s key =
     (case lk_get api s key of
        (Inl e, s') \<Rightarrow> (if e = ErrKeyNotFound then (Inr False, s') else (Inl e, s'))
      | (Inr _, s') \<Rightarrow> (Inr True, s'))"

definition lk_list :: "'s keys_api \<Rightarrow> 's \<Rightarrow> string \<Rightarrow> (go_error + kvpair list) \<times> 's" where
  "lk_list api s dir =
     (case api_get api s (etcd_normalize dir)
             \<lparr>get_quorum = True, get_recursive = True, get_sort = True\<rparr> of
        (Inl e, s') \<Rightarrow> (Inl (if key_not_found e then ErrKeyNotFound else e), s')
      | (Inr n, s') \<Rightarrow>
          (Inr (map (\<lambda>m. \<lparr>kv_key = node_key m, kv_value = node_value m, kv_index = node_modified m\<rparr>)
                 (node_nodes n)), s'))"

definition lk_atomic_put ::
  "'s keys_api \<Rightarrow> 's \<Rightarrow> string \<Rightarrow> string \<Rightarrow> kvpair option \<Rightarrow> write_options option \<Rightarrow>
   (go_error + kvpair) \<times> 's" where
  "lk_atomic_put api s key val previous opts =
     (case api_set api s (etcd_normalize key) val
             \<lparr>set_prev_value = (case previous of None \<Rightarrow> [] | Some p \<Rightarrow> kv_value p),
              set_prev_index = (case previous of None \<Rightarrow> 0 | Some p \<Rightarrow> kv_index p),
              set_prev_exist = (case previous of None \<Rightarrow> PrevNoExist | Some _ \<Rightarrow> PrevExist),
              set_ttl = (case opts of None \<Rightarrow> 0 | Some w \<Rightarrow> wo_ttl w),
              set_dir = False\<rparr> of
        (Inl (EtcdError c), s') \<Rightarrow>
          (if c = code_test_failed then (Inl ErrKeyModified, s')
           else if c = code_node_exist then (Inl ErrKeyExists, s')
           else (Inl (EtcdError c), s'))
      | (Inl e, s') \<Rightarrow> (Inl e, s')
      | (Inr n, s') \<Rightarrow>
          (Inr \<lparr>kv_key = key, kv_value = val, kv_index = node_modified n\<rparr>, s'))"

text \<open>The normal form of a key is the key itself: the slash that \<open>Normalize\<close> puts in front is the
  one \<open>TrimPrefix\<close> takes away.\<close>

lemma etcd_normalize_id [simp]: "etcd_normalize key = key"
  by (simp add: etcd_normalize_def store_normalize_def split_key_def trim_prefix_def)

section \<open>The documented behaviour of the service\<close>

text \<open>What the server holds: a tree of files and directories, addressed by the non-empty components
  of a key (the server cleans a path of double slashes).\<close>

datatype entry = File (file_value: string) (file_index: nat) | Directory

type_synonym tree = "string list \<rightharpoonup> entry"

fun entry_value :: "entry \<Rightarrow> string" where
  "entry_value (File v i) = v"
| "entry_value Directory = []"

definition keypath :: "string \<Rightarrow> string list" where
  "keypath k = filter (\<lambda>c. c \<noteq> []) (split_on CHR ''/'' k)"

definition path_key :: "string list \<Rightarrow> string" where
  "path_key p = concat (map (\<lambda>c. CHR ''/'' # c) p)"

text \<open>A component that is neither empty nor one of the two a path cleaner rewrites; a name that
  starts with an underscore is hidden from listings.\<close>

definition plain_name :: "string \<Rightarrow> bool" where
  "plain_name c \<longleftrightarrow> c \<noteq> [] \<and> CHR ''/'' \<notin> set c \<and> c \<noteq> ''.'' \<and> c \<noteq> ''..''"

definition visible_name :: "string \<Rightarrow> bool" where
  "visible_name c \<longleftrightarrow> plain_name c \<and> hd c \<noteq> CHR ''_''"

definition plain_key :: "string \<Rightarrow> bool" where
  "plain_key k \<longleftrightarrow> keypath k \<noteq> [] \<and> (\<forall>c \<in> set (keypath k). plain_name c)"

text \<open>The reply to a read of a file or of a directory.\<close>

definition lists_children :: "tree \<Rightarrow> string list \<Rightarrow> enode list \<Rightarrow> bool" where
  "lists_children t p ns \<longleftrightarrow>
     distinct (map node_key ns) \<and>
     (\<forall>m \<in> set ns. \<exists>c e. visible_name c \<and> node_key m = path_key (p @ [c]) \<and>
        t (p @ [c]) = Some e \<and> node_value m = entry_value e) \<and>
     (\<forall>c e. visible_name c \<and> t (p @ [c]) = Some e \<longrightarrow>
        (\<exists>m \<in> set ns. node_key m = path_key (p @ [c])))"

definition shows_node :: "tree \<Rightarrow> string list \<Rightarrow> enode \<Rightarrow> bool" where
  "shows_node t p n \<longleftrightarrow>
     (case t p of
        None \<Rightarrow> False
      | Some (File v i) \<Rightarrow> node_value n = v \<and> node_modified n = i \<and> node_nodes n = []
      | Some Directory \<Rightarrow> lists_children t p (node_nodes n))"

text \<open>A write changes one entry and makes the missing directories above it.\<close>

definition set_at :: "tree \<Rightarrow> string list \<Rightarrow> entry \<Rightarrow> tree \<Rightarrow> bool" where
  "set_at t p e t' \<longleftrightarrow>
     t' p = Some e \<and>
     (\<forall>q. q \<noteq> p \<longrightarrow> t' q = t q \<or> (strict_prefix q p \<and> t q = None \<and> t' q = Some Directory))"

definition has_index :: "entry option \<Rightarrow> nat \<Rightarrow> bool" where
  "has_index e i = (case e of Some (File v j) \<Rightarrow> j = i | _ \<Rightarrow> False)"

definition has_value :: "entry option \<Rightarrow> string \<Rightarrow> bool" where
  "has_value e v = (case e of Some (File w j) \<Rightarrow> w = v | _ \<Rightarrow> False)"

definition prev_ok :: "set_options \<Rightarrow> entry option \<Rightarrow> bool" where
  "prev_ok opts e \<longleftrightarrow>
     (case set_prev_exist opts of
        PrevIgnore \<Rightarrow> True | PrevExist \<Rightarrow> e \<noteq> None | PrevNoExist \<Rightarrow> e = None) \<and>
     (set_prev_index opts \<noteq> 0 \<longrightarrow> has_index e (set_prev_index opts)) \<and>
     (set_prev_value opts \<noteq> [] \<and> \<not> set_dir opts \<longrightarrow> has_value e (set_prev_value opts))"

definition api_error :: "go_error \<Rightarrow> bool" where
  "api_error e \<longleftrightarrow> (\<exists>c. e = EtcdError c) \<or> (\<exists>m. e = OtherError m)"

definition new_entry :: "set_options \<Rightarrow> string \<Rightarrow> nat \<Rightarrow> entry" where
  "new_entry opts v i = (if set_dir opts then Directory else File v i)"

text \<open>Modification indexes only grow.\<close>

definition fresh_index :: "tree \<Rightarrow> nat \<Rightarrow> bool" where
  "fresh_index t n \<longleftrightarrow> 0 < n \<and> (\<forall>q w j. t q = Some (File w j) \<longrightarrow> j < n)"

text \<open>
  After any error of \<open>Set\<close> the request may or may not have been carried out, even after an \<open>etcd.Error\<close>:
  the client sends a \<open>Set\<close> that a server did not answer to the next one, which may then find its own
  write there and refuse it.  \<open>Delete\<close> is not repeated, so that an \<open>etcd.Error\<close> left the tree alone.
\<close>

locale etcd_service =
  fixes api :: "'s keys_api" and tree :: "'s \<Rightarrow> tree"
  assumes get_ok: "plain_key k \<Longrightarrow> api_get api s k opt = (Inr n, s') \<Longrightarrow>
      tree s' = tree s \<and> shows_node (tree s) (keypath k) n"
    and get_err: "plain_key k \<Longrightarrow> api_get api s k opt = (Inl e, s') \<Longrightarrow>
      tree s' = tree s \<and> api_error e \<and> (key_not_found e \<longrightarrow> tree s (keypath k) = None)"
    and set_ok: "plain_key k \<Longrightarrow> api_set api s k v opts = (Inr n, s') \<Longrightarrow>
      set_at (tree s) (keypath k) (new_entry opts v (node_modified n)) (tree s') \<and>
      prev_ok opts (tree s (keypath k)) \<and>
      fresh_index (tree s) (node_modified n)"
    and set_err: "plain_key k \<Longrightarrow> api_set api s k v opts = (Inl e, s') \<Longrightarrow> api_error e \<and>
      (tree s' = tree s \<or>
       (\<exists>i. set_at (tree s) (keypath k) (new_entry opts v i) (tree s') \<and>
          prev_ok opts (tree s (keypath k)) \<and> fresh_index (tree s) i))"
    and delete_ok: "plain_key k \<Longrightarrow> api_delete api s k = (Inr n, s') \<Longrightarrow>
      tree s (keypath k) \<noteq> None \<and> tree s' = (tree s)(keypath k := None)"
    and delete_err: "plain_key k \<Longrightarrow> api_delete api s k = (Inl e, s') \<Longrightarrow> api_error e \<and>
      (tree s' = tree s \<or> (\<exists>m. e = OtherError m) \<and> tree s' = (tree s)(keypath k := None)) \<and>
      (key_not_found e \<longrightarrow> tree s (keypath k) = None \<or> tree s (keypath k) = Some Directory)"

text \<open>An error that comes from the store, not from the program.\<close>

definition store_error :: "go_error \<Rightarrow> bool" where
  "store_error e \<longleftrightarrow> (\<forall>m. e \<noteq> ProgError m)"

lemma api_store_error: "api_error e \<Longrightarrow> store_error e"
  by (auto simp: api_error_def store_error_def)

lemma set_at_same: "set_at t p e t' \<Longrightarrow> t' p = Some e"
  by (simp add: set_at_def)

lemma set_at_other: "set_at t p e t' \<Longrightarrow> q \<noteq> p \<Longrightarrow> \<not> strict_prefix q p \<Longrightarrow> t' q = t q"
  by (auto simp: set_at_def)

lemma plain_path_key: "path_key (p @ [c]) = path_key p @ CHR ''/'' # c"
  by (simp add: path_key_def)

lemma path_key_last: "CHR ''/'' \<notin> set c \<Longrightarrow> last (split_on CHR ''/'' (path_key (p @ [c]))) = c"
  by (simp add: plain_path_key last_append_singleton_split)

lemma keypath_sep: "keypath (a @ CHR ''/'' # b) = keypath a @ keypath b"
  by (simp add: keypath_def split_on_append_sep)

lemma keypath_Nil [simp]: "keypath [] = []"
  by (simp add: keypath_def)

lemma keypath_plain [simp]: "plain_name c \<Longrightarrow> keypath c = [c]"
  by (simp add: keypath_def plain_name_def go_string_simps)

lemma keypath_path_key: "\<forall>c \<in> set p. plain_name c \<Longrightarrow> keypath (path_key p) = p"
proof (induction p rule: rev_induct)
  case Nil
  then show ?case by (simp add: path_key_def)
next
  case (snoc c p)
  then show ?case by (simp add: plain_path_key keypath_sep)
qed

section \<open>What the calls of libkv do to the tree\<close>

text \<open>A conditional write that took effect found the entry it was based on, and its index is new.\<close>

definition based_on :: "kvpair option \<Rightarrow> entry option \<Rightarrow> bool" where
  "based_on previous e \<longleftrightarrow>
     (case previous of
        None \<Rightarrow> e = None
      | Some p \<Rightarrow> e \<noteq> None \<and> (kv_index p \<noteq> 0 \<longrightarrow> has_index e (kv_index p)) \<and>
          (kv_value p \<noteq> [] \<longrightarrow> has_value e (kv_value p)))"

definition conditional_put :: "tree \<Rightarrow> string list \<Rightarrow> kvpair option \<Rightarrow> string \<Rightarrow> nat \<Rightarrow> tree \<Rightarrow> bool" where
  "conditional_put t p previous v i t' \<longleftrightarrow>
     set_at t p (File v i) t' \<and> based_on previous (t p) \<and> fresh_index t i"

context etcd_service
begin

lemma lk_get_Inr:
  assumes "plain_key k" and "lk_get api s k = (Inr kv, s')"
  shows "tree s' = tree s" and "kv_key kv = k"
    and "tree s (keypath k) = Some (File v i) \<Longrightarrow> kv_value kv = v \<and> kv_index kv = i"
    and "tree s (keypath k) \<noteq> None"
proof -
  obtain n where n: "api_get api s k \<lparr>get_quorum = True, get_recursive = False, get_sort = False\<rparr> = (Inr n, s')"
    and kv: "kv = \<lparr>kv_key = k, kv_value = node_value n, kv_index = node_modified n\<rparr>"
    using assms(2) by (auto simp: lk_get_def split: prod.splits sum.splits)
  note ok = get_ok [OF assms(1) n]
  from ok show "tree s' = tree s" by simp
  from kv show "kv_key kv = k" by simp
  from ok show "tree s (keypath k) = Some (File v i) \<Longrightarrow> kv_value kv = v \<and> kv_index kv = i"
    by (simp add: kv shows_node_def)
  from ok show "tree s (keypath k) \<noteq> None" by (auto simp: shows_node_def split: option.splits)
qed

lemma lk_get_Inl:
  assumes "plain_key k" and "lk_get api s k = (Inl e, s')"
  shows "tree s' = tree s" and "e = ErrKeyNotFound \<Longrightarrow> tree s (keypath k) = None"
  using assms get_err [OF assms(1)]
  by (auto simp: lk_get_def api_error_def split: prod.splits sum.splits if_splits)

lemma lk_exists_Inr:
  assumes "plain_key k" and "lk_exists api s k = (Inr b, s')"
  shows "tree s' = tree s" and "b \<longleftrightarrow> tree s (keypath k) \<noteq> None"
proof -
  obtain r s1 where r: "lk_get api s k = (r, s1)" by (cases "lk_get api s k")
  have "tree s' = tree s \<and> (b \<longleftrightarrow> tree s (keypath k) \<noteq> None)"
  proof (cases r)
    case (Inl e)
    with r assms lk_get_Inl [OF assms(1), of s e s1] show ?thesis
      by (auto simp: lk_exists_def split: if_splits)
  next
    case (Inr kv)
    with r assms lk_get_Inr [OF assms(1), of s kv s1] show ?thesis
      by (auto simp: lk_exists_def)
  qed
  then show "tree s' = tree s" and "b \<longleftrightarrow> tree s (keypath k) \<noteq> None" by simp_all
qed

lemma lk_get_Inl_error:
  "plain_key k \<Longrightarrow> lk_get api s k = (Inl e, s') \<Longrightarrow> store_error e"
  using get_err [of k] api_store_error
  by (fastforce simp: lk_get_def store_error_def split: prod.splits sum.splits if_splits)

lemma lk_exists_Inl:
  "plain_key k \<Longrightarrow> lk_exists api s k = (Inl e, s') \<Longrightarrow> tree s' = tree s \<and> store_error e"
  by (auto simp: lk_exists_def split: prod.splits sum.splits if_splits
      dest: lk_get_Inl lk_get_Inl_error)

lemma lk_put_Inr:
  assumes "plain_key k" and "lk_put api s k v None = (Inr u, s')"
  shows "\<exists>i. set_at (tree s) (keypath k) (File v i) (tree s')"
  using assms set_ok [OF assms(1)]
  by (fastforce simp: lk_put_def new_entry_def split: prod.splits sum.splits)

lemma lk_put_Inl:
  assumes "plain_key k" and "lk_put api s k v None = (Inl e, s')"
  shows "store_error e \<and>
    (tree s' = tree s \<or> (\<exists>i. set_at (tree s) (keypath k) (File v i) (tree s')))"
  using assms set_err [OF assms(1)] api_store_error
  by (fastforce simp: lk_put_def new_entry_def split: prod.splits sum.splits)

lemma lk_delete_Inr:
  assumes "plain_key k" and "lk_delete api s k = (Inr u, s')"
  shows "tree s (keypath k) \<noteq> None" and "tree s' = (tree s)(keypath k := None)"
  using assms delete_ok [OF assms(1)] by (auto simp: lk_delete_def split: prod.splits sum.splits)

lemma lk_delete_Inl:
  assumes "plain_key k" and "lk_delete api s k = (Inl e, s')"
  shows "tree s' = tree s \<or> tree s' = (tree s)(keypath k := None)"
  using assms delete_err [OF assms(1)]
  by (fastforce simp: lk_delete_def split: prod.splits sum.splits)

lemma lk_list_Inr:
  assumes "plain_key k" and "lk_list api s k = (Inr kvs, s')"
  shows "tree s' = tree s"
    and "tree s (keypath k) = Some Directory \<Longrightarrow> distinct (map kv_key kvs)"
    and "tree s (keypath k) = Some Directory \<Longrightarrow> kv \<in> set kvs \<Longrightarrow>
      \<exists>c e. visible_name c \<and> kv_key kv = path_key (keypath k @ [c]) \<and>
        tree s (keypath k @ [c]) = Some e \<and> kv_value kv = entry_value e"
    and "tree s (keypath k) = Some Directory \<Longrightarrow> visible_name c \<Longrightarrow>
      tree s (keypath k @ [c]) = Some e \<Longrightarrow>
      \<exists>kv \<in> set kvs. kv_key kv = path_key (keypath k @ [c])"
proof -
  obtain n where n: "api_get api s k \<lparr>get_quorum = True, get_recursive = True, get_sort = True\<rparr> = (Inr n, s')"
    and kvs: "kvs = map (\<lambda>m. \<lparr>kv_key = node_key m, kv_value = node_value m, kv_index = node_modified m\<rparr>)
                 (node_nodes n)"
    using assms(2) by (auto simp: lk_list_def split: prod.splits sum.splits)
  note ok = get_ok [OF assms(1) n]
  from ok show "tree s' = tree s" by simp
  {
    assume "tree s (keypath k) = Some Directory"
    with ok have "lists_children (tree s) (keypath k) (node_nodes n)"
      by (simp add: shows_node_def)
  } note listing = this
  show "tree s (keypath k) = Some Directory \<Longrightarrow> distinct (map kv_key kvs)"
    using listing by (simp add: kvs lists_children_def comp_def)
  show "tree s (keypath k) = Some Directory \<Longrightarrow> kv \<in> set kvs \<Longrightarrow>
      \<exists>c e. visible_name c \<and> kv_key kv = path_key (keypath k @ [c]) \<and>
        tree s (keypath k @ [c]) = Some e \<and> kv_value kv = entry_value e"
    using listing by (auto simp: kvs lists_children_def)
  show "tree s (keypath k) = Some Directory \<Longrightarrow> visible_name c \<Longrightarrow>
      tree s (keypath k @ [c]) = Some e \<Longrightarrow>
      \<exists>kv \<in> set kvs. kv_key kv = path_key (keypath k @ [c])"
    using listing by (fastforce simp: kvs lists_children_def)
qed

lemma lk_list_Inl: "plain_key k \<Longrightarrow> lk_list api s k = (Inl e, s') \<Longrightarrow> tree s' = tree s"
  using get_err by (fastforce simp: lk_list_def split: prod.splits sum.splits)

lemma lk_atomic_put_Inr:
  assumes "plain_key k" and "lk_atomic_put api s k v previous opts = (Inr kv, s')"
  shows "conditional_put (tree s) (keypath k) previous v (kv_index kv) (tree s') \<and> kv_value kv = v"
  using assms set_ok [OF assms(1)]
  by (fastforce simp: lk_atomic_put_def new_entry_def prev_ok_def conditional_put_def based_on_def
      split: prod.splits sum.splits go_error.splits if_splits option.splits)

lemma lk_atomic_put_Inl:
  assumes "plain_key k" and "lk_atomic_put api s k v previous opts = (Inl e, s')"
  shows "tree s' = tree s \<or> (\<exists>i. conditional_put (tree s) (keypath k) previous v i (tree s'))"
proof -
  obtain o' e' where set: "api_set api s k v o' = (Inl e', s')" "\<not> set_dir o'"
    "\<And>x. prev_ok o' x \<Longrightarrow> based_on previous x"
    using assms(2)
    by (fastforce simp: lk_atomic_put_def prev_ok_def based_on_def
        split: prod.splits sum.splits go_error.splits if_splits option.splits)
  from set_err [OF assms(1) set(1)] set(2,3) show ?thesis
    by (auto simp: conditional_put_def new_entry_def)
qed

end

end
