(* ===== verification/Kvstore.thy ===== *)
theory Kvstore
  imports Libkv
begin

text \<open>
  \<open>pkg/kvstore/kvstore.go\<close>: the package variable \<open>kv\<close> is a record of the client and the key
  prefix of the configuration, and every function takes it and the state of the service.
\<close>

record 's kv_store =
  kvs_api :: "'s keys_api"
  kvs_prefix :: string

section \<open>Operations\<close>

definition kv_endpoints :: "string \<Rightarrow> string list" where
  "kv_endpoints clients = map (\<lambda>a. ''http://'' @ a) (split_on CHR '','' clients)"

definition get_store_key :: "'s kv_store \<Rightarrow> string \<Rightarrow> string \<Rightarrow> string" where
  "get_store_key kv item key = kvs_prefix kv @ item @ key"

definition kv_write :: "'s kv_store \<Rightarrow> 's \<Rightarrow> string \<Rightarrow> string \<Rightarrow> string \<Rightarrow> (go_error + unit) \<times> 's" where
  "kv_write kv s item key val = lk_put (kvs_api kv) s (get_store_key kv item key) val None"

definition kv_write_dir :: "'s kv_store \<Rightarrow> 's \<Rightarrow> string \<Rightarrow> string \<Rightarrow> (go_error + unit) \<times> 's" where
  "kv_write_dir kv s item key =
     lk_put (kvs_api kv) s (get_store_key kv item key) [] (Some \<lparr>wo_is_dir = True, wo_ttl = 0\<rparr>)"

definition kv_read :: "'s kv_store \<Rightarrow> 's \<Rightarrow> string \<Rightarrow> string \<Rightarrow> (go_error + string) \<times> 's" where
  "kv_read kv s item key =
     (case lk_get (kvs_api kv) s (get_store_key kv item key) of
        (Inl e, s') \<Rightarrow> (Inl e, s')
      | (Inr pair, s') \<Rightarrow> (Inr (kv_value pair), s'))"

definition kv_read_obj :: "'s kv_store \<Rightarrow> 's \<Rightarrow> string \<Rightarrow> string \<Rightarrow> (go_error + kvpair) \<times> 's" where
  "kv_read_obj kv s item key = lk_get (kvs_api kv) s (get_store_key kv item key)"

definition kv_delete :: "'s kv_store \<Rightarrow> 's \<Rightarrow> string \<Rightarrow> string \<Rightarrow> (go_error + unit) \<times> 's" where
  "kv_delete kv s item key = lk_delete (kvs_api kv) s (get_store_key kv item key)"

fun first_with_value :: "string \<Rightarrow> kvpair list \<Rightarrow> string" where
  "first_with_value val [] = []"
| "first_with_value val (it # its) =
     (if val = kv_value it then last (split_on CHR ''/'' (kv_key it))
      else first_with_value val its)"

text \<open>\<open>kvstore.Exist\<close>: the last component of the first listed key that holds the value, the empty
  string if there is none.\<close>

definition kv_exist :: "'s kv_store \<Rightarrow> 's \<Rightarrow> string \<Rightarrow> string \<Rightarrow> (go_error + string) \<times> 's" where
  "kv_exist kv s item val =
     (case lk_list (kvs_api kv) s (get_store_key kv item []) of
        (Inl e, s') \<Rightarrow> (Inl e, s')
      | (Inr pairs, s') \<Rightarrow> (Inr (first_with_value val pairs), s'))"

definition kv_is_exist :: "'s kv_store \<Rightarrow> 's \<Rightarrow> string \<Rightarrow> string \<Rightarrow> (go_error + bool) \<times> 's" where
  "kv_is_exist kv s item key = lk_exists (kvs_api kv) s (get_store_key kv item key)"

definition kv_write_bytes :: "'s kv_store \<Rightarrow> 's \<Rightarrow> string \<Rightarrow> string \<Rightarrow> string \<Rightarrow> (go_error + unit) \<times> 's" where
  "kv_write_bytes kv s item key val = lk_put (kvs_api kv) s (get_store_key kv item key) val None"

definition kv_list :: "'s kv_store \<Rightarrow> 's \<Rightarrow> string \<Rightarrow> (go_error + kvpair list) \<times> 's" where
  "kv_list kv s key = lk_list (kvs_api kv) s (get_store_key kv [] key)"

definition kv_write_atomic ::
  "'s kv_store \<Rightarrow> 's \<Rightarrow> string \<Rightarrow> string \<Rightarrow> string \<Rightarrow> kvpair option \<Rightarrow> write_options option \<Rightarrow>
   (go_error + kvpair) \<times> 's" where
  "kv_write_atomic kv s item key val previous opts =
     lk_atomic_put (kvs_api kv) s (get_store_key kv item key) val previous opts"

text \<open>\<open>WaitForStart\<close> lists the prefix until the service answers; \<open>None\<close> is a wait without end.\<close>

partial_function (option) wait_for_start :: "'s kv_store \<Rightarrow> 's \<Rightarrow> 's option" where
  "wait_for_start kv s =
     (case lk_list (kvs_api kv) s (kvs_prefix kv) of
        (r, s') \<Rightarrow>
          (case r of
             Inr _ \<Rightarrow> Some s'
           | Inl e \<Rightarrow> if e = ErrKeyNotFound then Some s' else wait_for_start kv s'))"

section \<open>A directory of the store\<close>

definition item_path :: "'s kv_store \<Rightarrow> string \<Rightarrow> string list" where
  "item_path kv item = keypath (kvs_prefix kv @ item)"

definition item_ok :: "'s kv_store \<Rightarrow> string \<Rightarrow> bool" where
  "item_ok kv item \<longleftrightarrow>
     kvs_prefix kv @ item \<noteq> [] \<and> last (kvs_prefix kv @ item) = CHR ''/'' \<and>
     plain_key (kvs_prefix kv @ item)"

lemma item_split:
  assumes "item_ok kv item"
  obtains d where "kvs_prefix kv @ item = d @ ''/''" and "keypath d = item_path kv item"
proof -
  from assms have "kvs_prefix kv @ item = butlast (kvs_prefix kv @ item) @ [CHR ''/'']"
    by (metis append_butlast_last_id item_ok_def)
  moreover from this have "keypath (butlast (kvs_prefix kv @ item)) = item_path kv item"
    unfolding item_path_def by (metis append_Nil2 keypath_Nil keypath_sep)
  ultimately show thesis by (rule that)
qed

lemma store_key_path:
  assumes "item_ok kv item"
  shows "keypath (get_store_key kv item key) = item_path kv item @ keypath key"
proof -
  from assms obtain d where d: "kvs_prefix kv @ item = d @ ''/''" "keypath d = item_path kv item"
    by (rule item_split)
  then have "get_store_key kv item key = d @ CHR ''/'' # key"
    by (simp add: get_store_key_def flip: append_assoc)
  with d(2) show ?thesis by (simp add: keypath_sep)
qed

lemma store_key_plain:
  assumes "item_ok kv item" and "plain_name c"
  shows "plain_key (get_store_key kv item c)"
  using assms by (auto simp: plain_key_def store_key_path item_ok_def item_path_def)

lemma store_dir_plain: "item_ok kv item \<Longrightarrow> plain_key (get_store_key kv item [])"
  by (auto simp: plain_key_def item_ok_def get_store_key_def)

text \<open>The name and value of every visible entry of a directory.\<close>

definition dir_view :: "tree \<Rightarrow> string list \<Rightarrow> string \<Rightarrow> string option" where
  "dir_view t d c = (if visible_name c then map_option entry_value (t (d @ [c])) else None)"

lemma set_at_sibling:
  assumes "set_at t (d @ [c]) e t'" and "b \<noteq> c"
  shows "t' (d @ [b]) = t (d @ [b])"
  using set_at_other [OF assms(1), of "d @ [b]"] assms(2) prefix_length_less [of "d @ [b]" "d @ [c]"]
  by auto

lemma dir_view_set_at:
  assumes "set_at t (d @ [c]) e t'" and "visible_name c" and "t d = Some Directory"
  shows "dir_view t' d = (dir_view t d)(c \<mapsto> entry_value e)" and "t' d = Some Directory"
proof -
  have other: "t' (d @ [b]) = t (d @ [b])" if "b \<noteq> c" for b
    using assms(1) that by (rule set_at_sibling)
  show "dir_view t' d = (dir_view t d)(c \<mapsto> entry_value e)"
    using assms(2) set_at_same [OF assms(1)] by (auto simp: dir_view_def other)
  show "t' d = Some Directory"
    using assms(1,3) by (auto simp: set_at_def)
qed

lemma dir_view_delete:
  "visible_name c \<Longrightarrow> dir_view (t(d @ [c] := None)) d = (dir_view t d)(c := None)"
  by (auto simp: dir_view_def)

lemma visible_plain: "visible_name c \<Longrightarrow> plain_name c"
  by (simp add: visible_name_def)

text \<open>A directory of the store under a service that keeps the contract.\<close>

locale kv_dir = etcd_service "kvs_api kv" tree
  for kv :: "'s kv_store" and tree :: "'s \<Rightarrow> tree" +
  fixes item :: string
  assumes item: "item_ok kv item"
begin

lemmas path = store_key_path [OF item]
lemmas plain = store_key_plain [OF item visible_plain] store_dir_plain [OF item]

lemma kv_is_exist_Inr:
  assumes "visible_name c" and "kv_is_exist kv s item c = (Inr b, s')"
  shows "tree s' = tree s" and "b \<longleftrightarrow> dir_view (tree s) (item_path kv item) c \<noteq> None"
  using lk_exists_Inr [OF plain(1) [OF assms(1)] assms(2) [unfolded kv_is_exist_def]] assms(1)
  by (simp_all add: path visible_plain dir_view_def)

lemma kv_is_exist_Inl:
  "visible_name c \<Longrightarrow> kv_is_exist kv s item c = (Inl e, s') \<Longrightarrow>
    tree s' = tree s \<and> store_error e"
  unfolding kv_is_exist_def by (rule lk_exists_Inl [OF plain(1)])

lemma kv_write_Inr:
  assumes "visible_name c" and "kv_write kv s item c v = (Inr u, s')"
  shows "\<exists>i. set_at (tree s) (item_path kv item @ [c]) (File v i) (tree s')"
  using lk_put_Inr [OF plain(1) [OF assms(1)] assms(2) [unfolded kv_write_def]] assms(1)
  by (simp add: path visible_plain)

lemma kv_write_Inl:
  assumes "visible_name c" and "kv_write kv s item c v = (Inl e, s')"
  shows "store_error e \<and>
    (tree s' = tree s \<or> (\<exists>i. set_at (tree s) (item_path kv item @ [c]) (File v i) (tree s')))"
  using lk_put_Inl [OF plain(1) [OF assms(1)] assms(2) [unfolded kv_write_def]] assms(1)
  by (simp add: path visible_plain)

lemma kv_read_tree:
  assumes "visible_name c" and "kv_read kv s item c = (r, s')"
  shows "tree s' = tree s"
  using assms lk_get_Inr(1) [OF plain(1) [OF assms(1)]] lk_get_Inl(1) [OF plain(1) [OF assms(1)]]
  by (auto simp: kv_read_def split: prod.splits sum.splits)

lemma kv_read_Inr:
  assumes "visible_name c" and "kv_read kv s item c = (Inr v, s')"
    and "tree s (item_path kv item @ [c]) = Some (File w i)"
  shows "v = w"
proof -
  obtain p where p: "lk_get (kvs_api kv) s (get_store_key kv item c) = (Inr p, s')" "v = kv_value p"
    using assms(2) by (auto simp: kv_read_def split: prod.splits sum.splits)
  from lk_get_Inr(3) [OF plain(1) [OF assms(1)] p(1)] assms(1,3) p(2) show ?thesis
    by (simp add: path visible_plain)
qed

lemma kv_delete_Inr:
  assumes "visible_name c" and "kv_delete kv s item c = (Inr u, s')"
  shows "tree s (item_path kv item @ [c]) \<noteq> None"
    and "tree s' = (tree s)(item_path kv item @ [c] := None)"
  using lk_delete_Inr [OF plain(1) [OF assms(1)] assms(2) [unfolded kv_delete_def]] assms(1)
  by (simp_all add: path visible_plain)

lemma kv_delete_Inl:
  assumes "visible_name c" and "kv_delete kv s item c = (Inl e, s')"
  shows "tree s' = tree s \<or> tree s' = (tree s)(item_path kv item @ [c] := None)"
  using lk_delete_Inl [OF plain(1) [OF assms(1)] assms(2) [unfolded kv_delete_def]] assms(1)
  by (simp add: path visible_plain)

lemma first_with_value_cases:
  "first_with_value v kvs = [] \<and> (\<forall>kv \<in> set kvs. kv_value kv = v \<longrightarrow> last (split_on CHR ''/'' (kv_key kv)) = [])
   \<or> (\<exists>kv \<in> set kvs. kv_value kv = v \<and> first_with_value v kvs = last (split_on CHR ''/'' (kv_key kv)) \<and>
        first_with_value v kvs \<noteq> [])
   \<or> (\<exists>kv \<in> set kvs. kv_value kv = v \<and> last (split_on CHR ''/'' (kv_key kv)) = [])"
  by (induction kvs) auto

lemma kv_exist_tree: "kv_exist kv s item v = (r, s') \<Longrightarrow> tree s' = tree s"
  using lk_list_Inr(1) [OF plain(2)] lk_list_Inl [OF plain(2)]
  by (auto simp: kv_exist_def split: prod.splits sum.splits)

text \<open>\<open>kvstore.Exist\<close> finds a name that holds the value exactly when the directory has one.\<close>

lemma kv_exist_Inr:
  assumes ex: "kv_exist kv s item v = (Inr c, s')"
    and dir: "tree s (item_path kv item) = Some Directory"
  shows "c \<noteq> [] \<Longrightarrow> dir_view (tree s) (item_path kv item) c = Some v"
    and "c = [] \<Longrightarrow> dir_view (tree s) (item_path kv item) b \<noteq> Some v"
proof -
  let ?d = "item_path kv item"
  obtain kvs where l: "lk_list (kvs_api kv) s (get_store_key kv item []) = (Inr kvs, s')"
    and c: "c = first_with_value v kvs"
    using ex by (auto simp: kv_exist_def split: prod.splits sum.splits)
  have d: "keypath (get_store_key kv item []) = ?d" by (simp add: path)
  note L = lk_list_Inr [OF plain(2) l, unfolded d]
  have named: "\<exists>b. visible_name b \<and> last (split_on CHR ''/'' (kv_key p)) = b \<and>
      kv_key p = path_key (?d @ [b]) \<and> dir_view (tree s) ?d b = Some (kv_value p)"
    if "p \<in> set kvs" for p
    using L(3) [OF dir that]
    by (auto simp: dir_view_def path_key_last visible_name_def plain_name_def)
  then have nonempty: "last (split_on CHR ''/'' (kv_key p)) \<noteq> []" if "p \<in> set kvs" for p
    using that by (auto simp: visible_name_def plain_name_def)
  show "dir_view (tree s) ?d c = Some v" if "c \<noteq> []"
    using that first_with_value_cases [of v kvs] named nonempty by (auto simp: c)
  show "dir_view (tree s) ?d b \<noteq> Some v" if "c = []"
  proof
    assume b: "dir_view (tree s) ?d b = Some v"
    then obtain e where e: "visible_name b" "tree s (?d @ [b]) = Some e" "entry_value e = v"
      by (auto simp: dir_view_def split: if_splits)
    from L(4) [OF dir e(1,2)] obtain p where p: "p \<in> set kvs" "kv_key p = path_key (?d @ [b])"
      by blast
    from e(1) p(2) have "last (split_on CHR ''/'' (kv_key p)) = b"
      by (simp add: path_key_last visible_name_def plain_name_def)
    with named [OF p(1)] b have "kv_value p = v" by auto
    with p(1) that nonempty first_with_value_cases [of v kvs] show False by (auto simp: c)
  qed
qed

end

end
