(* ===== verification/Gonet.thy ===== *)
theory Gonet
  imports Prelude "HOL-Library.Word"
begin

text \<open>
  The part of Go's standard package \<open>net\<close> (Go 1.8, the version \<open>Godeps/Godeps.json\<close>
  names) that the program uses: \<open>IP\<close>, \<open>IPMask\<close>, \<open>IPNet\<close>, \<open>ParseIP\<close>,
  \<open>ParseCIDR\<close>, \<open>String\<close>, \<open>To4\<close>, \<open>To16\<close>, \<open>Equal\<close>, \<open>Mask\<close>,
  \<open>Contains\<close> and \<open>Size\<close>.  A \<open>net.IP\<close> is a slice of bytes; a nil slice is the empty
  list, which is how every function of the package treats it.
\<close>

unbundle bit_operations_syntax

section \<open>Addresses\<close>

type_synonym byte = "8 word"
type_synonym ip = "byte list"

record ipnet =
  net_ip :: ip
  net_mask :: "byte list"

definition v4_in_v6_prefix :: ip where
  "v4_in_v6_prefix = replicate 10 0 @ [255, 255]"

definition to4 :: "ip \<Rightarrow> ip" where
  "to4 ip =
     (if length ip = 4 then ip
      else if length ip = 16 \<and> take 12 ip = v4_in_v6_prefix then drop 12 ip
      else [])"

definition to16 :: "ip \<Rightarrow> ip" where
  "to16 ip =
     (if length ip = 4 then v4_in_v6_prefix @ ip
      else if length ip = 16 then ip
      else [])"

definition ip_equal :: "ip \<Rightarrow> ip \<Rightarrow> bool" where
  "ip_equal x y =
     (if length x = length y then x = y
      else if length x = 4 \<and> length y = 16 then y = v4_in_v6_prefix @ x
      else if length x = 16 \<and> length y = 4 then x = v4_in_v6_prefix @ y
      else False)"

text \<open>\<open>math/big\<close>: \<open>SetBytes\<close> reads a big-endian number, \<open>Bytes\<close> writes it with no
  leading zero byte.\<close>

definition set_bytes :: "byte list \<Rightarrow> nat" where
  "set_bytes bs = foldl (\<lambda>n b. n * 256 + unat b) 0 bs"

fun nat_bytes :: "nat \<Rightarrow> byte list" where
  "nat_bytes n = (if n = 0 then [] else nat_bytes (n div 256) @ [of_nat (n mod 256)])"

declare nat_bytes.simps [simp del]

section \<open>Masks\<close>

fun cidr_mask :: "nat \<Rightarrow> nat \<Rightarrow> byte list" where
  "cidr_mask ones 0 = []"
| "cidr_mask ones (Suc l) =
     (if 8 \<le> ones then 255 # cidr_mask (ones - 8) l
      else NOT (drop_bit ones 255) # cidr_mask 0 l)"

definition byte_ones :: "byte \<Rightarrow> nat option" where
  "byte_ones v = List.find (\<lambda>k. v = NOT (drop_bit k 255)) [0..<8]"

text \<open>\<open>simpleMaskLength\<close>: the number of leading one bits, \<open>None\<close> (the code's \<open>-1\<close>) for a
  mask with a one after a zero.\<close>

fun simple_mask_length :: "byte list \<Rightarrow> nat option" where
  "simple_mask_length [] = Some 0"
| "simple_mask_length (v # vs) =
     (if v = 255 then map_option (\<lambda>n. 8 + n) (simple_mask_length vs)
      else if \<forall>w \<in> set vs. w = 0 then byte_ones v else None)"

definition mask_size :: "byte list \<Rightarrow> nat \<times> nat" where
  "mask_size m = (case simple_mask_length m of None \<Rightarrow> (0, 0) | Some n \<Rightarrow> (n, 8 * length m))"

definition ip_mask :: "ip \<Rightarrow> byte list \<Rightarrow> ip" where
  "ip_mask ip0 mask0 =
     (let mask = (if length mask0 = 16 \<and> length ip0 = 4 \<and> take 12 mask0 = replicate 12 255
                  then drop 12 mask0 else mask0);
          ip = (if length mask = 4 \<and> length ip0 = 16 \<and> take 12 ip0 = v4_in_v6_prefix
                then drop 12 ip0 else ip0)
      in if length ip \<noteq> length mask then [] else map2 (AND) ip mask)"

definition network_number_and_mask :: "ipnet \<Rightarrow> ip \<times> byte list" where
  "network_number_and_mask n =
     (let ip = (if to4 (net_ip n) \<noteq> [] then to4 (net_ip n) else net_ip n);
          m = net_mask n
      in if to4 (net_ip n) = [] \<and> length ip \<noteq> 16 then ([], [])
         else if length m = 4 then (if length ip \<noteq> 4 then ([], []) else (ip, m))
         else if length m = 16 then (if length ip = 4 then (ip, drop 12 m) else (ip, m))
         else ([], []))"

definition net_contains :: "ipnet \<Rightarrow> ip \<Rightarrow> bool" where
  "net_contains n ip0 =
     (let (nn, m) = network_number_and_mask n;
          ip = (if to4 ip0 \<noteq> [] then to4 ip0 else ip0)
      in length ip = length nn \<and> map2 (AND) nn m = map2 (AND) ip m)"

section \<open>Printing\<close>

definition hex_char :: "nat \<Rightarrow> char" where
  "hex_char d = (if d < 10 then char_of (48 + d) else char_of (87 + d))"

definition hex_byte :: "byte \<Rightarrow> string" where
  "hex_byte b = [hex_char (unat b div 16), hex_char (unat b mod 16)]"

fun hex_nat :: "nat \<Rightarrow> string" where
  "hex_nat n = (if n < 16 then [hex_char n] else hex_nat (n div 16) @ [hex_char (n mod 16)])"

declare hex_nat.simps [simp del]

fun groups16 :: "byte list \<Rightarrow> nat list" where
  "groups16 (a # b # rest) = (unat a * 256 + unat b) # groups16 rest"
| "groups16 _ = []"

text \<open>The first longest run of zero groups: its position and its length so far.\<close>

fun longest_zeros :: "nat \<Rightarrow> nat list \<Rightarrow> nat \<times> nat \<Rightarrow> nat \<times> nat" where
  "longest_zeros i [] best = best"
| "longest_zeros i (g # gs) (b, l) =
     (let r = length (takeWhile (\<lambda>x. x = 0) (g # gs))
      in longest_zeros (Suc i) gs (if l < r then (i, r) else (b, l)))"

definition v6_string :: "ip \<Rightarrow> string" where
  "v6_string ip =
     (let gs = groups16 ip; (b, l) = longest_zeros 0 gs (0, 0);
          pr = (\<lambda>xs. join_with CHR '':'' (map hex_nat xs))
      in if l \<le> 1 then pr gs else pr (take b gs) @ ''::'' @ pr (drop (b + l) gs))"

definition v4_string :: "ip \<Rightarrow> string" where
  "v4_string p = join_with CHR ''.'' (map (\<lambda>b. itoa_nat (unat b)) p)"

definition ip_string :: "ip \<Rightarrow> string" where
  "ip_string ip =
     (if ip = [] then ''<nil>''
      else if length (to4 ip) = 4 then v4_string (to4 ip)
      else if length ip \<noteq> 16 then CHR ''?'' # concat (map hex_byte ip)
      else v6_string ip)"

section \<open>Parsing\<close>

text \<open>\<open>dtoi\<close> and \<open>xtoi\<close>: the number a string starts with and the rest; no digit, or a value of
  \<open>big\<close> and above, is a failure.\<close>

definition parse_big :: nat where
  "parse_big = 0xFFFFFF"

fun dtoi_loop :: "nat \<Rightarrow> string \<Rightarrow> (nat \<times> string) option" where
  "dtoi_loop n [] = Some (n, [])"
| "dtoi_loop n (c # cs) =
     (if is_digit c
      then (if parse_big \<le> n * 10 + digit_val c then None else dtoi_loop (n * 10 + digit_val c) cs)
      else Some (n, c # cs))"

definition dtoi :: "string \<Rightarrow> (nat \<times> string) option" where
  "dtoi s = (if s = [] \<or> \<not> is_digit (hd s) then None else dtoi_loop 0 s)"

definition hex_val :: "char \<Rightarrow> nat option" where
  "hex_val c =
     (let n = of_char c
      in if 48 \<le> n \<and> n \<le> 57 then Some (n - 48)
         else if 97 \<le> n \<and> n \<le> 102 then Some (n - 87)
         else if 65 \<le> n \<and> n \<le> 70 then Some (n - 55)
         else None)"

fun xtoi_loop :: "nat \<Rightarrow> string \<Rightarrow> (nat \<times> string) option" where
  "xtoi_loop n [] = Some (n, [])"
| "xtoi_loop n (c # cs) =
     (case hex_val c of
        None \<Rightarrow> Some (n, c # cs)
      | Some d \<Rightarrow> if parse_big \<le> n * 16 + d then None else xtoi_loop (n * 16 + d) cs)"

definition xtoi :: "string \<Rightarrow> (nat \<times> string) option" where
  "xtoi s = (if s = [] \<or> hex_val (hd s) = None then None else xtoi_loop 0 s)"

fun parse_v4_loop :: "nat \<Rightarrow> byte list \<Rightarrow> string \<Rightarrow> ip" where
  "parse_v4_loop 0 acc s = (if s \<noteq> [] then [] else v4_in_v6_prefix @ acc)"
| "parse_v4_loop (Suc k) acc s =
     (if s = [] then []
      else if acc \<noteq> [] \<and> hd s \<noteq> CHR ''.'' then []
      else case dtoi (if acc \<noteq> [] then tl s else s) of
             None \<Rightarrow> []
           | Some (n, r) \<Rightarrow> if 255 < n then [] else parse_v4_loop k (acc @ [of_nat n]) r)"

definition parse_ipv4 :: "string \<Rightarrow> ip" where
  "parse_ipv4 s = parse_v4_loop 4 [] s"

definition v6_finish :: "byte list \<Rightarrow> nat option \<Rightarrow> string \<Rightarrow> ip" where
  "v6_finish acc ell s =
     (if s \<noteq> [] then []
      else if length acc < 16 then
        (case ell of None \<Rightarrow> []
         | Some e \<Rightarrow> take e acc @ replicate (16 - length acc) 0 @ drop e acc)
      else if ell \<noteq> None then [] else acc)"

fun parse_v6_loop :: "nat \<Rightarrow> byte list \<Rightarrow> nat option \<Rightarrow> string \<Rightarrow> ip" where
  "parse_v6_loop 0 acc ell s = v6_finish acc ell s"
| "parse_v6_loop (Suc k) acc ell s =
     (case xtoi s of
        None \<Rightarrow> []
      | Some (n, r) \<Rightarrow>
          if 0xFFFF < n then []
          else if r \<noteq> [] \<and> hd r = CHR ''.'' then
            (if ell = None \<and> length acc \<noteq> 12 then []
             else if 16 < length acc + 4 then []
             else if parse_ipv4 s = [] then []
             else v6_finish (acc @ drop 12 (parse_ipv4 s)) ell [])
          else
            (let acc' = acc @ [of_nat (n div 256), of_nat (n mod 256)]
             in if r = [] then v6_finish acc' ell []
                else if hd r \<noteq> CHR '':'' \<or> length r = 1 then []
                else if hd (tl r) = CHR '':'' then
                  (if ell \<noteq> None then []
                   else if tl (tl r) = [] then v6_finish acc' (Some (length acc')) []
                   else parse_v6_loop k acc' (Some (length acc')) (tl (tl r)))
                else parse_v6_loop k acc' ell (tl r)))"

definition parse_ipv6 :: "string \<Rightarrow> ip" where
  "parse_ipv6 s =
     (if has_prefix s ''::'' then
        (if drop 2 s = [] then replicate 16 0 else parse_v6_loop 8 [] (Some 0) (drop 2 s))
      else parse_v6_loop 8 [] None s)"

definition parse_ip :: "string \<Rightarrow> ip" where
  "parse_ip s =
     (case List.find (\<lambda>c. c = CHR ''.'' \<or> c = CHR '':'') s of
        None \<Rightarrow> []
      | Some c \<Rightarrow> if c = CHR ''.'' then parse_ipv4 s else parse_ipv6 s)"

text \<open>\<open>net.ParseCIDR\<close>: the address and the network, \<open>None\<close> for a \<open>ParseError\<close>.\<close>

definition go_parse_cidr :: "string \<Rightarrow> (ip \<times> ipnet) option" where
  "go_parse_cidr s =
     (if CHR ''/'' \<notin> set s then None
      else
        let addr = takeWhile (\<lambda>c. c \<noteq> CHR ''/'') s;
            mask = tl (dropWhile (\<lambda>c. c \<noteq> CHR ''/'') s);
            v4 = parse_ipv4 addr;
            iplen = (if v4 \<noteq> [] then 4 else 16);
            ip = (if v4 \<noteq> [] then v4 else parse_ipv6 addr)
        in case dtoi mask of
             None \<Rightarrow> None
           | Some (n, r) \<Rightarrow>
               if ip = [] \<or> r \<noteq> [] \<or> 8 * iplen < n then None
               else let m = cidr_mask n iplen
                    in Some (ip, \<lparr>net_ip = ip_mask ip m, net_mask = m\<rparr>))"

section \<open>Lemmas on addresses\<close>

lemma length_v4_prefix [simp]: "length v4_in_v6_prefix = 12"
  by (simp add: v4_in_v6_prefix_def)

lemma v4_prefix_nonempty [simp]: "v4_in_v6_prefix \<noteq> []"
  by (simp add: v4_in_v6_prefix_def)

lemma to4_v4 [simp]: "length p = 4 \<Longrightarrow> to4 p = p"
  by (simp add: to4_def)

lemma to4_mapped [simp]: "length p = 4 \<Longrightarrow> to4 (v4_in_v6_prefix @ p) = p"
  by (simp add: to4_def)

lemma to4_Nil [simp]: "to4 [] = []"
  by (simp add: to4_def)

lemma to4_cases:
  "to4 ip \<noteq> [] \<Longrightarrow> length (to4 ip) = 4 \<and> (ip = to4 ip \<or> ip = v4_in_v6_prefix @ to4 ip)"
  unfolding to4_def by (auto split: if_splits) (metis append_take_drop_id)

lemma to4_length: "to4 ip \<noteq> [] \<Longrightarrow> length (to4 ip) = 4"
  using to4_cases by blast

lemma to4_idem [simp]: "to4 (to4 ip) = to4 ip"
  using to4_length [of ip] by (cases "to4 ip = []") simp_all

lemma ip_equal_refl [simp]: "ip_equal x x"
  by (simp add: ip_equal_def)

lemma ip_equal_to4:
  assumes "to4 x \<noteq> []" and "to4 y \<noteq> []"
  shows "ip_equal x y \<longleftrightarrow> to4 x = to4 y"
proof -
  obtain p where p: "length p = 4" "x = p \<or> x = v4_in_v6_prefix @ p"
    using to4_cases [OF assms(1)] by blast
  obtain q where q: "length q = 4" "y = q \<or> y = v4_in_v6_prefix @ q"
    using to4_cases [OF assms(2)] by blast
  from p q show ?thesis by (elim disjE) (auto simp: ip_equal_def)
qed

lemma unat_byte_less [simp]: "unat (b :: byte) < 256"
  using unsigned_less [of b] by simp

section \<open>Numbers and bytes\<close>

lemma set_bytes_Nil [simp]: "set_bytes [] = 0"
  by (simp add: set_bytes_def)

lemma set_bytes_snoc [simp]: "set_bytes (bs @ [b]) = set_bytes bs * 256 + unat b"
  by (simp add: set_bytes_def)

lemma set_bytes_bound: "set_bytes bs < 256 ^ length bs"
proof (induction bs rule: rev_induct)
  case Nil
  then show ?case by simp
next
  case (snoc b bs)
  have "unat b < 256" by simp
  with snoc have "set_bytes bs * 256 + unat b < 256 ^ length bs * 256" by linarith
  then show ?case by (simp add: mult.commute)
qed

lemma digit256_inj:
  fixes a b r s :: nat
  assumes "a * 256 + r = b * 256 + s" and "r < 256" and "s < 256"
  shows "a = b \<and> r = s"
proof -
  from assms have "(a * 256 + r) div 256 = (b * 256 + s) div 256" by simp
  with assms(2,3) have "a = b" by simp
  with assms(1) show ?thesis by simp
qed

lemma set_bytes_inj:
  "length xs = length ys \<Longrightarrow> set_bytes xs = set_bytes ys \<Longrightarrow> xs = ys"
proof (induction xs arbitrary: ys rule: rev_induct)
  case Nil
  then show ?case by simp
next
  case (snoc x xs)
  then obtain y ys' where ys: "ys = ys' @ [y]"
    by (cases ys rule: rev_cases) auto
  have "unat x < 256" "unat y < 256" by simp_all
  moreover from snoc.prems ys have "set_bytes xs * 256 + unat x = set_bytes ys' * 256 + unat y"
    by simp
  ultimately have eq: "set_bytes xs = set_bytes ys'" "unat x = unat y"
    by (blast dest: digit256_inj)+
  from snoc.prems ys have "length xs = length ys'" by simp
  from snoc.IH [OF this eq(1)] have "xs = ys'" .
  moreover from eq(2) have "x = y" by (rule unsigned_word_eqI)
  ultimately show ?case using ys by simp
qed

lemma set_bytes_nat_bytes [simp]: "set_bytes (nat_bytes n) = n"
proof (induction n rule: nat_bytes.induct)
  case (1 n)
  show ?case
  proof (cases "n = 0")
    case True
    then show ?thesis by (simp add: nat_bytes.simps)
  next
    case False
    have "unat (of_nat (n mod 256) :: byte) = n mod 256"
      by (simp add: unat_of_nat take_bit_eq_mod)
    with False 1 show ?thesis by (subst nat_bytes.simps) simp
  qed
qed

lemma length_nat_bytes:
  "256 ^ k \<le> n \<Longrightarrow> n < 256 ^ Suc k \<Longrightarrow> length (nat_bytes n) = Suc k"
proof (induction k arbitrary: n)
  case 0
  then have "n div 256 = 0" "n \<noteq> 0" by simp_all
  then show ?case by (subst nat_bytes.simps) (simp add: nat_bytes.simps [of 0])
next
  case (Suc k)
  then have "256 ^ k \<le> n div 256" "n div 256 < 256 ^ Suc k"
    by (simp_all add: less_eq_div_iff_mult_less_eq div_less_iff_less_mult mult.commute)
  with Suc.IH have "length (nat_bytes (n div 256)) = Suc k" by blast
  moreover have "n \<noteq> 0" using Suc.prems(1) by (metis gr0I not_less power_eq_0_iff zero_neq_numeral less_eq_nat.simps(1) order_antisym)
  ultimately show ?case by (subst nat_bytes.simps) simp
qed

lemma nat_bytes_set_bytes:
  assumes "length p = Suc k" and "256 ^ k \<le> set_bytes p"
  shows "nat_bytes (set_bytes p) = p"
proof (rule set_bytes_inj)
  show "length (nat_bytes (set_bytes p)) = length p"
    using length_nat_bytes [OF assms(2)] set_bytes_bound [of p] assms(1) by simp
qed simp

section \<open>Printing and parsing dotted addresses\<close>

lemma dec_fold_mono: "m \<le> foldl (\<lambda>n c. n * 10 + digit_val c) m xs"
proof (induction xs arbitrary: m)
  case Nil
  then show ?case by simp
next
  case (Cons x xs)
  have "m \<le> m * 10 + digit_val x" by simp
  also have "\<dots> \<le> foldl (\<lambda>n c. n * 10 + digit_val c) (m * 10 + digit_val x) xs" by (rule Cons.IH)
  finally show ?case by simp
qed

lemma dtoi_loop_digits:
  assumes "\<forall>c \<in> set ds. is_digit c"
    and "foldl (\<lambda>n c. n * 10 + digit_val c) n ds < parse_big"
    and "r = [] \<or> \<not> is_digit (hd r)"
  shows "dtoi_loop n (ds @ r) = Some (foldl (\<lambda>n c. n * 10 + digit_val c) n ds, r)"
  using assms
proof (induction ds arbitrary: n)
  case Nil
  then show ?case by (cases r) auto
next
  case (Cons d ds)
  from dec_fold_mono [of "n * 10 + digit_val d" ds] Cons.prems have "n * 10 + digit_val d < parse_big"
    by simp
  with Cons show ?case by simp
qed

lemma dtoi_itoa_nat:
  assumes "n < parse_big" and "r = [] \<or> \<not> is_digit (hd r)"
  shows "dtoi (itoa_nat n @ r) = Some (n, r)"
proof -
  have "is_digit (hd (itoa_nat n))" by (rule itoa_nat_digits [of _ n]) simp
  moreover have "dtoi_loop 0 (itoa_nat n @ r) = Some (n, r)"
    using dtoi_loop_digits [of "itoa_nat n" 0 r] dec_val_itoa_nat [of n] assms
    by (auto simp: dec_val_def itoa_nat_digits)
  ultimately show ?thesis by (simp add: dtoi_def)
qed

lemma not_digit_dot [simp]: "\<not> is_digit CHR ''.''" "\<not> is_digit CHR '':''" "\<not> is_digit CHR ''/''"
  by (simp_all add: is_digit_def)

lemma byte_big [simp]: "unat (b :: byte) < parse_big"
  unfolding parse_big_def by (rule less_trans [OF unat_byte_less]) simp

lemma length4E:
  assumes "length p = 4"
  obtains a b c d where "p = [a, b, c, d]"
  using assms by (auto simp: length_Suc_conv eval_nat_numeral)

lemma parse_v4_step:
  assumes "r = [] \<or> \<not> is_digit (hd r)"
  shows "parse_v4_loop (Suc k) [] (itoa_nat (unat b) @ r) = parse_v4_loop k [b] r"
    and "acc \<noteq> [] \<Longrightarrow>
      parse_v4_loop (Suc k) acc (CHR ''.'' # itoa_nat (unat b) @ r) = parse_v4_loop k (acc @ [b]) r"
  using assms unat_byte_less [of b]
  by (simp_all add: dtoi_itoa_nat not_less del: unat_byte_less)

lemma parse_ipv4_v4_string:
  assumes "length p = 4"
  shows "parse_ipv4 (v4_string p) = v4_in_v6_prefix @ p"
proof -
  from assms obtain a b c d where p: "p = [a, b, c, d]" by (elim length4E)
  show ?thesis
    using parse_v4_step(2) [of "[]" "[a, b, c]" 0 d]
    by (simp add: p parse_ipv4_def v4_string_def eval_nat_numeral parse_v4_step
        del: parse_v4_loop.simps(2))
qed

lemma find_digits_dot:
  "\<forall>c \<in> set ds. is_digit c \<Longrightarrow>
   List.find (\<lambda>c. c = CHR ''.'' \<or> c = CHR '':'') (ds @ CHR ''.'' # r) = Some CHR ''.''"
  by (induction ds) auto

lemma parse_ip_v4_string:
  assumes "length p = 4"
  shows "parse_ip (v4_string p) = v4_in_v6_prefix @ p"
proof -
  from assms obtain a b c d where p: "p = [a, b, c, d]" by (elim length4E)
  then have "List.find (\<lambda>c. c = CHR ''.'' \<or> c = CHR '':'') (v4_string p) = Some CHR ''.''"
    by (simp add: v4_string_def find_digits_dot itoa_nat_digits)
  with parse_ipv4_v4_string [OF assms] show ?thesis by (simp add: parse_ip_def)
qed

lemma ip_string_v4: "to4 ip \<noteq> [] \<Longrightarrow> ip_string ip = v4_string (to4 ip)"
  by (auto simp: ip_string_def to4_length)

lemma parse_ip_ip_string:
  "to4 ip \<noteq> [] \<Longrightarrow> parse_ip (ip_string ip) = v4_in_v6_prefix @ to4 ip"
  by (simp add: ip_string_v4 parse_ip_v4_string to4_length)

lemma ip_string_v4_inj:
  assumes "to4 x \<noteq> []" and "to4 y \<noteq> []"
  shows "ip_string x = ip_string y \<longleftrightarrow> to4 x = to4 y"
  using parse_ip_ip_string [OF assms(1)] parse_ip_ip_string [OF assms(2)] assms
  by (metis ip_string_v4 same_append_eq)

lemma v4_string_chars:
  "length p = 4 \<Longrightarrow> c \<in> set (v4_string p) \<Longrightarrow> is_digit c \<or> c = CHR ''.''"
  by (erule length4E) (auto simp: v4_string_def dest: itoa_nat_digits)

lemma v4_string_nonempty [simp]: "length p = 4 \<Longrightarrow> v4_string p \<noteq> []"
  by (erule length4E) (simp add: v4_string_def)

section \<open>CIDR texts\<close>

definition cidr_text :: "ip \<Rightarrow> nat \<Rightarrow> string" where
  "cidr_text p n = v4_string p @ CHR ''/'' # itoa_nat n"

lemma takeWhile_slash:
  assumes "length p = 4"
  shows "takeWhile (\<lambda>c. c \<noteq> CHR ''/'') (v4_string p @ CHR ''/'' # r) = v4_string p"
    and "dropWhile (\<lambda>c. c \<noteq> CHR ''/'') (v4_string p @ CHR ''/'' # r) = CHR ''/'' # r"
proof -
  have "\<forall>c \<in> set (v4_string p). c \<noteq> CHR ''/''"
    using v4_string_chars [OF assms] by fastforce
  then show "takeWhile (\<lambda>c. c \<noteq> CHR ''/'') (v4_string p @ CHR ''/'' # r) = v4_string p"
    and "dropWhile (\<lambda>c. c \<noteq> CHR ''/'') (v4_string p @ CHR ''/'' # r) = CHR ''/'' # r"
    by (auto simp: takeWhile_append dropWhile_append)
qed

lemma go_parse_cidr_text:
  assumes "length p = 4" and "n \<le> 32"
  shows "go_parse_cidr (cidr_text p n) = Some (v4_in_v6_prefix @ p,
    \<lparr>net_ip = ip_mask (v4_in_v6_prefix @ p) (cidr_mask n 4), net_mask = cidr_mask n 4\<rparr>)"
proof -
  have "dtoi (itoa_nat n) = Some (n, [])"
    using dtoi_itoa_nat [of n "[]"] assms(2) by (simp add: parse_big_def)
  with assms show ?thesis
    by (simp add: go_parse_cidr_def cidr_text_def takeWhile_slash parse_ipv4_v4_string Let_def)
qed

end
