(* ===== verification/Ipcidr.thy ===== *)
theory Ipcidr
  imports Gonet
begin

text \<open>
  \<open>pkg/ipam/ip/cidr.go\<close> (address arithmetic) and the CIDR type of
  \<open>pkg/ipam/types/types.go\<close>.  A Go \<open>big.Int\<close> is an \<open>int\<close>; \<open>Bytes\<close> writes the
  absolute value without leading zero bytes, so an address below 1.0.0.0 loses bytes.
\<close>

section \<open>cidr.go\<close>

definition ip_to_int :: "ip \<Rightarrow> int" where
  "ip_to_int ip = (if to4 ip \<noteq> [] then int (set_bytes (to4 ip)) else int (set_bytes (to16 ip)))"

definition int_to_ip :: "int \<Rightarrow> ip" where
  "int_to_ip i = nat_bytes (nat \<bar>i\<bar>)"

definition next_ip :: "ip \<Rightarrow> ip" where
  "next_ip ip = int_to_ip (ip_to_int ip + 1)"

definition prev_ip :: "ip \<Rightarrow> ip" where
  "prev_ip ip = int_to_ip (ip_to_int ip - 1)"

definition network :: "ipnet \<Rightarrow> ipnet" where
  "network ipn = \<lparr>net_ip = ip_mask (net_ip ipn) (net_mask ipn), net_mask = net_mask ipn\<rparr>"

section \<open>types.go\<close>

text \<open>\<open>types.ParseCIDR\<close> keeps the host address where \<open>net.ParseCIDR\<close> has the network.\<close>

definition types_parse_cidr :: "string \<Rightarrow> ipnet option" where
  "types_parse_cidr s =
     (case go_parse_cidr s of None \<Rightarrow> None | Some (ip, ipn) \<Rightarrow> Some (ipn\<lparr>net_ip := ip\<rparr>))"

text \<open>\<open>net.IPNet.String\<close>, the text \<open>MarshalJSON\<close> encodes as a JSON string.\<close>

definition ipnet_string :: "ipnet \<Rightarrow> string" where
  "ipnet_string n =
     (let (nn, m) = network_number_and_mask n
      in if nn = [] \<or> m = [] then ''<nil>''
         else ip_string nn @ CHR ''/'' #
           (case simple_mask_length m of
              None \<Rightarrow> concat (map hex_byte m)
            | Some l \<Rightarrow> itoa_nat l))"

text \<open>\<open>IPNet.MarshalJSON\<close> and \<open>IPNet.UnmarshalJSON\<close> on the string inside the JSON value.\<close>

definition ipnet_marshal :: "ipnet \<Rightarrow> string" where
  "ipnet_marshal n = ipnet_string n"

definition ipnet_unmarshal :: "string \<Rightarrow> ipnet option" where
  "ipnet_unmarshal s = types_parse_cidr s"

record route =
  rt_dst :: ipnet
  rt_gw :: ip

record ipconfig =
  version :: string
  address :: ipnet
  gateway :: ip

section \<open>Numbers of IPv4 addresses\<close>

text \<open>The number of an IPv4 address in either of its two lengths.\<close>

definition v4_num :: "ip \<Rightarrow> nat" where
  "v4_num ip = set_bytes (to4 ip)"

lemma ip_to_int_v4: "to4 ip \<noteq> [] \<Longrightarrow> ip_to_int ip = int (v4_num ip)"
  by (simp add: ip_to_int_def v4_num_def)

lemma v4_num_less: "to4 ip \<noteq> [] \<Longrightarrow> v4_num ip < 2 ^ 32"
  using set_bytes_bound [of "to4 ip"] by (simp add: v4_num_def to4_length)

lemma v4_num_inj:
  "to4 x \<noteq> [] \<Longrightarrow> to4 y \<noteq> [] \<Longrightarrow> v4_num x = v4_num y \<longleftrightarrow> to4 x = to4 y"
  using set_bytes_inj [of "to4 x" "to4 y"] by (auto simp: v4_num_def to4_length)

lemma ip_equal_v4_num:
  "to4 x \<noteq> [] \<Longrightarrow> to4 y \<noteq> [] \<Longrightarrow> ip_equal x y \<longleftrightarrow> v4_num x = v4_num y"
  by (simp add: ip_equal_to4 v4_num_inj)

lemma int_to_ip_v4:
  assumes "2 ^ 24 \<le> n" and "n < 2 ^ 32"
  shows "length (int_to_ip (int n)) = 4" and "set_bytes (int_to_ip (int n)) = n"
  using length_nat_bytes [of 3 n] assms by (simp_all add: int_to_ip_def)

lemma next_ip_v4:
  assumes "to4 ip \<noteq> []" and "2 ^ 24 \<le> Suc (v4_num ip)" and "Suc (v4_num ip) < 2 ^ 32"
  shows "length (next_ip ip) = 4" and "v4_num (next_ip ip) = Suc (v4_num ip)"
proof -
  have eq: "next_ip ip = int_to_ip (int (Suc (v4_num ip)))"
    using assms(1) by (simp add: next_ip_def ip_to_int_v4 add.commute)
  show len: "length (next_ip ip) = 4"
    unfolding eq by (rule int_to_ip_v4 [OF assms(2,3)])
  show "v4_num (next_ip ip) = Suc (v4_num ip)"
    using int_to_ip_v4(2) [OF assms(2,3)] len by (simp add: v4_num_def eq)
qed

lemma to4_next_ip:
  assumes "to4 ip \<noteq> []" and "2 ^ 24 \<le> Suc (v4_num ip)" and "Suc (v4_num ip) < 2 ^ 32"
  shows "to4 (next_ip ip) = next_ip ip" and "next_ip ip \<noteq> []"
  using next_ip_v4(1) [OF assms] by auto

lemma prev_ip_v4:
  assumes "to4 ip \<noteq> []" and "v4_num ip = Suc k" and "2 ^ 24 \<le> k"
  shows "length (prev_ip ip) = 4" and "v4_num (prev_ip ip) = k"
proof -
  have bound: "k < 2 ^ 32"
    using v4_num_less [OF assms(1)] assms(2) by (simp only: Suc_lessD)
  have eq: "prev_ip ip = int_to_ip (int k)"
    using assms(1,2) by (simp add: prev_ip_def ip_to_int_v4)
  show len: "length (prev_ip ip) = 4"
    unfolding eq by (rule int_to_ip_v4 [OF assms(3) bound])
  show "v4_num (prev_ip ip) = k"
    using int_to_ip_v4(2) [OF assms(3) bound] len by (simp add: v4_num_def eq)
qed

lemma set_bytes_Cons: "set_bytes (b # bs) = unat b * 256 ^ length bs + set_bytes bs"
proof (induction bs rule: rev_induct)
  case Nil
  then show ?case by (simp add: set_bytes_def)
next
  case (snoc x bs)
  have "set_bytes (b # bs @ [x]) = set_bytes (b # bs) * 256 + unat x"
    using set_bytes_snoc [of "b # bs" x] by simp
  with snoc show ?case by (simp add: algebra_simps)
qed

text \<open>Byte-wise lexicographic order is the order of the numbers.\<close>

lemma set_bytes_Cons_less:
  assumes "length xs = length ys" and "x < (y :: byte)"
  shows "set_bytes (x # xs) < set_bytes (y # ys)"
proof -
  let ?B = "256 ^ length ys :: nat"
  from assms(2) have "Suc (unat x) \<le> unat y" by (simp add: word_less_nat_alt)
  then have "Suc (unat x) * ?B \<le> unat y * ?B" by (rule mult_le_mono1)
  moreover have "set_bytes xs < ?B" using set_bytes_bound [of xs] assms(1) by simp
  ultimately have "unat x * ?B + set_bytes xs < unat y * ?B" by simp
  then show ?thesis using assms(1) by (simp add: set_bytes_Cons trans_less_add1)
qed

end
