(* ===== verification/Memetcd.thy ===== *)
theory Memetcd
  imports Libkv
begin

text \<open>
  A small etcd server in memory that behaves as \<open>etcd_service\<close> asks: a list of entries, the last
  modification index, and a script that says which of the next requests fail with a timeout.  It is
  the service at which the witnesses of the properties are evaluated; no property is about it.
\<close>

record mem =
  mem_tree :: "(string list \<times> entry) list"
  mem_index :: nat
  mem_faults :: "bool list"

definition mem_fault :: "mem \<Rightarrow> bool \<times> mem" where
  "mem_fault s = (case mem_faults s of [] \<Rightarrow> (False, s) | f # fs \<Rightarrow> (f, s\<lparr>mem_faults := fs\<rparr>))"

definition mem_view :: "mem \<Rightarrow> tree" where
  "mem_view s = map_of (mem_tree s)"

definition ancestors :: "string list \<Rightarrow> string list list" where
  "ancestors p = map (\<lambda>n. take n p) [1..<length p]"

fun is_file :: "entry option \<Rightarrow> bool" where
  "is_file (Some (File v i)) = True"
| "is_file _ = False"

fun entry_index :: "entry \<Rightarrow> nat" where
  "entry_index (File v i) = i"
| "entry_index Directory = 0"

definition child_node :: "(string list \<times> entry) list \<Rightarrow> string list \<Rightarrow> enode" where
  "child_node al q =
     (case map_of al q of
        None \<Rightarrow> ENode (path_key q) [] 0 []
      | Some e \<Rightarrow> ENode (path_key q) (entry_value e) (entry_index e) [])"

definition children :: "(string list \<times> entry) list \<Rightarrow> string list \<Rightarrow> enode list" where
  "children al p =
     map (child_node al)
       (filter (\<lambda>q. q \<noteq> [] \<and> butlast q = p \<and> visible_name (last q)) (remdups (map fst al)))"

definition mem_get :: "mem \<Rightarrow> string \<Rightarrow> get_options \<Rightarrow> (go_error + enode) \<times> mem" where
  "mem_get s k opt =
     (let (f, s1) = mem_fault s; p = keypath k
      in if f then (Inl (OtherError ''timeout''), s1)
         else case map_of (mem_tree s) p of
                Some (File v i) \<Rightarrow> (Inr (ENode (path_key p) v i []), s1)
              | Some Directory \<Rightarrow> (Inr (ENode (path_key p) [] 0 (children (mem_tree s) p)), s1)
              | None \<Rightarrow> (Inl (EtcdError code_key_not_found), s1))"

definition add_dirs :: "string list list \<Rightarrow> (string list \<times> entry) list \<Rightarrow> (string list \<times> entry) list" where
  "add_dirs as al = fold (\<lambda>a al. if map_of al a = None then AList.update a Directory al else al) as al"

definition next_index :: "mem \<Rightarrow> nat" where
  "next_index s = Suc (fold (\<lambda>(q, e) m. max (entry_index e) m) (mem_tree s) (mem_index s))"

definition mem_set :: "mem \<Rightarrow> string \<Rightarrow> string \<Rightarrow> set_options \<Rightarrow> (go_error + enode) \<times> mem" where
  "mem_set s k v opts =
     (let (f, s1) = mem_fault s; p = keypath k; old = map_of (mem_tree s) p; i = next_index s
      in if f then (Inl (OtherError ''timeout''), s1)
         else if \<exists>a \<in> set (ancestors p). is_file (map_of (mem_tree s) a) then
           (Inl (EtcdError code_not_dir), s1)
         else if old = Some Directory then (Inl (EtcdError code_not_file), s1)
         else if set_prev_exist opts = PrevExist \<and> old = None then
           (Inl (EtcdError code_key_not_found), s1)
         else if set_prev_exist opts = PrevNoExist \<and> old \<noteq> None then
           (Inl (EtcdError code_node_exist), s1)
         else if \<not> prev_ok opts old then (Inl (EtcdError code_test_failed), s1)
         else (Inr (ENode (path_key p) v i []),
               s1\<lparr>mem_tree := AList.update p (new_entry opts v i)
                                (add_dirs (ancestors p) (mem_tree s)),
                  mem_index := i\<rparr>))"

definition mem_delete :: "mem \<Rightarrow> string \<Rightarrow> (go_error + enode) \<times> mem" where
  "mem_delete s k =
     (let (f, s1) = mem_fault s; p = keypath k
      in if f then (Inl (OtherError ''timeout''), s1)
         else case map_of (mem_tree s) p of
                None \<Rightarrow> (Inl (EtcdError code_key_not_found), s1)
              | Some Directory \<Rightarrow> (Inl (EtcdError code_not_file), s1)
              | Some (File v i) \<Rightarrow>
                  (Inr (ENode (path_key p) [] i []),
                   s1\<lparr>mem_tree := AList.delete p (mem_tree s), mem_index := Suc (mem_index s)\<rparr>))"

definition mem_api :: "mem keys_api" where
  "mem_api = \<lparr>api_get = mem_get, api_set = mem_set, api_delete = mem_delete\<rparr>"

section \<open>The server keeps the contract\<close>

lemma mem_fault_tree [simp]: "mem_fault s = (f, s1) \<Longrightarrow> mem_tree s1 = mem_tree s"
  by (auto simp: mem_fault_def split: list.splits)

lemma set_ancestors: "a \<in> set (ancestors p) \<Longrightarrow> strict_prefix a p"
  by (auto simp: ancestors_def strict_prefix_def take_is_prefix)

lemma map_of_add_dirs:
  "map_of (add_dirs as al) q = (if map_of al q = None \<and> q \<in> set as then Some Directory else map_of al q)"
proof (induction as arbitrary: al)
  case Nil
  then show ?case by (simp add: add_dirs_def)
next
  case (Cons a as)
  have "add_dirs (a # as) al
      = add_dirs as (if map_of al a = None then AList.update a Directory al else al)"
    by (simp add: add_dirs_def)
  with Cons.IH show ?case by auto
qed

lemma fold_max_bound:
  "m \<le> fold (\<lambda>(q, e) m. max (entry_index e) m) al m \<and>
   (\<forall>(q, e) \<in> set al. entry_index e \<le> fold (\<lambda>(q, e) m. max (entry_index e) m) al m)"
proof (induction al arbitrary: m)
  case Nil
  then show ?case by simp
next
  case (Cons x al)
  obtain q e where x: "x = (q, e)" by (cases x)
  from Cons.IH [of "max (entry_index e) m"] show ?case by (auto simp: x)
qed

lemma next_index_fresh: "map_of (mem_tree s) q = Some (File v i) \<Longrightarrow> i < next_index s"
  using fold_max_bound [of "mem_index s" "mem_tree s"]
  by (force simp: next_index_def less_Suc_eq_le dest: map_of_SomeD)

lemma next_index_pos [simp]: "0 < next_index s"
  by (simp add: next_index_def)

lemma inj_path_key_child:
  "butlast q = p \<Longrightarrow> butlast r = p \<Longrightarrow> q \<noteq> [] \<Longrightarrow> r \<noteq> [] \<Longrightarrow> path_key q = path_key r \<Longrightarrow> q = r"
  by (cases q rule: rev_cases; cases r rule: rev_cases) (auto simp: plain_path_key)

lemma node_key_child [simp]: "node_key (child_node al q) = path_key q"
  by (simp add: child_node_def split: option.splits)

lemma lists_children_mem: "lists_children (map_of al) p (children al p)"
proof -
  let ?qs = "filter (\<lambda>q. q \<noteq> [] \<and> butlast q = p \<and> visible_name (last q)) (remdups (map fst al))"
  have "inj_on path_key (set ?qs)"
    using inj_path_key_child by (fastforce intro: inj_onI)
  then have "distinct (map path_key ?qs)"
    by (simp add: distinct_map)
  then have d: "distinct (map node_key (children al p))"
    by (simp add: children_def comp_def)
  have c: "\<exists>c e. visible_name c \<and> node_key m = path_key (p @ [c]) \<and>
        map_of al (p @ [c]) = Some e \<and> node_value m = entry_value e"
    if m: "m \<in> set (children al p)" for m
  proof -
    from m obtain q where q: "q \<in> set ?qs" "m = child_node al q"
      by (auto simp: children_def)
    then obtain c where c: "q = p @ [c]" "visible_name c"
      by (cases q rule: rev_cases) auto
    from q obtain e where "map_of al q = Some e"
      by (cases "map_of al q") (auto simp: map_of_eq_None_iff)
    with c q(2) show ?thesis by (auto simp: child_node_def)
  qed
  have l: "\<exists>m \<in> set (children al p). node_key m = path_key (p @ [c])"
    if "visible_name c" "map_of al (p @ [c]) = Some e" for c e
  proof -
    from that have "p @ [c] \<in> set ?qs"
      by (auto simp: image_iff dest!: map_of_SomeD) (metis fst_conv)
    then have "child_node al (p @ [c]) \<in> set (children al p)"
      unfolding children_def set_map by (rule imageI)
    then show ?thesis by (intro bexI) (rule node_key_child)
  qed
  from d c l show ?thesis by (auto simp: lists_children_def)
qed

lemma mem_set_at:
  "set_at (map_of al) p e (map_of (AList.update p e (add_dirs (ancestors p) al)))"
  by (auto simp: set_at_def map_of_add_dirs dest: set_ancestors)

interpretation mem: etcd_service mem_api mem_view
proof
  show "mem_view s' = mem_view s \<and> shows_node (mem_view s) (keypath k) n"
    if "api_get mem_api s k opt = (Inr n, s')" for s k opt n s'
    using that lists_children_mem [of "mem_tree s"]
    by (auto simp: mem_api_def mem_get_def mem_view_def shows_node_def Let_def
        split: prod.splits if_splits option.splits entry.splits)
  show "mem_view s' = mem_view s \<and> api_error e \<and> (key_not_found e \<longrightarrow> mem_view s (keypath k) = None)"
    if "api_get mem_api s k opt = (Inl e, s')" for s k opt e s'
    using that
    by (auto simp: mem_api_def mem_get_def mem_view_def api_error_def key_not_found_def Let_def
        split: prod.splits if_splits option.splits entry.splits)
  show "set_at (mem_view s) (keypath k) (new_entry opts v (node_modified n)) (mem_view s') \<and>
      prev_ok opts (mem_view s (keypath k)) \<and>
      fresh_index (mem_view s) (node_modified n)"
    if "api_set mem_api s k v opts = (Inr n, s')" for s k v opts n s'
    using that mem_set_at [of "mem_tree s" "keypath k"]
    by (auto simp: mem_api_def mem_set_def mem_view_def Let_def next_index_fresh fresh_index_def
        split: prod.splits if_splits)
  show "api_error e \<and> (mem_view s' = mem_view s \<or>
       (\<exists>i. set_at (mem_view s) (keypath k) (new_entry opts v i) (mem_view s') \<and>
          prev_ok opts (mem_view s (keypath k)) \<and> fresh_index (mem_view s) i))"
    if "api_set mem_api s k v opts = (Inl e, s')" for s k v opts e s'
    using that
    by (auto simp: mem_api_def mem_set_def mem_view_def api_error_def Let_def
        split: prod.splits if_splits)
  show "mem_view s (keypath k) \<noteq> None \<and> mem_view s' = (mem_view s)(keypath k := None)"
    if "api_delete mem_api s k = (Inr n, s')" for s k n s'
    using that
    by (auto simp: mem_api_def mem_delete_def mem_view_def Let_def
        split: prod.splits if_splits option.splits entry.splits)
  show "api_error e \<and>
      (mem_view s' = mem_view s \<or> (\<exists>m. e = OtherError m) \<and> mem_view s' = (mem_view s)(keypath k := None)) \<and>
      (key_not_found e \<longrightarrow> mem_view s (keypath k) = None \<or> mem_view s (keypath k) = Some Directory)"
    if "api_delete mem_api s k = (Inl e, s')" for s k e s'
    using that
    by (auto simp: mem_api_def mem_delete_def mem_view_def api_error_def key_not_found_def Let_def
        split: prod.splits if_splits option.splits entry.splits)
qed

end
