(* ===== verification/Backend.thy ===== *)
theory Backend
  imports Kvstore Ipcidr Memetcd
begin

text \<open>
  The storage interface of the address allocator, \<open>pkg/ipam/backend/store.go\<close>, and its etcd
  implementation, \<open>pkg/ipam/backend/etcd/backend.go\<close>.  The locale \<open>reserving_store\<close> is the
  contract of the interface, in terms of the addresses on lease; \<open>etcd_store\<close> meets it over every
  etcd service that behaves as documented.
\<close>

section \<open>store.go\<close>

record 's backend_store =
  bs_lock :: "'s \<Rightarrow> (go_error + unit) \<times> 's"
  bs_unlock :: "'s \<Rightarrow> (go_error + unit) \<times> 's"
  bs_close :: "'s \<Rightarrow> (go_error + unit) \<times> 's"
  bs_reserve :: "'s \<Rightarrow> string \<Rightarrow> ip \<Rightarrow> (go_error + bool) \<times> 's"
  bs_last_reserved_ip :: "'s \<Rightarrow> (go_error + ip) \<times> 's"
  bs_release :: "'s \<Rightarrow> ip \<Rightarrow> (go_error + unit) \<times> 's"
  bs_release_by_id :: "'s \<Rightarrow> string \<Rightarrow> (go_error + unit) \<times> 's"
  bs_exist :: "'s \<Rightarrow> string \<Rightarrow> (go_error + ip) \<times> 's"
  bs_recover :: "'s \<Rightarrow> (go_error + (string \<times> string) list) \<times> 's"

section \<open>backend.go\<close>

definition last_ip_file :: string where
  "last_ip_file = ''last_reserved_ip''"

definition etcd_new :: "'s kv_store \<Rightarrow> 's \<Rightarrow> string \<Rightarrow> string \<Rightarrow> (go_error + string) \<times> 's" where
  "etcd_new kv s nw data_dir =
     (case kv_is_exist kv s data_dir nw of
        (Inl e, s1) \<Rightarrow> (Inl e, s1)
      | (Inr found, s1) \<Rightarrow>
          (if found then (Inr (data_dir @ nw @ ''/''), s1)
           else case kv_write_dir kv s1 data_dir nw of
                  (Inl e, s2) \<Rightarrow> (Inl e, s2)
                | (Inr _, s2) \<Rightarrow> (Inr (data_dir @ nw @ ''/''), s2)))"

definition es_reserve :: "'s kv_store \<Rightarrow> string \<Rightarrow> 's \<Rightarrow> string \<Rightarrow> ip \<Rightarrow> (go_error + bool) \<times> 's" where
  "es_reserve kv item s uid ip =
     (case kv_is_exist kv s item (ip_string ip) of
        (Inl e, s1) \<Rightarrow> (Inl e, s1)
      | (Inr found, s1) \<Rightarrow>
          (if found then (Inr False, s1)
           else case kv_write kv s1 item (ip_string ip) uid of
                  (Inl e, s2) \<Rightarrow> (Inl e, s2)
                | (Inr _, s2) \<Rightarrow>
                    (case kv_write kv s2 item last_ip_file (ip_string ip) of
                       (Inl e, s3) \<Rightarrow> (Inl e, s3)
                     | (Inr _, s3) \<Rightarrow> (Inr True, s3))))"

definition es_last_reserved_ip :: "'s kv_store \<Rightarrow> string \<Rightarrow> 's \<Rightarrow> (go_error + ip) \<times> 's" where
  "es_last_reserved_ip kv item s =
     (case kv_read kv s item last_ip_file of
        (Inl e, s1) \<Rightarrow> (Inl e, s1)
      | (Inr v, s1) \<Rightarrow> (Inr (parse_ip v), s1))"

definition es_release :: "'s kv_store \<Rightarrow> string \<Rightarrow> 's \<Rightarrow> ip \<Rightarrow> (go_error + unit) \<times> 's" where
  "es_release kv item s ip = kv_delete kv s item (ip_string ip)"

definition es_exist :: "'s kv_store \<Rightarrow> string \<Rightarrow> 's \<Rightarrow> string \<Rightarrow> (go_error + ip) \<times> 's" where
  "es_exist kv item s uid =
     (case kv_exist kv s item uid of
        (Inl e, s1) \<Rightarrow> (Inl e, s1)
      | (Inr key, s1) \<Rightarrow> (Inr (if key \<noteq> [] then parse_ip key else []), s1))"

definition es_release_by_id :: "'s kv_store \<Rightarrow> string \<Rightarrow> 's \<Rightarrow> string \<Rightarrow> (go_error + unit) \<times> 's" where
  "es_release_by_id kv item s uid =
     (case es_exist kv item s uid of
        (Inl e, s1) \<Rightarrow> (Inl e, s1)
      | (Inr ip, s1) \<Rightarrow> (if ip \<noteq> [] then es_release kv item s1 ip else (Inr (), s1)))"

text \<open>The Go map that \<open>Recover\<close> fills, as an association list.\<close>

fun recover_map :: "kvpair list \<Rightarrow> (string \<times> string) list \<Rightarrow> (string \<times> string) list" where
  "recover_map [] m = m"
| "recover_map (it # its) m =
     (if kv_key it = last_ip_file then recover_map its m
      else recover_map its (AList.update (kv_value it) (kv_key it) m))"

definition es_recover :: "'s kv_store \<Rightarrow> string \<Rightarrow> 's \<Rightarrow> (go_error + (string \<times> string) list) \<times> 's" where
  "es_recover kv item s =
     (case kv_list kv s item of
        (Inl e, s1) \<Rightarrow> (Inl e, s1)
      | (Inr l, s1) \<Rightarrow> (Inr (recover_map l []), s1))"

definition etcd_store :: "'s kv_store \<Rightarrow> string \<Rightarrow> 's backend_store" where
  "etcd_store kv item =
     \<lparr>bs_lock = (\<lambda>s. (Inr (), s)),
      bs_unlock = (\<lambda>s. (Inr (), s)),
      bs_close = (\<lambda>s. (Inr (), s)),
      bs_reserve = es_reserve kv item,
      bs_last_reserved_ip = es_last_reserved_ip kv item,
      bs_release = es_release kv item,
      bs_release_by_id = es_release_by_id kv item,
      bs_exist = es_exist kv item,
      bs_recover = es_recover kv item\<rparr>"

section \<open>The contract of the interface\<close>

text \<open>An address can be a key of the store when its text is a visible name other than the one of the
  record of the last address.\<close>

definition storable :: "ip \<Rightarrow> bool" where
  "storable ip \<longleftrightarrow> visible_name (ip_string ip) \<and> ip_string ip \<noteq> last_ip_file"

lemma storable_v4: "to4 ip \<noteq> [] \<Longrightarrow> storable ip"
proof -
  assume v4: "to4 ip \<noteq> []"
  then have len: "length (to4 ip) = 4" by (rule to4_length)
  have chars: "is_digit c \<or> c = CHR ''.''" if "c \<in> set (ip_string ip)" for c
    using that v4_string_chars [OF len] v4 by (simp add: ip_string_v4)
  have ne: "ip_string ip \<noteq> []" using v4 len by (simp add: ip_string_v4)
  have hd: "is_digit (hd (ip_string ip))"
  proof -
    from len obtain a b c d where p: "to4 ip = [a, b, c, d]" by (rule length4E)
    have "is_digit (hd (itoa_nat (unat a)))" by (rule itoa_nat_digits [of _ "unat a"]) simp
    then show ?thesis using v4 by (simp add: ip_string_v4 p v4_string_def)
  qed
  have "CHR ''/'' \<notin> set (ip_string ip)"
    using chars [of "CHR ''/''"] by auto
  moreover have "hd (ip_string ip) \<noteq> CHR ''_''" "hd (ip_string ip) \<noteq> CHR ''l''"
    "hd (ip_string ip) \<noteq> CHR ''.''"
    using hd by (auto simp: is_digit_def)
  ultimately show "storable ip"
    using ne by (auto simp: storable_def visible_name_def plain_name_def last_ip_file_def)
qed

text \<open>
  \<open>leases s\<close> maps the text of an address to the id that holds it, \<open>last s\<close> is the recorded text
  of the last address, \<open>ready s\<close> says that the directory of the network exists.  A call that fails
  has either done nothing or written no more than the call would have.
\<close>

locale reserving_store =
  fixes st :: "'s backend_store"
    and leases :: "'s \<Rightarrow> string \<Rightarrow> string option"
    and last_rec :: "'s \<Rightarrow> string option"
    and ready :: "'s \<Rightarrow> bool"
  assumes lock: "bs_lock st s = (r, s') \<Longrightarrow> s' = s"
    and unlock: "bs_unlock st s = (r, s') \<Longrightarrow> s' = s"
    and reserve_true: "ready s \<Longrightarrow> storable ip \<Longrightarrow> bs_reserve st s uid ip = (Inr True, s') \<Longrightarrow>
      leases s (ip_string ip) = None \<and> leases s' = (leases s)(ip_string ip \<mapsto> uid) \<and>
      last_rec s' = Some (ip_string ip) \<and> ready s'"
    and reserve_false: "ready s \<Longrightarrow> storable ip \<Longrightarrow> bs_reserve st s uid ip = (Inr False, s') \<Longrightarrow>
      leases s (ip_string ip) \<noteq> None \<and> leases s' = leases s \<and> last_rec s' = last_rec s \<and> ready s'"
    and reserve_err: "ready s \<Longrightarrow> storable ip \<Longrightarrow> bs_reserve st s uid ip = (Inl e, s') \<Longrightarrow>
      store_error e \<and> ready s' \<and> (last_rec s' = last_rec s \<or> last_rec s' = Some (ip_string ip)) \<and>
      (leases s' = leases s \<or>
       leases s (ip_string ip) = None \<and> leases s' = (leases s)(ip_string ip \<mapsto> uid))"
    and last_frame: "ready s \<Longrightarrow> bs_last_reserved_ip st s = (rl, s') \<Longrightarrow>
      leases s' = leases s \<and> last_rec s' = last_rec s \<and> ready s'"
    and last_ok: "ready s \<Longrightarrow> bs_last_reserved_ip st s = (Inr ip, s') \<Longrightarrow> last_rec s = Some v \<Longrightarrow>
      ip = parse_ip v"
    and exist_frame: "ready s \<Longrightarrow> bs_exist st s uid = (rx, s') \<Longrightarrow>
      leases s' = leases s \<and> last_rec s' = last_rec s \<and> ready s'"
    and exist_some: "ready s \<Longrightarrow> last_rec s \<noteq> Some uid \<Longrightarrow> bs_exist st s uid = (Inr ip, s') \<Longrightarrow>
      ip \<noteq> [] \<Longrightarrow> \<exists>k. leases s k = Some uid \<and> ip = parse_ip k"
    and exist_none: "ready s \<Longrightarrow> last_rec s \<noteq> Some uid \<Longrightarrow> bs_exist st s uid = (Inr [], s') \<Longrightarrow>
      (\<forall>k. leases s k \<noteq> Some uid) \<or> (\<exists>k. leases s k = Some uid \<and> parse_ip k = [])"
    and release_ok: "ready s \<Longrightarrow> storable ip \<Longrightarrow> bs_release st s ip = (Inr u, s') \<Longrightarrow>
      leases s (ip_string ip) \<noteq> None \<and> leases s' = (leases s)(ip_string ip := None) \<and>
      last_rec s' = last_rec s \<and> ready s'"
    and release_err: "ready s \<Longrightarrow> storable ip \<Longrightarrow> bs_release st s ip = (Inl e, s') \<Longrightarrow>
      (leases s' = leases s \<or> leases s' = (leases s)(ip_string ip := None)) \<and>
      last_rec s' = last_rec s \<and> ready s'"
    and release_by_id: "bs_release_by_id st s uid =
      (case bs_exist st s uid of
         (Inl e, s1) \<Rightarrow> (Inl e, s1)
       | (Inr ip, s1) \<Rightarrow> (if ip \<noteq> [] then bs_release st s1 ip else (Inr (), s1)))"

section \<open>The etcd store meets the contract\<close>

definition es_leases :: "'s kv_store \<Rightarrow> ('s \<Rightarrow> tree) \<Rightarrow> string \<Rightarrow> 's \<Rightarrow> string \<Rightarrow> string option" where
  "es_leases kv tree item s c =
     (if c = last_ip_file then None else dir_view (tree s) (item_path kv item) c)"

definition es_last :: "'s kv_store \<Rightarrow> ('s \<Rightarrow> tree) \<Rightarrow> string \<Rightarrow> 's \<Rightarrow> string option" where
  "es_last kv tree item s =
     (case tree s (item_path kv item @ [last_ip_file]) of Some (File v i) \<Rightarrow> Some v | _ \<Rightarrow> None)"

text \<open>The directory of the network is there, and nothing made a directory of the record of the last
  address.\<close>

definition es_ready :: "'s kv_store \<Rightarrow> ('s \<Rightarrow> tree) \<Rightarrow> string \<Rightarrow> 's \<Rightarrow> bool" where
  "es_ready kv tree item s \<longleftrightarrow>
     tree s (item_path kv item) = Some Directory \<and>
     tree s (item_path kv item @ [last_ip_file]) \<noteq> Some Directory"

lemma visible_last [simp]: "visible_name last_ip_file"
  by (simp add: last_ip_file_def visible_name_def plain_name_def)

lemma es_cong:
  "tree s' = tree s \<Longrightarrow> es_leases kv tree item s' = es_leases kv tree item s \<and>
     es_last kv tree item s' = es_last kv tree item s \<and> (es_ready kv tree item s' \<longleftrightarrow> es_ready kv tree item s)"
  by (auto simp: es_leases_def es_last_def es_ready_def)

lemma es_write_ip:
  assumes "set_at (tree s) (item_path kv item @ [ip_string ip]) (File uid i) (tree s')"
    and "storable ip" and "es_ready kv tree item s"
  shows "es_leases kv tree item s' = (es_leases kv tree item s)(ip_string ip \<mapsto> uid)"
    and "es_last kv tree item s' = es_last kv tree item s" and "es_ready kv tree item s'"
proof -
  let ?d = "item_path kv item"
  from assms(2,3) have v: "visible_name (ip_string ip)" and ne: "ip_string ip \<noteq> last_ip_file"
    and dir: "tree s ?d = Some Directory"
    by (simp_all add: storable_def es_ready_def)
  note D = dir_view_set_at [OF assms(1) v dir]
  have l: "tree s' (?d @ [last_ip_file]) = tree s (?d @ [last_ip_file])"
    by (rule set_at_sibling [OF assms(1) ne [symmetric]])
  show "es_leases kv tree item s' = (es_leases kv tree item s)(ip_string ip \<mapsto> uid)"
    using D(1) ne by (auto simp: es_leases_def fun_eq_iff)
  show "es_last kv tree item s' = es_last kv tree item s"
    by (simp add: es_last_def l)
  show "es_ready kv tree item s'"
    using D(2) assms(3) by (simp add: es_ready_def l)
qed

lemma es_write_last:
  assumes "set_at (tree s) (item_path kv item @ [last_ip_file]) (File v i) (tree s')"
    and "es_ready kv tree item s"
  shows "es_leases kv tree item s' = es_leases kv tree item s"
    and "es_last kv tree item s' = Some v" and "es_ready kv tree item s'"
proof -
  let ?d = "item_path kv item"
  from assms(2) have dir: "tree s ?d = Some Directory" by (simp add: es_ready_def)
  note D = dir_view_set_at [OF assms(1) visible_last dir]
  show "es_leases kv tree item s' = es_leases kv tree item s"
    using D(1) by (auto simp: es_leases_def fun_eq_iff)
  show "es_last kv tree item s' = Some v" "es_ready kv tree item s'"
    using D(2) set_at_same [OF assms(1)] by (simp_all add: es_last_def es_ready_def)
qed

lemma es_delete_ip:
  assumes "tree s' = (tree s)(item_path kv item @ [ip_string ip] := None)"
    and "storable ip" and "es_ready kv tree item s"
  shows "es_leases kv tree item s' = (es_leases kv tree item s)(ip_string ip := None)"
    and "es_last kv tree item s' = es_last kv tree item s" and "es_ready kv tree item s'"
proof -
  let ?d = "item_path kv item"
  from assms(2) have v: "visible_name (ip_string ip)" and ne: "ip_string ip \<noteq> last_ip_file"
    by (simp_all add: storable_def)
  have l: "tree s' (?d @ [last_ip_file]) = tree s (?d @ [last_ip_file])"
    using ne by (auto simp: assms(1))
  have "dir_view (tree s') ?d = (dir_view (tree s) ?d)(ip_string ip := None)"
    unfolding assms(1) by (rule dir_view_delete [OF v])
  then show "es_leases kv tree item s' = (es_leases kv tree item s)(ip_string ip := None)"
    using ne by (auto simp: es_leases_def fun_eq_iff)
  show "es_last kv tree item s' = es_last kv tree item s"
    by (simp add: es_last_def l)
  show "es_ready kv tree item s'"
    using assms(3) by (simp add: es_ready_def l assms(1))
qed

context kv_dir
begin

lemma es_exist_named:
  assumes "es_ready kv tree item s" and "es_exist kv item s uid = (Inr ip, s')"
  obtains key where "kv_exist kv s item uid = (Inr key, s')"
    and "ip = (if key \<noteq> [] then parse_ip key else [])"
  using assms(2) by (auto simp: es_exist_def split: prod.splits sum.splits)

lemma es_exist_Inr:
  assumes rdy: "es_ready kv tree item s" and last: "es_last kv tree item s \<noteq> Some uid"
    and ex: "es_exist kv item s uid = (Inr ip, s')"
  shows "ip \<noteq> [] \<Longrightarrow> \<exists>k. es_leases kv tree item s k = Some uid \<and> ip = parse_ip k"
    and "ip = [] \<Longrightarrow> (\<forall>k. es_leases kv tree item s k \<noteq> Some uid) \<or>
      (\<exists>k. es_leases kv tree item s k = Some uid \<and> parse_ip k = [])"
proof -
  let ?v = "dir_view (tree s) (item_path kv item)"
  from rdy have dir: "tree s (item_path kv item) = Some Directory" by (simp add: es_ready_def)
  obtain key where key: "kv_exist kv s item uid = (Inr key, s')"
    and ip: "ip = (if key \<noteq> [] then parse_ip key else [])"
    using rdy ex by (rule es_exist_named)
  have not_last: "?v last_ip_file \<noteq> Some uid"
    using last rdy by (auto simp: dir_view_def es_last_def es_ready_def split: option.splits entry.splits)
  have found: "es_leases kv tree item s key = Some uid" if "key \<noteq> []"
    using kv_exist_Inr(1) [OF key dir that] not_last by (auto simp: es_leases_def)
  show "\<exists>k. es_leases kv tree item s k = Some uid \<and> ip = parse_ip k" if "ip \<noteq> []"
    using that found ip by (auto split: if_splits)
  show "(\<forall>k. es_leases kv tree item s k \<noteq> Some uid) \<or>
      (\<exists>k. es_leases kv tree item s k = Some uid \<and> parse_ip k = [])" if "ip = []"
  proof (cases "key = []")
    case True
    then show ?thesis using kv_exist_Inr(2) [OF key dir] by (auto simp: es_leases_def)
  next
    case False
    then show ?thesis using found that ip by auto
  qed
qed

lemma es_reserve_cases:
  assumes rdy: "es_ready kv tree item s" and st: "storable ip"
    and res: "es_reserve kv item s uid ip = (r, s')"
  shows "r = Inr True \<Longrightarrow> es_leases kv tree item s (ip_string ip) = None \<and>
      es_leases kv tree item s' = (es_leases kv tree item s)(ip_string ip \<mapsto> uid) \<and>
      es_last kv tree item s' = Some (ip_string ip) \<and> es_ready kv tree item s'"
    and "r = Inr False \<Longrightarrow> es_leases kv tree item s (ip_string ip) \<noteq> None \<and>
      es_leases kv tree item s' = es_leases kv tree item s \<and>
      es_last kv tree item s' = es_last kv tree item s \<and> es_ready kv tree item s'"
    and "r = Inl e \<Longrightarrow> store_error e \<and> es_ready kv tree item s' \<and>
      (es_last kv tree item s' = es_last kv tree item s \<or> es_last kv tree item s' = Some (ip_string ip)) \<and>
      (es_leases kv tree item s' = es_leases kv tree item s \<or>
       es_leases kv tree item s (ip_string ip) = None \<and>
       es_leases kv tree item s' = (es_leases kv tree item s)(ip_string ip \<mapsto> uid))"
proof -
  from st have vis: "visible_name (ip_string ip)" and ne: "ip_string ip \<noteq> last_ip_file"
    by (simp_all add: storable_def)
  obtain r1 s1 where e1: "kv_is_exist kv s item (ip_string ip) = (r1, s1)" by fastforce
  obtain r2 s2 where e2: "kv_write kv s1 item (ip_string ip) uid = (r2, s2)" by fastforce
  obtain r3 s3 where e3: "kv_write kv s2 item last_ip_file (ip_string ip) = (r3, s3)" by fastforce
  have t1: "tree s1 = tree s"
    using e1 kv_is_exist_Inr(1) [OF vis] kv_is_exist_Inl [OF vis] by (cases r1) blast+
  have er1: "store_error e" if "r1 = Inl e" for e
    using e1 that kv_is_exist_Inl [OF vis, of s e s1] by simp
  have er2: "store_error e" if "r2 = Inl e" for e
    using e2 that kv_write_Inl [OF vis, of s1 uid e s2] by simp
  have er3: "store_error e" if "r3 = Inl e" for e
    using e3 that kv_write_Inl [OF visible_last, of s2 "ip_string ip" e s3] by simp
  note c1 = es_cong [OF t1, of kv item]
  have free: "es_leases kv tree item s (ip_string ip) = None" if "r1 = Inr False"
    using kv_is_exist_Inr(2) [OF vis, of s False s1] e1 that ne by (simp add: es_leases_def)
  have taken: "es_leases kv tree item s (ip_string ip) \<noteq> None" if "r1 = Inr True"
    using kv_is_exist_Inr(2) [OF vis, of s True s1] e1 that ne by (simp add: es_leases_def)
  note w_ip = es_write_ip [OF _ st, where tree = tree and s = s1 and s' = s2 and uid = uid]
  have s2: "es_ready kv tree item s2 \<and> es_last kv tree item s2 = es_last kv tree item s \<and>
      (es_leases kv tree item s2 = (es_leases kv tree item s)(ip_string ip \<mapsto> uid) \<or>
       (\<exists>e. r2 = Inl e) \<and> es_leases kv tree item s2 = es_leases kv tree item s)"
  proof (cases r2)
    case (Inr u)
    from kv_write_Inr [OF vis e2 [unfolded Inr]] obtain i
      where "set_at (tree s1) (item_path kv item @ [ip_string ip]) (File uid i) (tree s2)" by blast
    from w_ip [OF this] c1 rdy show ?thesis by simp
  next
    case (Inl e)
    from kv_write_Inl [OF vis e2 [unfolded Inl]] consider (same) "tree s2 = tree s1"
      | (set) i where "set_at (tree s1) (item_path kv item @ [ip_string ip]) (File uid i) (tree s2)" by blast
    then show ?thesis
    proof cases
      case same
      with es_cong [OF same, of kv item] c1 rdy Inl show ?thesis by simp
    next
      case set
      from w_ip [OF set] c1 rdy show ?thesis by simp
    qed
  qed
  have s3: "es_ready kv tree item s3 \<and> es_leases kv tree item s3 = es_leases kv tree item s2 \<and>
      (es_last kv tree item s3 = Some (ip_string ip) \<or>
       (\<exists>e. r3 = Inl e) \<and> es_last kv tree item s3 = es_last kv tree item s)"
  proof (cases r3)
    case (Inr u)
    from kv_write_Inr [OF visible_last e3 [unfolded Inr]] obtain i
      where "set_at (tree s2) (item_path kv item @ [last_ip_file]) (File (ip_string ip) i) (tree s3)" by blast
    from es_write_last [OF this] s2 show ?thesis by simp
  next
    case (Inl e)
    from kv_write_Inl [OF visible_last e3 [unfolded Inl]] consider (same) "tree s3 = tree s2"
      | (set) i where "set_at (tree s2) (item_path kv item @ [last_ip_file]) (File (ip_string ip) i) (tree s3)"
      by blast
    then show ?thesis
    proof cases
      case same
      with es_cong [OF same, of kv item] s2 Inl show ?thesis by simp
    next
      case set
      from es_write_last [OF set] s2 show ?thesis by simp
    qed
  qed
  note run = res [unfolded es_reserve_def e1 e2 e3]
  show "es_leases kv tree item s (ip_string ip) = None \<and>
      es_leases kv tree item s' = (es_leases kv tree item s)(ip_string ip \<mapsto> uid) \<and>
      es_last kv tree item s' = Some (ip_string ip) \<and> es_ready kv tree item s'" if "r = Inr True"
    using run that free s2 s3 e1 e2 e3 by (auto split: sum.splits if_splits)
  show "es_leases kv tree item s (ip_string ip) \<noteq> None \<and>
      es_leases kv tree item s' = es_leases kv tree item s \<and>
      es_last kv tree item s' = es_last kv tree item s \<and> es_ready kv tree item s'" if "r = Inr False"
    using run that taken c1 rdy e1 e2 e3 by (auto split: sum.splits if_splits)
  show "store_error e \<and> es_ready kv tree item s' \<and>
      (es_last kv tree item s' = es_last kv tree item s \<or> es_last kv tree item s' = Some (ip_string ip)) \<and>
      (es_leases kv tree item s' = es_leases kv tree item s \<or>
       es_leases kv tree item s (ip_string ip) = None \<and>
       es_leases kv tree item s' = (es_leases kv tree item s)(ip_string ip \<mapsto> uid))" if "r = Inl e"
    using run that free c1 rdy s2 s3 e1 e2 e3 er1 er2 er3 by (auto split: sum.splits if_splits)
qed

end

lemma etcd_store_simps [simp]:
  "bs_lock (etcd_store kv item) s = (Inr (), s)" "bs_unlock (etcd_store kv item) s = (Inr (), s)"
  "bs_close (etcd_store kv item) s = (Inr (), s)"
  "bs_reserve (etcd_store kv item) = es_reserve kv item"
  "bs_last_reserved_ip (etcd_store kv item) = es_last_reserved_ip kv item"
  "bs_release (etcd_store kv item) = es_release kv item"
  "bs_release_by_id (etcd_store kv item) = es_release_by_id kv item"
  "bs_exist (etcd_store kv item) = es_exist kv item"
  "bs_recover (etcd_store kv item) = es_recover kv item"
  by (simp_all add: etcd_store_def)

sublocale kv_dir \<subseteq> store: reserving_store "etcd_store kv item" "es_leases kv tree item"
  "es_last kv tree item" "es_ready kv tree item"
proof (unfold_locales, unfold etcd_store_simps)
  show "s' = s" if "(Inr (), s) = (r, s')" for s r s' using that by simp
  show "s' = s" if "(Inr (), s) = (r, s')" for s r s' using that by simp
next
  fix s uid ip s' e
  assume rdy: "es_ready kv tree item s" and st: "storable ip"
  note C = es_reserve_cases [OF rdy st]
  show "es_leases kv tree item s (ip_string ip) = None \<and>
      es_leases kv tree item s' = (es_leases kv tree item s)(ip_string ip \<mapsto> uid) \<and>
      es_last kv tree item s' = Some (ip_string ip) \<and> es_ready kv tree item s'"
    if "es_reserve kv item s uid ip = (Inr True, s')" using C(1) [OF that] by simp
  show "es_leases kv tree item s (ip_string ip) \<noteq> None \<and>
      es_leases kv tree item s' = es_leases kv tree item s \<and>
      es_last kv tree item s' = es_last kv tree item s \<and> es_ready kv tree item s'"
    if "es_reserve kv item s uid ip = (Inr False, s')" using C(2) [OF that] by simp
  show "store_error e \<and> es_ready kv tree item s' \<and>
      (es_last kv tree item s' = es_last kv tree item s \<or> es_last kv tree item s' = Some (ip_string ip)) \<and>
      (es_leases kv tree item s' = es_leases kv tree item s \<or>
       es_leases kv tree item s (ip_string ip) = None \<and>
       es_leases kv tree item s' = (es_leases kv tree item s)(ip_string ip \<mapsto> uid))"
    if "es_reserve kv item s uid ip = (Inl e, s')" using C(3) [OF that] by simp
next
  fix s ip s' and u :: unit and e
  assume rdy: "es_ready kv tree item s" and st: "storable ip"
  then have v: "visible_name (ip_string ip)" and ne: "ip_string ip \<noteq> last_ip_file"
    by (simp_all add: storable_def)
  note D = es_delete_ip [OF _ st rdy, where s' = s']
  show "es_leases kv tree item s (ip_string ip) \<noteq> None \<and>
      es_leases kv tree item s' = (es_leases kv tree item s)(ip_string ip := None) \<and>
      es_last kv tree item s' = es_last kv tree item s \<and> es_ready kv tree item s'"
    if "es_release kv item s ip = (Inr u, s')"
  proof -
    note del = kv_delete_Inr [OF v that [unfolded es_release_def]]
    from del(1) v ne have "es_leases kv tree item s (ip_string ip) \<noteq> None"
      by (auto simp: es_leases_def dir_view_def)
    with D [OF del(2)] show ?thesis by simp
  qed
  show "(es_leases kv tree item s' = es_leases kv tree item s \<or>
       es_leases kv tree item s' = (es_leases kv tree item s)(ip_string ip := None)) \<and>
      es_last kv tree item s' = es_last kv tree item s \<and> es_ready kv tree item s'"
    if "es_release kv item s ip = (Inl e, s')"
    using kv_delete_Inl [OF v that [unfolded es_release_def]] D es_cong [of tree s' s kv item] rdy by auto
next
  fix s rl s' ip v
  assume rdy: "es_ready kv tree item s"
  show "es_leases kv tree item s' = es_leases kv tree item s \<and>
      es_last kv tree item s' = es_last kv tree item s \<and> es_ready kv tree item s'"
    if "es_last_reserved_ip kv item s = (rl, s')"
  proof -
    from that obtain r where "kv_read kv s item last_ip_file = (r, s')"
      by (auto simp: es_last_reserved_ip_def split: prod.splits sum.splits)
    from es_cong [OF kv_read_tree [OF visible_last this], of kv item] rdy show ?thesis by simp
  qed
  show "ip = parse_ip v"
    if read: "es_last_reserved_ip kv item s = (Inr ip, s')" and last: "es_last kv tree item s = Some v"
  proof -
    from read obtain w where w: "kv_read kv s item last_ip_file = (Inr w, s')" "ip = parse_ip w"
      by (auto simp: es_last_reserved_ip_def split: prod.splits sum.splits)
    from last obtain i where "tree s (item_path kv item @ [last_ip_file]) = Some (File v i)"
      by (auto simp: es_last_def split: option.splits entry.splits)
    from kv_read_Inr [OF visible_last w(1) this] w(2) show ?thesis by simp
  qed
next
  fix s uid s' rx ip
  assume rdy: "es_ready kv tree item s"
  show "es_leases kv tree item s' = es_leases kv tree item s \<and>
      es_last kv tree item s' = es_last kv tree item s \<and> es_ready kv tree item s'"
    if "es_exist kv item s uid = (rx, s')"
  proof -
    from that obtain r where "kv_exist kv s item uid = (r, s')"
      by (auto simp: es_exist_def split: prod.splits sum.splits)
    from es_cong [OF kv_exist_tree [OF this], of kv item] rdy show ?thesis by simp
  qed
  show "\<exists>k. es_leases kv tree item s k = Some uid \<and> ip = parse_ip k"
    if "es_last kv tree item s \<noteq> Some uid" "es_exist kv item s uid = (Inr ip, s')" "ip \<noteq> []"
    using es_exist_Inr(1) [OF rdy that] .
  show "(\<forall>k. es_leases kv tree item s k \<noteq> Some uid) \<or>
      (\<exists>k. es_leases kv tree item s k = Some uid \<and> parse_ip k = [])"
    if "es_last kv tree item s \<noteq> Some uid" "es_exist kv item s uid = (Inr [], s')"
    using es_exist_Inr(2) [OF rdy that] by simp
next
  show "es_release_by_id kv item s uid =
      (case es_exist kv item s uid of
         (Inl e, s1) \<Rightarrow> (Inl e, s1)
       | (Inr ip, s1) \<Rightarrow> (if ip \<noteq> [] then es_release kv item s1 ip else (Inr (), s1)))" for s uid
    by (simp add: es_release_by_id_def)
qed

context kv_dir
begin

lemma reserving:
  "reserving_store (etcd_store kv item) (es_leases kv tree item) (es_last kv tree item)
     (es_ready kv tree item)"
  by (rule store.reserving_store_axioms)

end

text \<open>The in-memory server under the prefix and the network of an example configuration, with the
  given entries in the directory of the network and the given script of faults.\<close>

definition demo_kv :: "mem kv_store" where
  "demo_kv = \<lparr>kvs_api = mem_api, kvs_prefix = ''/lb/''\<rparr>"

definition demo_item :: string where
  "demo_item = ''ipam/vips/''"

definition demo_dir :: "string list" where
  "demo_dir = [''lb'', ''ipam'', ''vips'']"

definition demo_state :: "(string \<times> string) list \<Rightarrow> bool list \<Rightarrow> mem" where
  "demo_state es faults =
     \<lparr>mem_tree = [([''lb''], Directory), ([''lb'', ''ipam''], Directory), (demo_dir, Directory)] @
        map (\<lambda>(k, v). (demo_dir @ [k], File v 1)) es,
      mem_index = 1, mem_faults = faults\<rparr>"

lemma demo_item_ok: "item_ok demo_kv demo_item"
  by (simp add: item_ok_def demo_kv_def demo_item_def plain_key_def keypath_def plain_name_def)

interpretation demo: kv_dir demo_kv mem_view demo_item
proof (rule kv_dir.intro)
  show "etcd_service (kvs_api demo_kv) mem_view"
    by (simp add: demo_kv_def mem.etcd_service_axioms)
  show "kv_dir_axioms demo_kv demo_item"
    by (rule kv_dir_axioms.intro) (rule demo_item_ok)
qed

lemma demo_path: "item_path demo_kv demo_item = demo_dir"
  by (simp add: item_path_def demo_kv_def demo_item_def demo_dir_def keypath_def)

lemma demo_entry:
  "mem_view (demo_state es faults) (demo_dir @ [c]) = map_option (\<lambda>v. File v 1) (map_of es c)"
proof -
  have "map_of (map (\<lambda>(k, v). (demo_dir @ [k], File v 1)) es) (demo_dir @ [c])
      = map_option (\<lambda>v. File v 1) (map_of es c)"
    by (induction es) auto
  then show ?thesis by (simp add: mem_view_def demo_state_def demo_dir_def)
qed

lemma demo_leases:
  "es_leases demo_kv mem_view demo_item (demo_state es faults) c =
     (if visible_name c \<and> c \<noteq> last_ip_file then map_of es c else None)"
  by (simp add: es_leases_def dir_view_def demo_path demo_entry option.map_comp comp_def option.map_ident)

lemma demo_last: "es_last demo_kv mem_view demo_item (demo_state es faults) = map_of es last_ip_file"
  by (cases "map_of es last_ip_file") (simp_all add: es_last_def demo_path demo_entry)

lemma demo_ready: "es_ready demo_kv mem_view demo_item (demo_state es faults)"
  by (cases "map_of es last_ip_file")
    (simp_all add: es_ready_def demo_path demo_entry, simp_all add: mem_view_def demo_state_def demo_dir_def)

end
