(* ===== verification/Allocator.thy ===== *)
theory Allocator
  imports Backend
begin

text \<open>
  The address allocator, \<open>pkg/ipam/backend/allocator\<close> (\<open>config.go\<close>, \<open>allocator.go\<close>).
  The loop of \<open>Get\<close> walks a ring of addresses and has no bound in the code: it is a
  \<open>partial_function\<close>, and \<open>None\<close> is a call that does not return.
\<close>

section \<open>config.go\<close>

record ipam_config =
  ic_name :: string
  ic_range_start :: ip
  ic_range_end :: ip
  ic_subnet :: ipnet
  ic_gateway :: ip
  ic_routes :: "route list"

definition new_ipam_conf :: "string \<Rightarrow> ipnet \<Rightarrow> ipam_config" where
  "new_ipam_conf name cidr =
     \<lparr>ic_name = name, ic_range_start = [], ic_range_end = [], ic_subnet = cidr,
      ic_gateway = [], ic_routes = []\<rparr>"

definition convert_routes_to_current :: "route list \<Rightarrow> route list" where
  "convert_routes_to_current routes = map (\<lambda>r. \<lparr>rt_dst = rt_dst r, rt_gw = rt_gw r\<rparr>) routes"

section \<open>allocator.go\<close>

record 's ip_allocator =
  al_start :: ip
  al_end :: ip
  al_conf :: ipam_config
  al_store :: "'s backend_store"

definition canonicalize_ip :: "ip \<Rightarrow> go_error + ip" where
  "canonicalize_ip ip =
     (if to4 ip \<noteq> [] then Inr (to4 ip)
      else if to16 ip \<noteq> [] then Inr (to16 ip)
      else Inl (ProgError ''IP not v4 nor v6''))"

text \<open>The two byte loops of \<open>validateRangeIP\<close>: true when they return their error.\<close>

fun below_start :: "ip \<Rightarrow> ip \<Rightarrow> bool" where
  "below_start (x # xs) (y # ys) =
     (if x > y then False else if x < y then True else below_start xs ys)"
| "below_start _ _ = False"

fun above_end :: "ip \<Rightarrow> ip \<Rightarrow> bool" where
  "above_end (x # xs) (y # ys) =
     (if x < y then False else if x > y then True else above_end xs ys)"
| "above_end _ _ = False"

definition check_bound :: "(ip \<Rightarrow> ip \<Rightarrow> bool) \<Rightarrow> ip \<Rightarrow> ip \<Rightarrow> go_error option" where
  "check_bound outside ip bound =
     (if bound = [] then None
      else case canonicalize_ip bound of
             Inl e \<Rightarrow> Some e
           | Inr b \<Rightarrow>
               if length ip \<noteq> length b then Some (ProgError ''not same size IP address'')
               else if outside ip b then Some (ProgError ''outside of network'')
               else None)"

definition validate_range_ip :: "ip \<Rightarrow> ipnet \<Rightarrow> ip \<Rightarrow> ip \<Rightarrow> go_error option" where
  "validate_range_ip ip0 ipn start fin =
     (case canonicalize_ip ip0 of
        Inl e \<Rightarrow> Some e
      | Inr ip \<Rightarrow>
          if \<not> net_contains ipn ip then Some (ProgError ''not in network'')
          else case check_bound below_start ip start of
                 Some e \<Rightarrow> Some e
               | None \<Rightarrow> check_bound above_end ip fin)"

definition network_range :: "ipnet \<Rightarrow> go_error + (ip \<times> ip)" where
  "network_range ipn =
     (if net_ip ipn = [] then Inl (ProgError ''missing field subnet in IPAM configuration'')
      else case canonicalize_ip (net_ip ipn) of
             Inl e \<Rightarrow> Inl (ProgError ''IP not v4 nor v6'')
           | Inr ip \<Rightarrow>
               if length ip \<noteq> length (net_mask ipn) then
                 Inl (ProgError ''IPNet IP and Mask version mismatch'')
               else
                 let fin = map2 (\<lambda>b m. b OR NOT m) ip (net_mask ipn)
                 in Inr (net_ip ipn, if to4 ip \<noteq> [] then fin[3 := fin ! 3 - 1] else fin))"

definition new_ip_allocator :: "ipam_config \<Rightarrow> 's backend_store \<Rightarrow> go_error + 's ip_allocator" where
  "new_ip_allocator conf st =
     (let (ones, masklen) = mask_size (net_mask (ic_subnet conf))
      in if int ones > int masklen - 2 then Inl (ProgError ''Network too small to allocate from'')
         else case network_range (ic_subnet conf) of
                Inl e \<Rightarrow> Inl e
              | Inr (fst_ip, lst_ip) \<Rightarrow>
                  let nxt = next_ip fst_ip in
                  case (if ic_range_start conf = [] then None
                        else validate_range_ip (ic_range_start conf) (ic_subnet conf) [] []) of
                    Some e \<Rightarrow> Inl e
                  | None \<Rightarrow>
                      let start = (if ic_range_start conf = [] then nxt else ic_range_start conf) in
                      case (if ic_range_end conf = [] then None
                            else validate_range_ip (ic_range_end conf) (ic_subnet conf) start []) of
                        Some e \<Rightarrow> Inl e
                      | None \<Rightarrow>
                          Inr \<lparr>al_start = start,
                               al_end = (if ic_range_end conf = [] then lst_ip else ic_range_end conf),
                               al_conf = conf, al_store = st\<rparr>)"

definition alc_next_ip :: "'s ip_allocator \<Rightarrow> ip \<Rightarrow> ip" where
  "alc_next_ip a cur = (if ip_equal cur (al_end a) then al_start a else next_ip cur)"

definition get_search_range :: "'s ip_allocator \<Rightarrow> 's \<Rightarrow> (ip \<times> ip) \<times> 's" where
  "get_search_range a s =
     (case bs_last_reserved_ip (al_store a) s of
        (Inl e, s1) \<Rightarrow> ((al_start a, al_end a), s1)
      | (Inr lst, s1) \<Rightarrow>
          (if lst \<noteq> [] \<and> validate_range_ip lst (ic_subnet (al_conf a)) (al_start a) (al_end a) = None
           then ((alc_next_ip a lst, lst), s1)
           else ((al_start a, al_end a), s1)))"

partial_function (option) get_loop ::
  "'s ip_allocator \<Rightarrow> ip \<Rightarrow> string \<Rightarrow> ip \<Rightarrow> ip \<Rightarrow> 's \<Rightarrow> ((go_error + ip option) \<times> 's) option"
where
  "get_loop a gw uid cur fin s =
     (if gw \<noteq> [] \<and> ip_equal cur gw then get_loop a gw uid (alc_next_ip a cur) fin s
      else case bs_reserve (al_store a) s uid cur of
             (r, s1) \<Rightarrow>
               (case r of
                  Inl e \<Rightarrow> Some (Inl e, s1)
                | Inr reserved \<Rightarrow>
                    if reserved then Some (Inr (Some cur), s1)
                    else if ip_equal cur fin then Some (Inr None, s1)
                    else get_loop a gw uid (alc_next_ip a cur) fin s1))"

definition alc_config :: "'s ip_allocator \<Rightarrow> ip \<Rightarrow> ip \<Rightarrow> ipconfig \<times> route list" where
  "alc_config a gw ip =
     (\<lparr>version = ''4'', address = \<lparr>net_ip = ip, net_mask = net_mask (ic_subnet (al_conf a))\<rparr>,
       gateway = gw\<rparr>,
      convert_routes_to_current (ic_routes (al_conf a)))"

definition alc_gateway :: "'s ip_allocator \<Rightarrow> bool \<Rightarrow> ip" where
  "alc_gateway a nogw =
     (if ic_gateway (al_conf a) = [] \<and> \<not> nogw then next_ip (net_ip (ic_subnet (al_conf a)))
      else ic_gateway (al_conf a))"

text \<open>The two halves of \<open>Get\<close> after the lock: a requested address, and a search.\<close>

definition alc_get_requested ::
  "'s ip_allocator \<Rightarrow> ip \<Rightarrow> 's \<Rightarrow> string \<Rightarrow> ip \<Rightarrow> (go_error + (ipconfig \<times> route list)) \<times> 's" where
  "alc_get_requested a gw s uid requested =
     (if gw \<noteq> [] \<and> ip_equal gw requested then
        (Inl (ProgError ''requested IP must differ gateway IP''), s)
      else case validate_range_ip requested (ic_subnet (al_conf a)) (al_start a) (al_end a) of
             Some e \<Rightarrow> (Inl e, s)
           | None \<Rightarrow>
               (case bs_reserve (al_store a) s uid requested of
                  (Inl e, s1) \<Rightarrow> (Inl e, s1)
                | (Inr reserved, s1) \<Rightarrow>
                    (if reserved then (Inr (alc_config a gw requested), s1)
                     else (Inl (ProgError ''requested IP address is not available in network''), s1))))"

definition alc_get_search ::
  "'s ip_allocator \<Rightarrow> ip \<Rightarrow> 's \<Rightarrow> string \<Rightarrow> ((go_error + (ipconfig \<times> route list)) \<times> 's) option" where
  "alc_get_search a gw s uid =
     (let ((first, fin), s1) = get_search_range a s
      in case get_loop a gw uid first fin s1 of
           None \<Rightarrow> None
         | Some (Inl e, s2) \<Rightarrow> Some (Inl e, s2)
         | Some (Inr (Some ip), s2) \<Rightarrow> Some (Inr (alc_config a gw ip), s2)
         | Some (Inr None, s2) \<Rightarrow>
             Some (Inl (ProgError ''no IP addresses available in network''), s2))"

definition alc_get ::
  "'s ip_allocator \<Rightarrow> 's \<Rightarrow> string \<Rightarrow> ip \<Rightarrow> bool \<Rightarrow>
   ((go_error + (ipconfig \<times> route list)) \<times> 's) option" where
  "alc_get a s uid requested nogw =
     (let s0 = snd (bs_lock (al_store a) s); gw = alc_gateway a nogw
      in case (if requested \<noteq> [] then Some (alc_get_requested a gw s0 uid requested)
               else alc_get_search a gw s0 uid) of
           None \<Rightarrow> None
         | Some (r, s1) \<Rightarrow> Some (r, snd (bs_unlock (al_store a) s1)))"

definition alc_release :: "'s ip_allocator \<Rightarrow> 's \<Rightarrow> string \<Rightarrow> (go_error + unit) \<times> 's" where
  "alc_release a s uid =
     (let s0 = snd (bs_lock (al_store a) s); (r, s1) = bs_release_by_id (al_store a) s0 uid
      in (r, snd (bs_unlock (al_store a) s1)))"

definition alc_get_exist :: "'s ip_allocator \<Rightarrow> 's \<Rightarrow> string \<Rightarrow> (go_error + ip) \<times> 's" where
  "alc_get_exist a s uid =
     (let s0 = snd (bs_lock (al_store a) s); (r, s1) = bs_exist (al_store a) s0 uid
      in (r, snd (bs_unlock (al_store a) s1)))"

definition alc_recover :: "'s ip_allocator \<Rightarrow> 's \<Rightarrow> (go_error + (string \<times> string) list) \<times> 's" where
  "alc_recover a s =
     (let s0 = snd (bs_lock (al_store a) s); (r, s1) = bs_recover (al_store a) s0
      in (r, snd (bs_unlock (al_store a) s1)))"

section \<open>The range of an IPv4 allocator\<close>

text \<open>An allocator over IPv4 addresses: both ends are addresses, in order, and the first octet of the
  start is not zero (below 1.0.0.0 \<open>NextIP\<close> drops leading bytes).\<close>

definition al_ok :: "'s ip_allocator \<Rightarrow> bool" where
  "al_ok a \<longleftrightarrow> to4 (al_start a) \<noteq> [] \<and> to4 (al_end a) \<noteq> [] \<and>
     2 ^ 24 \<le> v4_num (al_start a) \<and> v4_num (al_start a) \<le> v4_num (al_end a)"

definition in_range :: "'s ip_allocator \<Rightarrow> ip \<Rightarrow> bool" where
  "in_range a ip \<longleftrightarrow> to4 ip \<noteq> [] \<and> v4_num (al_start a) \<le> v4_num ip \<and> v4_num ip \<le> v4_num (al_end a)"

text \<open>The text of the address with a given number, the key it has in the store.\<close>

definition addr_text :: "nat \<Rightarrow> string" where
  "addr_text n = v4_string (nat_bytes n)"

lemma ip_string_addr_text:
  assumes "to4 ip \<noteq> []" and "2 ^ 24 \<le> v4_num ip"
  shows "ip_string ip = addr_text (v4_num ip)"
proof -
  have "nat_bytes (v4_num ip) = to4 ip"
    using nat_bytes_set_bytes [of "to4 ip" 3] assms by (simp add: v4_num_def to4_length)
  with assms(1) show ?thesis by (simp add: addr_text_def ip_string_v4)
qed

lemma in_range_text: "al_ok a \<Longrightarrow> in_range a ip \<Longrightarrow> ip_string ip = addr_text (v4_num ip)"
  by (rule ip_string_addr_text) (auto simp: al_ok_def in_range_def)

lemma in_range_storable: "in_range a ip \<Longrightarrow> storable ip"
  by (rule storable_v4) (simp add: in_range_def)

lemma al_start_in_range: "al_ok a \<Longrightarrow> in_range a (al_start a)"
  by (simp add: al_ok_def in_range_def)

lemma al_end_in_range: "al_ok a \<Longrightarrow> in_range a (al_end a)"
  by (simp add: al_ok_def in_range_def)

text \<open>\<open>nextIP\<close> is the successor in the ring of the range.\<close>

lemma alc_next_ip_num:
  assumes ok: "al_ok a" and ip: "in_range a ip"
  shows "in_range a (alc_next_ip a ip)"
    and "v4_num (alc_next_ip a ip) =
      (if v4_num ip = v4_num (al_end a) then v4_num (al_start a) else Suc (v4_num ip))"
proof -
  from ok ip have v4: "to4 ip \<noteq> []" "to4 (al_end a) \<noteq> []" by (simp_all add: al_ok_def in_range_def)
  have eq: "ip_equal ip (al_end a) \<longleftrightarrow> v4_num ip = v4_num (al_end a)"
    using v4 by (rule ip_equal_v4_num)
  have "in_range a (alc_next_ip a ip) \<and> v4_num (alc_next_ip a ip) =
      (if v4_num ip = v4_num (al_end a) then v4_num (al_start a) else Suc (v4_num ip))"
  proof (cases "v4_num ip = v4_num (al_end a)")
    case True
    with eq ok show ?thesis by (simp add: alc_next_ip_def al_start_in_range)
  next
    case False
    with ip have lt: "Suc (v4_num ip) \<le> v4_num (al_end a)" by (simp add: in_range_def)
    have lo: "2 ^ 24 \<le> Suc (v4_num ip)"
      using ok ip unfolding al_ok_def in_range_def by linarith
    have hi: "Suc (v4_num ip) < 2 ^ 32"
      using lt v4_num_less [OF v4(2)] by (rule le_less_trans)
    note N = next_ip_v4 [OF v4(1) lo hi]
    from N(1) have "to4 (next_ip ip) \<noteq> []" by auto
    with False eq N lt ip show ?thesis by (auto simp: alc_next_ip_def in_range_def)
  qed
  then show "in_range a (alc_next_ip a ip)"
    and "v4_num (alc_next_ip a ip) =
      (if v4_num ip = v4_num (al_end a) then v4_num (al_start a) else Suc (v4_num ip))"
    by simp_all
qed

text \<open>The numbers from one address of the ring to another, in the order \<open>nextIP\<close> visits them.\<close>

definition ring_dist :: "'s ip_allocator \<Rightarrow> nat \<Rightarrow> nat \<Rightarrow> nat" where
  "ring_dist a x y =
     (if x \<le> y then y - x else Suc (v4_num (al_end a)) - x + (y - v4_num (al_start a)))"

definition ring_seg :: "'s ip_allocator \<Rightarrow> nat \<Rightarrow> nat \<Rightarrow> nat set" where
  "ring_seg a x y =
     (if x \<le> y then {x..y} else {x..v4_num (al_end a)} \<union> {v4_num (al_start a)..y})"

lemma ring_step:
  assumes "al_ok a" and "in_range a cur" and "in_range a fin" and "v4_num cur \<noteq> v4_num fin"
  shows "ring_dist a (v4_num (alc_next_ip a cur)) (v4_num fin) < ring_dist a (v4_num cur) (v4_num fin)"
    and "ring_seg a (v4_num cur) (v4_num fin)
      = insert (v4_num cur) (ring_seg a (v4_num (alc_next_ip a cur)) (v4_num fin))"
proof -
  note N = alc_next_ip_num(2) [OF assms(1,2)]
  have b: "v4_num (al_start a) \<le> v4_num cur" "v4_num cur \<le> v4_num (al_end a)"
    "v4_num (al_start a) \<le> v4_num fin" "v4_num fin \<le> v4_num (al_end a)"
    using assms(2,3) by (simp_all add: in_range_def)
  from N b assms(4)
  show "ring_dist a (v4_num (alc_next_ip a cur)) (v4_num fin) < ring_dist a (v4_num cur) (v4_num fin)"
    by (auto simp: ring_dist_def)
  from N b assms(4)
  show "ring_seg a (v4_num cur) (v4_num fin)
      = insert (v4_num cur) (ring_seg a (v4_num (alc_next_ip a cur)) (v4_num fin))"
    by (auto simp: ring_seg_def)
qed

text \<open>A walk from the successor of an address to the address itself sees the whole range.\<close>

lemma ring_seg_full:
  assumes "al_ok a" and "in_range a lst"
  shows "ring_seg a (v4_num (alc_next_ip a lst)) (v4_num lst)
    = {v4_num (al_start a)..v4_num (al_end a)}"
  using alc_next_ip_num(2) [OF assms] assms(2) by (auto simp: ring_seg_def in_range_def)

section \<open>The search of \<open>Get\<close>\<close>

text \<open>What a search over the ring from \<open>cur\<close> to \<open>fin\<close> promises of the leases before (\<open>L\<close>) and
  after (\<open>L'\<close>): the address found was free, is not the gateway, and every address visited before
  it is taken; without a find every address of the walk is taken and nothing changed; after an error
  at most one free address was written.\<close>

definition taken :: "ip \<Rightarrow> (string \<Rightarrow> string option) \<Rightarrow> nat \<Rightarrow> bool" where
  "taken gw L n \<longleftrightarrow> (gw \<noteq> [] \<and> v4_num gw = n) \<or> L (addr_text n) \<noteq> None"

fun search_post ::
  "'s ip_allocator \<Rightarrow> ip \<Rightarrow> string \<Rightarrow> ip \<Rightarrow> ip \<Rightarrow> (string \<Rightarrow> string option) \<Rightarrow>
   go_error + ip option \<Rightarrow> (string \<Rightarrow> string option) \<Rightarrow> bool" where
  "search_post a gw uid cur fin L (Inr (Some ip)) L' \<longleftrightarrow>
     in_range a ip \<and> \<not> taken gw L (v4_num ip) \<and> L' = L(addr_text (v4_num ip) \<mapsto> uid) \<and>
     (\<forall>n \<in> ring_seg a (v4_num cur) (v4_num ip). n \<noteq> v4_num ip \<longrightarrow> taken gw L n)"
| "search_post a gw uid cur fin L (Inr None) L' \<longleftrightarrow>
     L' = L \<and> (\<forall>n \<in> ring_seg a (v4_num cur) (v4_num fin). taken gw L n)"
| "search_post a gw uid cur fin L (Inl e) L' \<longleftrightarrow>
     store_error e \<and>
     (L' = L \<or> (\<exists>ip. in_range a ip \<and> \<not> taken gw L (v4_num ip) \<and>
        L' = L(addr_text (v4_num ip) \<mapsto> uid)))"

lemma search_post_step:
  assumes "al_ok a" and "in_range a cur" and "in_range a fin" and "v4_num cur \<noteq> v4_num fin"
    and "taken gw L (v4_num cur)"
    and "search_post a gw uid (alc_next_ip a cur) fin L r L'"
  shows "search_post a gw uid cur fin L r L'"
proof (cases r)
  case (Inl e)
  with assms(6) show ?thesis by simp
next
  case (Inr found)
  show ?thesis
  proof (cases found)
    case None
    with Inr assms(5,6) ring_step(2) [OF assms(1-4)] show ?thesis by simp
  next
    case (Some ip)
    with Inr assms(6) have ip: "in_range a ip" "\<not> taken gw L (v4_num ip)" by simp_all
    with assms(5) have "v4_num cur \<noteq> v4_num ip" by auto
    from ring_step(2) [OF assms(1,2) ip(1) this] Inr Some assms(5,6) show ?thesis by auto
  qed
qed

context reserving_store
begin

lemma get_loop_correct:
  assumes ok: "al_ok a" and st: "al_store a = st" and fin: "in_range a fin"
    and gw: "gw = [] \<or> to4 gw \<noteq> [] \<and> v4_num gw \<noteq> v4_num fin"
    and cur: "in_range a cur" and rdy: "ready s"
  shows "\<exists>r s'. get_loop a gw uid cur fin s = Some (r, s') \<and> ready s' \<and>
    search_post a gw uid cur fin (leases s) r (leases s') \<and>
    (last_rec s' = last_rec s \<or> (\<exists>ip. in_range a ip \<and> last_rec s' = Some (ip_string ip)))"
  using cur rdy
proof (induction "ring_dist a (v4_num cur) (v4_num fin)" arbitrary: cur s rule: less_induct)
  case less
  note cur = less.prems(1) and rdy = less.prems(2)
  have v4: "to4 cur \<noteq> []" "to4 fin \<noteq> []" using cur fin by (simp_all add: in_range_def)
  have key: "ip_string cur = addr_text (v4_num cur)" using ok cur by (rule in_range_text)
  have stb: "storable cur" using cur by (rule in_range_storable)
  have eq_fin: "ip_equal cur fin \<longleftrightarrow> v4_num cur = v4_num fin" using v4 by (rule ip_equal_v4_num)
  have eq_gw: "gw \<noteq> [] \<Longrightarrow> ip_equal cur gw \<longleftrightarrow> v4_num cur = v4_num gw"
    using gw v4(1) ip_equal_v4_num by blast
  have go: "?case" if tk: "taken gw (leases s) (v4_num cur)" and nf: "v4_num cur \<noteq> v4_num fin"
    and s1: "ready s1" "leases s1 = leases s" "last_rec s1 = last_rec s"
    and unf: "get_loop a gw uid cur fin s = get_loop a gw uid (alc_next_ip a cur) fin s1" for s1
  proof -
    from less.hyps [OF ring_step(1) [OF ok cur fin nf] alc_next_ip_num(1) [OF ok cur] s1(1)]
    obtain r s' where r: "get_loop a gw uid (alc_next_ip a cur) fin s1 = Some (r, s')" "ready s'"
      "search_post a gw uid (alc_next_ip a cur) fin (leases s) r (leases s')"
      "last_rec s' = last_rec s \<or> (\<exists>ip. in_range a ip \<and> last_rec s' = Some (ip_string ip))"
      using s1 by auto
    from search_post_step [OF ok cur fin nf tk r(3)] r unf show ?thesis by auto
  qed
  show ?case
  proof (cases "gw \<noteq> [] \<and> ip_equal cur gw")
    case True
    with eq_gw gw have "v4_num cur = v4_num gw" "v4_num cur \<noteq> v4_num fin" by auto
    with True show ?thesis
      by (intro go [of s]) (auto simp: taken_def rdy get_loop.simps [of a gw uid cur])
  next
    case notgw: False
    obtain r s1 where res: "bs_reserve st s uid cur = (r, s1)" by fastforce
    have run: "get_loop a gw uid cur fin s = (case r of Inl e \<Rightarrow> Some (Inl e, s1)
        | Inr reserved \<Rightarrow> if reserved then Some (Inr (Some cur), s1)
            else if ip_equal cur fin then Some (Inr None, s1)
            else get_loop a gw uid (alc_next_ip a cur) fin s1)"
      unfolding get_loop.simps [of a gw uid cur fin s] if_not_P [OF notgw] st res by simp
    consider (err) e where "r = Inl e" | (yes) "r = Inr True" | (no) "r = Inr False"
      by (metis sum.exhaust)
    then show ?thesis
    proof cases
      case err
      with run have "get_loop a gw uid cur fin s = Some (Inl e, s1)"
        by simp
      moreover have "\<not> taken gw (leases s) (v4_num cur) \<or> leases s1 = leases s"
        using reserve_err [OF rdy stb res [unfolded err]] notgw eq_gw by (auto simp: taken_def key)
      ultimately show ?thesis
        using reserve_err [OF rdy stb res [unfolded err]] cur by (auto simp: key)
    next
      case yes
      with run have "get_loop a gw uid cur fin s = Some (Inr (Some cur), s1)"
        by simp
      then show ?thesis
        using reserve_true [OF rdy stb res [unfolded yes]] cur notgw eq_gw
        by (auto simp: key taken_def ring_seg_def)
    next
      case no
      note R = reserve_false [OF rdy stb res [unfolded no]]
      from R have tk: "taken gw (leases s) (v4_num cur)" by (simp add: taken_def key)
      show ?thesis
      proof (cases "v4_num cur = v4_num fin")
        case True
        with no run eq_fin have "get_loop a gw uid cur fin s = Some (Inr None, s1)"
          by simp
        with R tk True show ?thesis by (auto simp: ring_seg_def)
      next
        case False
        with no run eq_fin
        have "get_loop a gw uid cur fin s = get_loop a gw uid (alc_next_ip a cur) fin s1"
          by simp
        with R tk False show ?thesis by (intro go [of s1]) auto
      qed
    qed
  qed
qed

end

section \<open>The checks of \<open>validateRangeIP\<close> on IPv4 addresses\<close>

lemma below_start_num:
  "length xs = length ys \<Longrightarrow> below_start xs ys \<longleftrightarrow> set_bytes xs < set_bytes ys"
proof (induction xs ys rule: list_induct2)
  case Nil
  then show ?case by simp
next
  case (Cons x xs y ys)
  consider "x < y" | "y < x" | "x = y" by fastforce
  then show ?case
    using Cons set_bytes_Cons_less [of xs ys x y] set_bytes_Cons_less [of ys xs y x]
    by cases (auto simp: set_bytes_Cons)
qed

lemma above_end_num:
  "length xs = length ys \<Longrightarrow> above_end xs ys \<longleftrightarrow> set_bytes ys < set_bytes xs"
proof (induction xs ys rule: list_induct2)
  case Nil
  then show ?case by simp
next
  case (Cons x xs y ys)
  consider "x < y" | "y < x" | "x = y" by fastforce
  then show ?case
    using Cons set_bytes_Cons_less [of xs ys x y] set_bytes_Cons_less [of ys xs y x]
    by cases (auto simp: set_bytes_Cons)
qed

lemma canonicalize_v4: "to4 ip \<noteq> [] \<Longrightarrow> canonicalize_ip ip = Inr (to4 ip)"
  by (simp add: canonicalize_ip_def)

lemma validate_range_v4:
  assumes "to4 ip \<noteq> []" and "to4 start \<noteq> []" and "to4 fin \<noteq> []"
  shows "validate_range_ip ip ipn start fin = None \<longleftrightarrow>
    net_contains ipn (to4 ip) \<and> v4_num start \<le> v4_num ip \<and> v4_num ip \<le> v4_num fin"
proof -
  have ne: "start \<noteq> []" "fin \<noteq> []" using assms by auto
  have len: "length (to4 ip) = length (to4 start)" "length (to4 ip) = length (to4 fin)"
    using assms by (simp_all add: to4_length)
  from ne len show ?thesis
    by (auto simp: validate_range_ip_def canonicalize_v4 assms check_bound_def
        below_start_num above_end_num v4_num_def not_less)
qed

lemma validate_range_Some_v4:
  assumes "validate_range_ip ip ipn start fin = None" and "to4 start \<noteq> []"
  shows "to4 ip \<noteq> []"
proof (rule ccontr)
  assume "\<not> to4 ip \<noteq> []"
  moreover from assms(1) obtain b where b: "canonicalize_ip ip = Inr b"
    by (auto simp: validate_range_ip_def split: sum.splits)
  ultimately have "length b = 16"
    by (auto simp: canonicalize_ip_def to16_def to4_def split: if_splits)
  moreover from assms b have "length b = length (to4 start)"
    by (auto simp: validate_range_ip_def check_bound_def canonicalize_v4 split: if_splits option.splits)
  ultimately show False using to4_length [OF assms(2)] by simp
qed

text \<open>What the allocator accepts as an address of its range lies in the range.\<close>

lemma validate_in_range:
  assumes "al_ok a"
    and "validate_range_ip ip (ic_subnet (al_conf a)) (al_start a) (al_end a) = None"
  shows "in_range a ip"
proof -
  from assms(1) have v4: "to4 (al_start a) \<noteq> []" "to4 (al_end a) \<noteq> []" by (simp_all add: al_ok_def)
  with assms(2) validate_range_Some_v4 have "to4 ip \<noteq> []" by blast
  with assms(2) v4 show ?thesis by (simp add: validate_range_v4 in_range_def)
qed

section \<open>\<open>Get\<close> as a whole\<close>

text \<open>The record of the last address is as before or names an address of the range.\<close>

definition last_post :: "'s ip_allocator \<Rightarrow> string option \<Rightarrow> string option \<Rightarrow> bool" where
  "last_post a lr lr' \<longleftrightarrow> lr' = lr \<or> (\<exists>ip. in_range a ip \<and> lr' = Some (ip_string ip))"

text \<open>
  The promise of \<open>Get\<close> in terms of the leases: a returned address is in the range, was free, is the
  requested one if there was a request, and is now on lease to the id, with every other lease as
  before; the answer that there is no address left is only given when every address of the range is
  on lease; a failure leaves at most a lease of one free address (the requested one, if there was a
  request) to the same id behind.
\<close>

definition no_address_left :: go_error where
  "no_address_left = ProgError ''no IP addresses available in network''"

fun get_post ::
  "'s ip_allocator \<Rightarrow> string \<Rightarrow> ip \<Rightarrow> (string \<Rightarrow> string option) \<Rightarrow>
   go_error + (ipconfig \<times> route list) \<Rightarrow> (string \<Rightarrow> string option) \<Rightarrow> bool" where
  "get_post a uid req L (Inr (cfg, rts)) L' \<longleftrightarrow>
     in_range a (net_ip (address cfg)) \<and> L (ip_string (net_ip (address cfg))) = None \<and>
     L' = L(ip_string (net_ip (address cfg)) \<mapsto> uid) \<and>
     (req \<noteq> [] \<longrightarrow> net_ip (address cfg) = req)"
| "get_post a uid req L (Inl e) L' \<longleftrightarrow>
     (e = no_address_left \<longrightarrow>
        L' = L \<and> (\<forall>n \<in> {v4_num (al_start a)..v4_num (al_end a)}. L (addr_text n) \<noteq> None)) \<and>
     (L' = L \<or> (\<exists>ip. in_range a ip \<and> L (ip_string ip) = None \<and> (req \<noteq> [] \<longrightarrow> ip = req) \<and>
        L' = L(ip_string ip \<mapsto> uid)))"

lemma taken_no_gateway: "taken [] L n \<longleftrightarrow> L (addr_text n) \<noteq> None"
  by (simp add: taken_def)

context reserving_store
begin

lemma get_search_range_ok:
  assumes ok: "al_ok a" and st: "al_store a = st" and rdy: "ready s"
    and run: "get_search_range a s = ((c, f), s1)"
  shows "in_range a c" and "in_range a f"
    and "ring_seg a (v4_num c) (v4_num f) = {v4_num (al_start a)..v4_num (al_end a)}"
    and "leases s1 = leases s" and "last_rec s1 = last_rec s" and "ready s1"
proof -
  obtain r s2 where l: "bs_last_reserved_ip st s = (r, s2)" by fastforce
  with run st have s1: "s1 = s2"
    by (auto simp: get_search_range_def split: sum.splits if_splits)
  from last_frame [OF rdy l] s1
  show "leases s1 = leases s" "last_rec s1 = last_rec s" "ready s1" by simp_all
  from run l st consider (full) "c = al_start a" "f = al_end a"
    | (from_last) lst where "c = alc_next_ip a lst" "f = lst"
        "validate_range_ip lst (ic_subnet (al_conf a)) (al_start a) (al_end a) = None"
    by (auto simp: get_search_range_def split: sum.splits if_splits)
  then have "in_range a c \<and> in_range a f \<and>
      ring_seg a (v4_num c) (v4_num f) = {v4_num (al_start a)..v4_num (al_end a)}"
  proof cases
    case full
    with ok show ?thesis
      by (simp add: al_start_in_range al_end_in_range ring_seg_def al_ok_def)
  next
    case from_last
    from validate_in_range [OF ok from_last(3)] have "in_range a lst" .
    with ok from_last show ?thesis by (simp add: alc_next_ip_num(1) ring_seg_full)
  qed
  then show "in_range a c" "in_range a f"
    "ring_seg a (v4_num c) (v4_num f) = {v4_num (al_start a)..v4_num (al_end a)}" by simp_all
qed

lemma alc_get_search_correct:
  assumes ok: "al_ok a" and st: "al_store a = st" and rdy: "ready s"
  shows "\<exists>r s'. alc_get_search a [] s uid = Some (r, s') \<and> ready s' \<and>
    get_post a uid [] (leases s) r (leases s') \<and> last_post a (last_rec s) (last_rec s')"
proof -
  obtain c f s1 where R: "get_search_range a s = ((c, f), s1)" by (metis prod.exhaust)
  note S = get_search_range_ok [OF ok st rdy R]
  from get_loop_correct [OF ok st S(2) disjI1 [OF refl] S(1,6), of uid]
  obtain r s' where L: "get_loop a [] uid c f s1 = Some (r, s')" "ready s'"
    "search_post a [] uid c f (leases s) r (leases s')" "last_post a (last_rec s) (last_rec s')"
    using S(4,5) by (auto simp: last_post_def)
  consider (err) e where "r = Inl e" | (found) ip where "r = Inr (Some ip)" | (none) "r = Inr None"
    by (metis not_Some_eq sum.exhaust)
  then show ?thesis
  proof cases
    case err
    with L R have "alc_get_search a [] s uid = Some (Inl e, s')"
      by (simp add: alc_get_search_def)
    moreover from err L(3) have "store_error e" by simp
    then have "e \<noteq> no_address_left" by (auto simp: store_error_def no_address_left_def)
    ultimately show ?thesis
      using err L ok by (auto simp: taken_no_gateway in_range_text)
  next
    case found
    with L R have "alc_get_search a [] s uid = Some (Inr (alc_config a [] ip), s')"
      by (simp add: alc_get_search_def)
    with found L ok show ?thesis
      by (auto simp: alc_config_def taken_no_gateway in_range_text)
  next
    case none
    with L R have "alc_get_search a [] s uid = Some (Inl no_address_left, s')"
      by (simp add: alc_get_search_def no_address_left_def)
    with none L S(3) show ?thesis by (auto simp: taken_no_gateway)
  qed
qed

lemma alc_get_requested_correct:
  assumes ok: "al_ok a" and st: "al_store a = st" and rdy: "ready s"
    and run: "alc_get_requested a [] s uid req = (r, s')" and req: "req \<noteq> []"
  shows "ready s' \<and> get_post a uid req (leases s) r (leases s') \<and>
    last_post a (last_rec s) (last_rec s')"
proof (cases "validate_range_ip req (ic_subnet (al_conf a)) (al_start a) (al_end a)")
  case (Some e)
  then have "e \<noteq> no_address_left"
    by (auto simp: validate_range_ip_def check_bound_def canonicalize_ip_def no_address_left_def
        split: if_splits option.splits sum.splits)
  with Some run rdy show ?thesis by (auto simp: alc_get_requested_def last_post_def)
next
  case None
  from validate_in_range [OF ok None] have rng: "in_range a req" .
  then have stb: "storable req" by (rule in_range_storable)
  obtain x s1 where res: "bs_reserve st s uid req = (x, s1)" by fastforce
  consider (err) e where "x = Inl e" | (yes) "x = Inr True" | (no) "x = Inr False"
    by (metis sum.exhaust)
  then show ?thesis
  proof cases
    case err
    note R = reserve_err [OF rdy stb res [unfolded err]]
    then have "e \<noteq> no_address_left" by (auto simp: store_error_def no_address_left_def)
    with R err run None res st rng show ?thesis by (auto simp: alc_get_requested_def last_post_def)
  next
    case yes
    from reserve_true [OF rdy stb res [unfolded yes]] yes run None res st rng show ?thesis
      by (auto simp: alc_get_requested_def alc_config_def last_post_def)
  next
    case no
    from reserve_false [OF rdy stb res [unfolded no]] no run None res st show ?thesis
      by (auto simp: alc_get_requested_def no_address_left_def last_post_def)
  qed
qed

text \<open>\<open>Get\<close> returns, and keeps its promise.\<close>

lemma alc_get_correct:
  assumes ok: "al_ok a" and st: "al_store a = st" and rdy: "ready s"
    and gw: "ic_gateway (al_conf a) = []"
  shows "\<exists>r s'. alc_get a s uid req True = Some (r, s') \<and> ready s' \<and>
    get_post a uid req (leases s) r (leases s') \<and> last_post a (last_rec s) (last_rec s')"
proof -
  have l: "snd (bs_lock st s) = s" for s
    using lock [of s] by (metis prod.collapse)
  have u: "snd (bs_unlock st s) = s" for s
    using unlock [of s] by (metis prod.collapse)
  have g: "alc_gateway a True = []" using gw by (simp add: alc_gateway_def)
  show ?thesis
  proof (cases "req = []")
    case True
    with alc_get_search_correct [OF ok st rdy, of uid] show ?thesis
      by (auto simp: alc_get_def st l u g Let_def)
  next
    case False
    obtain r s' where run: "alc_get_requested a [] s uid req = (r, s')" by fastforce
    from alc_get_requested_correct [OF ok st rdy run False] run False show ?thesis
      by (auto simp: alc_get_def st l u g Let_def)
  qed
qed

end

end
