(* ===== verification/Allocrange.thy ===== *)
theory Allocrange
  imports Allocator
begin

text \<open>
  The range \<open>NewIPAllocator\<close> computes for an IPv4 network (\<open>networkRange\<close> in
  \<open>allocator.go\<close>), as numbers: byte-wise mask arithmetic against division by a power of two.
\<close>

lemma length_cidr_mask [simp]: "length (cidr_mask n l) = l"
  by (induction n l rule: cidr_mask.induct) simp_all

lemma unat_byte_255: "unat (255 :: byte) = 255"
  by code_simp

lemma set_bytes_replicate_ff: "Suc (set_bytes (replicate n 255)) = 256 ^ n"
proof (induction n)
  case 0
  then show ?case by simp
next
  case (Suc n)
  then show ?case
    by (simp add: set_bytes_Cons unat_byte_255 del: unsigned_numeral)
qed

lemma not_255: "NOT (255 :: byte) = 0"
  by code_simp

lemma or_not_zero: "b OR NOT (0 :: byte) = 255"
proof -
  have "(255 :: byte) = - 1" by simp
  then show ?thesis by (simp del: word_of_nat_eq_0_iff)
qed

lemma map2_or_zero: "map2 (\<lambda>b m. b OR NOT m) bs (replicate (length bs) 0) = replicate (length bs) (255 :: byte)"
  by (induction bs) (simp_all add: or_not_zero)

lemma cidr_mask_zero: "cidr_mask 0 l = replicate l 0"
  by (induction l) simp_all

lemma unat_mask8: "k \<le> 8 \<Longrightarrow> unat (mask k :: byte) = mask k"
proof -
  have "\<forall>k \<in> set [0..<9]. unat (mask k :: byte) = mask k" by code_simp
  then show "k \<le> 8 \<Longrightarrow> unat (mask k :: byte) = mask k" by (simp add: less_Suc_eq_le)
qed

lemma first_mask_byte: "k \<le> 8 \<Longrightarrow> NOT (NOT (drop_bit k (255 :: byte))) = mask (8 - k)"
proof -
  have "\<forall>k \<in> set [0..<9]. NOT (NOT (drop_bit k (255 :: byte))) = mask (8 - k)" by code_simp
  then show "k \<le> 8 \<Longrightarrow> NOT (NOT (drop_bit k (255 :: byte))) = mask (8 - k)" by (simp add: less_Suc_eq_le)
qed

lemma unat_or_mask:
  "Suc (unat (b OR mask k :: byte)) = (unat b div 2 ^ k) * 2 ^ k + 2 ^ k" if "k \<le> 8"
proof -
  have "unat (b OR mask k :: byte) = unat b OR mask k"
    using that by (simp add: unsigned_or_eq unat_mask8)
  also have "unat b OR mask k = push_bit k (drop_bit k (unat b)) OR mask k"
    by (rule bit_eqI) (auto simp: bit_simps)
  also have "\<dots> = push_bit k (drop_bit k (unat b)) + mask k"
    by (rule disjunctive_add [symmetric]) (auto simp: bit_simps)
  finally show ?thesis by (simp add: push_bit_eq_mult drop_bit_eq_div mask_eq_exp_minus_1)
qed

text \<open>Setting the host bits of an address.\<close>

lemma set_bytes_or_mask:
  assumes "ones \<le> 8 * length bs"
  shows "Suc (set_bytes (map2 (\<lambda>b m. b OR NOT m) bs (cidr_mask ones (length bs))))
    = (set_bytes bs div 2 ^ (8 * length bs - ones)) * 2 ^ (8 * length bs - ones) + 2 ^ (8 * length bs - ones)"
  using assms
proof (induction bs arbitrary: ones)
  case Nil
  then show ?case by simp
next
  case (Cons b bs)
  let ?l = "length bs"
  have p256: "(256 :: nat) ^ ?l = 2 ^ (8 * ?l)" by (simp add: power_mult)
  show ?case
  proof (cases "8 \<le> ones")
    case True
    define h where "h = 8 * ?l - (ones - 8)"
    have h: "8 * length (b # bs) - ones = h" using True by (simp add: h_def)
    have "h \<le> 8 * ?l" by (simp add: h_def)
    then have dvd: "(2::nat) ^ h dvd 256 ^ ?l" unfolding p256 by (rule le_imp_power_dvd)
    have IH: "Suc (set_bytes (map2 (\<lambda>b m. b OR NOT m) bs (cidr_mask (ones - 8) ?l)))
        = (set_bytes bs div 2 ^ h) * 2 ^ h + 2 ^ h"
      unfolding h_def using Cons.prems by (intro Cons.IH) simp
    have b: "b OR NOT 255 = b" by (simp only: not_255 or.right_neutral)
    have len: "length (map2 (\<lambda>b m. b OR NOT m) bs (cidr_mask (ones - 8) ?l)) = ?l"
      by (simp add: length_cidr_mask)
    from dvd obtain q where q: "(256 :: nat) ^ ?l = 2 ^ h * q" by (elim dvdE)
    have "set_bytes (b # bs) div 2 ^ h * 2 ^ h = unat b * 256 ^ ?l + set_bytes bs div 2 ^ h * 2 ^ h"
    proof -
      have e: "unat b * 256 ^ ?l + set_bytes bs = set_bytes bs + (unat b * q) * 2 ^ h"
        by (simp add: q)
      have "set_bytes (b # bs) div 2 ^ h = unat b * q + set_bytes bs div 2 ^ h"
        unfolding set_bytes_Cons e by (rule div_mult_self1) simp
      then show ?thesis by (simp add: q add_mult_distrib)
    qed
    with IH True len show ?thesis
      unfolding h by (simp add: b [simplified] set_bytes_Cons)
  next
    case False
    define k where "k = 8 - ones"
    have k: "k \<le> 8" "8 - k = ones" using False by (simp_all add: k_def)
    have h: "8 * length (b # bs) - ones = k + 8 * ?l" using False by (simp add: k_def)
    have m: "b OR NOT (NOT (drop_bit ones 255)) = b OR mask k"
      using first_mask_byte [of ones] False by (simp add: k_def)
    have rest: "map2 (\<lambda>b m. b OR NOT m) bs (cidr_mask 0 ?l) = replicate ?l 255"
      by (simp add: cidr_mask_zero map2_or_zero)
    have "Suc (set_bytes ((b OR mask k) # replicate ?l 255)) = Suc (unat (b OR mask k)) * 256 ^ ?l"
      using set_bytes_replicate_ff [of ?l] by (simp add: set_bytes_Cons)
    also have "\<dots> = (unat b div 2 ^ k * 2 ^ k + 2 ^ k) * 256 ^ ?l"
      using unat_or_mask [OF k(1), of b] by simp
    also have "\<dots> = (unat b div 2 ^ k) * 2 ^ (k + 8 * ?l) + 2 ^ (k + 8 * ?l)"
      by (simp add: p256 power_add algebra_simps)
    also have "unat b div 2 ^ k = set_bytes (b # bs) div 2 ^ (k + 8 * ?l)"
    proof -
      have "set_bytes (b # bs) div 256 ^ ?l = unat b"
        using set_bytes_bound [of bs] by (simp add: set_bytes_Cons)
      then show ?thesis
        by (simp add: p256 power_add div_mult2_eq mult.commute [of "2 ^ k"])
    qed
    finally show ?thesis using False by (simp only: h) (simp add: m [simplified] rest)
  qed
qed

lemma simple_mask_length_cidr:
  "ones \<le> 8 * l \<Longrightarrow> simple_mask_length (cidr_mask ones l) = Some ones"
proof (induction ones l rule: cidr_mask.induct)
  case (1 ones)
  then show ?case by simp
next
  case (2 ones l)
  show ?case
  proof (cases "8 \<le> ones")
    case True
    with 2 show ?thesis by simp
  next
    case False
    have b: "\<forall>k \<in> set [0..<8]. NOT (drop_bit k (255 :: byte)) \<noteq> 255 \<and>
        byte_ones (NOT (drop_bit k (255 :: byte))) = Some k"
      by code_simp
    with False show ?thesis by (simp add: cidr_mask_zero)
  qed
qed

lemma mask_size_cidr: "ones \<le> 8 * l \<Longrightarrow> mask_size (cidr_mask ones l) = (ones, 8 * l)"
  by (simp add: mask_size_def simple_mask_length_cidr)

text \<open>The last usable address: the broadcast address less one.\<close>

lemma set_bytes_dec_last:
  assumes "length p = 4" and "set_bytes p = Suc n" and "\<not> 256 dvd Suc n"
  shows "set_bytes (p[3 := p ! 3 - 1]) = n"
proof -
  from assms(1) obtain a b c d where p: "p = [a, b, c, d]" by (rule length4E)
  have s: "set_bytes [a, b, c, x] = set_bytes [a, b, c] * 256 + unat x" for x
    using set_bytes_snoc [of "[a, b, c]" x] by simp
  have "unat d \<noteq> 0"
  proof
    assume "unat d = 0"
    with assms(2) s [of d] p have "Suc n = set_bytes [a, b, c] * 256" by simp
    with assms(3) show False by simp
  qed
  moreover from this have "d \<noteq> 0" by auto
  ultimately have "Suc (unat (d - 1)) = unat d" by (simp add: unat_minus_one)
  with assms(2) s [of d] s [of "d - 1"] p show ?thesis by simp
qed

text \<open>Over an IPv4 network with at least four addresses, \<open>NewIPAllocator\<close> makes a range from the
  successor of the address in the configuration to the address before the broadcast address.\<close>

lemma new_ip_allocator_v4:
  assumes host: "to4 host \<noteq> []" and ones: "ones \<le> 30" and first: "2 ^ 24 \<le> Suc (v4_num host)"
    and room: "Suc (v4_num host) < 2 ^ 32"
    and conf: "conf = new_ipam_conf name \<lparr>net_ip = host, net_mask = cidr_mask ones 4\<rparr>"
  shows "\<exists>a. new_ip_allocator conf st = Inr a \<and> al_conf a = conf \<and> al_store a = st \<and>
    al_start a = next_ip host \<and> to4 (al_start a) \<noteq> [] \<and> to4 (al_end a) \<noteq> [] \<and>
    v4_num (al_start a) = Suc (v4_num host) \<and>
    v4_num (al_end a) + 2 = (v4_num host div 2 ^ (32 - ones) + 1) * 2 ^ (32 - ones)"
proof -
  let ?m = "cidr_mask ones 4"
  let ?fin = "map2 (\<lambda>b m. b OR NOT m) (to4 host) ?m"
  let ?h = "32 - ones"
  have len: "length (to4 host) = 4" using host by (rule to4_length)
  then have flen: "length ?fin = 4" by simp
  have fin: "Suc (set_bytes ?fin) = (v4_num host div 2 ^ ?h) * 2 ^ ?h + 2 ^ ?h"
    using set_bytes_or_mask [of ones "to4 host"] ones len by (simp add: v4_num_def)
  define B where "B = (v4_num host div 2 ^ ?h) * 2 ^ ?h + 2 ^ ?h"
  have dvd4: "4 dvd B"
  proof -
    have "(2::nat) ^ 2 dvd 2 ^ ?h" using ones by (intro le_imp_power_dvd) simp
    then show ?thesis by (simp add: B_def)
  qed
  have B: "Suc (set_bytes ?fin) = B" using fin by (simp add: B_def)
  have "0 < B" by (simp add: B_def)
  with dvd4 have B4: "4 \<le> B" by (rule dvd_imp_le)
  from B4 obtain m where "B = 4 + m" using le_Suc_ex by blast
  then obtain n where n: "B = Suc (Suc n)" by simp
  have nd: "\<not> 256 dvd Suc n"
  proof
    assume "256 dvd Suc n"
    then have "4 dvd Suc n" by (rule dvd_trans [rotated]) simp
    with dvd4 n show False by presburger
  qed
  from B n have sb: "set_bytes ?fin = Suc n" by simp
  have last: "set_bytes (?fin[3 := ?fin ! 3 - 1]) = n"
    using flen sb nd by (rule set_bytes_dec_last)
  have l4: "length (?fin[3 := ?fin ! 3 - 1]) = 4" using flen by simp
  have rng: "network_range \<lparr>net_ip = host, net_mask = ?m\<rparr> = Inr (host, ?fin[3 := ?fin ! 3 - 1])"
    using host len by (auto simp: network_range_def canonicalize_v4 Let_def)
  have size: "mask_size ?m = (ones, 32)" using mask_size_cidr [of ones 4] ones by simp
  define a where "a = \<lparr>al_start = next_ip host, al_end = ?fin[3 := ?fin ! 3 - 1], al_conf = conf, al_store = st\<rparr>"
  have new: "new_ip_allocator conf st = Inr a"
    using rng size ones by (simp add: new_ip_allocator_def conf new_ipam_conf_def a_def Let_def)
  note N = next_ip_v4 [OF host first room]
  have "v4_num (al_end a) + 2 = B"
    using last l4 n by (simp add: a_def v4_num_def)
  moreover have "to4 p \<noteq> []" if "length p = 4" for p
    using that by auto
  from this [OF N(1)] this [OF l4] have "to4 (al_start a) \<noteq> []" "to4 (al_end a) \<noteq> []"
    by (simp_all only: a_def ip_allocator.simps not_False_eq_True)
  ultimately show ?thesis
    using new N(2) by (intro exI [of _ a]) (simp add: a_def B_def algebra_simps)
qed

end
