(* ===== verification/Ipam.thy ===== *)
theory Ipam
  imports Allocrange
begin

text \<open>
  \<open>pkg/ipam/ipam.go\<close>: the package variables \<open>alc\<close> and \<open>ipamCache\<close> are an argument and a
  threaded association list, the store's state is threaded beside it.  Each exported function holds
  the package lock from start to end, so a call is one transition.
\<close>

section \<open>ipam.go\<close>

definition data_dir :: string where
  "data_dir = ''ipam/''"

text \<open>\<open>Init\<close>: every error is fatal (\<open>Inl\<close>), otherwise the allocator and the recovered cache.\<close>

definition ipam_init ::
  "'s kv_store \<Rightarrow> 's \<Rightarrow> string \<Rightarrow> string \<Rightarrow>
   (go_error + ('s ip_allocator \<times> (string \<times> string) list)) \<times> 's" where
  "ipam_init kv s name cidr =
     (case types_parse_cidr cidr of
        None \<Rightarrow> (Inl (ProgError ''invalid CIDR address''), s)
      | Some n \<Rightarrow>
          let conf = new_ipam_conf name n in
          (case etcd_new kv s (ic_name conf) data_dir of
             (Inl e, s1) \<Rightarrow> (Inl e, s1)
           | (Inr item, s1) \<Rightarrow>
               (case new_ip_allocator conf (etcd_store kv item) of
                  Inl e \<Rightarrow> (Inl e, s1)
                | Inr a \<Rightarrow>
                    (case alc_recover a s1 of
                       (Inl e, s2) \<Rightarrow> (Inl e, s2)
                     | (Inr cache, s2) \<Rightarrow> (Inr (a, cache), s2)))))"

text \<open>\<open>RequireIP\<close>; the outer \<open>None\<close> is a call that does not return.\<close>

definition require_ip ::
  "'s ip_allocator \<Rightarrow> (string \<times> string) list \<Rightarrow> 's \<Rightarrow> string \<Rightarrow> string \<Rightarrow>
   ((go_error + string) \<times> (string \<times> string) list \<times> 's) option" where
  "require_ip a cache s name req =
     (case alc_get_exist a s name of
        (Inl e, s1) \<Rightarrow> Some (Inl e, cache, s1)
      | (Inr old, s1) \<Rightarrow>
          if old \<noteq> [] \<and> ip_string old \<noteq> [] \<and> \<not> (req \<noteq> [] \<and> req \<noteq> ip_string old)
          then Some (Inr (ip_string old), cache, s1)
          else
            let s2 = (if old \<noteq> [] \<and> ip_string old \<noteq> [] then snd (alc_release a s1 name) else s1)
            in case alc_get a s2 name (parse_ip req) True of
                 None \<Rightarrow> None
               | Some (Inl e, s3) \<Rightarrow> Some (Inl e, cache, s3)
               | Some (Inr (cfg, routes), s3) \<Rightarrow>
                   Some (Inr (ip_string (net_ip (address cfg))),
                     AList.update name (ip_string (net_ip (address cfg))) cache, s3))"

text \<open>When \<open>RequireIP\<close> calls \<open>Release\<close>: the service has an address and the request names another one.\<close>

definition require_releases :: "'s ip_allocator \<Rightarrow> 's \<Rightarrow> string \<Rightarrow> string \<Rightarrow> bool" where
  "require_releases a s name req \<longleftrightarrow>
     (case fst (alc_get_exist a s name) of
        Inl e \<Rightarrow> False
      | Inr old \<Rightarrow> old \<noteq> [] \<and> ip_string old \<noteq> [] \<and> req \<noteq> [] \<and> req \<noteq> ip_string old)"

definition release_ip ::
  "'s ip_allocator \<Rightarrow> (string \<times> string) list \<Rightarrow> 's \<Rightarrow> string \<Rightarrow>
   (go_error + unit) \<times> (string \<times> string) list \<times> 's" where
  "release_ip a cache s name =
     (case alc_release a s name of
        (Inl e, s1) \<Rightarrow> (Inl e, cache, s1)
      | (Inr _, s1) \<Rightarrow> (Inr (), AList.delete name cache, s1))"

definition ipam_get_keys :: "string range_order \<Rightarrow> (string \<times> string) list \<Rightarrow> string list" where
  "ipam_get_keys ord cache = ord (map fst cache)"

section \<open>Well-formed leases\<close>

text \<open>Every lease is on the canonical text of an IPv4 address, and so is the record of the last one;
  an id that starts with \<open>l4-\<close> is not such a text.\<close>

definition v4_text :: "string \<Rightarrow> bool" where
  "v4_text k \<longleftrightarrow> (\<exists>p. length p = 4 \<and> k = v4_string p)"

definition lease_wf :: "(string \<Rightarrow> string option) \<Rightarrow> bool" where
  "lease_wf L \<longleftrightarrow> (\<forall>k v. L k = Some v \<longrightarrow> v4_text k)"

definition last_wf :: "string option \<Rightarrow> bool" where
  "last_wf lr \<longleftrightarrow> (\<forall>v. lr = Some v \<longrightarrow> v4_text v)"

definition one_lease :: "(string \<Rightarrow> string option) \<Rightarrow> bool" where
  "one_lease L \<longleftrightarrow> (\<forall>k k' v. L k = Some v \<and> L k' = Some v \<longrightarrow> k = k')"

definition l4_id :: "string \<Rightarrow> bool" where
  "l4_id uid \<longleftrightarrow> has_prefix uid ''l4-''"

text \<open>No lease of another id is touched.\<close>

definition others_same :: "string \<Rightarrow> (string \<Rightarrow> string option) \<Rightarrow> (string \<Rightarrow> string option) \<Rightarrow> bool" where
  "others_same uid L L' \<longleftrightarrow> (\<forall>k v. v \<noteq> uid \<longrightarrow> (L' k = Some v \<longleftrightarrow> L k = Some v))"

lemma v4_text_parse:
  assumes "v4_text k"
  shows "to4 (parse_ip k) \<noteq> []" and "ip_string (parse_ip k) = k" and "parse_ip k \<noteq> []"
proof -
  from assms obtain p where p: "length p = 4" "k = v4_string p" by (auto simp: v4_text_def)
  then have e: "parse_ip k = v4_in_v6_prefix @ p" by (simp add: parse_ip_v4_string)
  with p have "to4 (parse_ip k) = p" by simp
  with p(1) show ne: "to4 (parse_ip k) \<noteq> []" by auto
  show "ip_string (parse_ip k) = k"
    using ip_string_v4 [OF ne] \<open>to4 (parse_ip k) = p\<close> p(2) by simp
  show "parse_ip k \<noteq> []" by (simp add: e)
qed

lemma v4_text_ip_string: "to4 ip \<noteq> [] \<Longrightarrow> v4_text (ip_string ip)"
  unfolding v4_text_def by (intro exI [of _ "to4 ip"]) (simp add: ip_string_v4 to4_length)

lemma v4_text_head:
  assumes "v4_text k"
  shows "k \<noteq> [] \<and> is_digit (hd k)"
proof -
  from assms obtain p where p: "length p = 4" "k = v4_string p" by (auto simp: v4_text_def)
  then obtain a b c d where "p = [a, b, c, d]" by (elim length4E)
  with p(2) have k: "k = itoa_nat (unat a) @ CHR ''.'' # v4_string [b, c, d]"
    by (simp add: v4_string_def)
  have "is_digit (hd (itoa_nat (unat a)))" by (rule itoa_nat_digits [of _ "unat a"]) simp
  with k show ?thesis by simp
qed

lemma l4_id_not_text: "l4_id uid \<Longrightarrow> \<not> v4_text uid"
  using v4_text_head [of uid] by (auto simp: l4_id_def has_prefix_iff is_digit_def)

lemma others_same_refl [simp]: "others_same uid L L"
  by (simp add: others_same_def)

lemma others_same_trans: "others_same uid L M \<Longrightarrow> others_same uid M N \<Longrightarrow> others_same uid L N"
  by (simp add: others_same_def)

lemma others_same_add: "L k = None \<Longrightarrow> others_same uid L (L(k \<mapsto> uid))"
  by (auto simp: others_same_def)

lemma others_same_del: "L k = Some uid \<Longrightarrow> others_same uid L (L(k := None))"
  by (auto simp: others_same_def)

lemma get_post_others: "get_post a uid req L r L' \<Longrightarrow> others_same uid L L'"
  by (cases r) (auto simp: others_same_add)

lemma get_post_wf: "get_post a uid req L r L' \<Longrightarrow> lease_wf L \<Longrightarrow> lease_wf L'"
  by (cases r) (auto simp: lease_wf_def in_range_def v4_text_ip_string split: if_splits)

lemma last_post_wf: "last_post a lr lr' \<Longrightarrow> last_wf lr \<Longrightarrow> last_wf lr'"
  by (auto simp: last_post_def last_wf_def in_range_def v4_text_ip_string)

text \<open>With no lease of its own before, an id has at most one after.\<close>

lemma get_post_one_lease:
  assumes "get_post a uid req L r L'" and "one_lease L" and "\<forall>k. L k \<noteq> Some uid"
  shows "one_lease L'"
  using assms by (cases r) (auto simp: one_lease_def split: if_splits)

section \<open>What the operations do to the leases\<close>

context reserving_store
begin

lemma alc_lock_free:
  assumes "al_store a = st"
  shows "alc_get_exist a s uid = bs_exist st s uid"
    and "alc_release a s uid = bs_release_by_id st s uid"
proof -
  have l: "snd (bs_lock st s) = s" for s
    using lock [of s] by (metis prod.collapse)
  have u: "snd (bs_unlock st s) = s" for s
    using unlock [of s] by (metis prod.collapse)
  from assms show "alc_get_exist a s uid = bs_exist st s uid"
    and "alc_release a s uid = bs_release_by_id st s uid"
    by (simp_all add: alc_get_exist_def alc_release_def l u)
qed

lemma exist_wf:
  assumes "ready s" and "lease_wf (leases s)" and "last_wf (last_rec s)" and "l4_id uid"
    and "bs_exist st s uid = (Inr ip, s')"
  shows "ip \<noteq> [] \<Longrightarrow> leases s (ip_string ip) = Some uid \<and> to4 ip \<noteq> []"
    and "ip = [] \<Longrightarrow> leases s k \<noteq> Some uid"
proof -
  have nl: "last_rec s \<noteq> Some uid"
    using assms(3,4) l4_id_not_text by (auto simp: last_wf_def)
  show "leases s (ip_string ip) = Some uid \<and> to4 ip \<noteq> []" if "ip \<noteq> []"
  proof -
    from exist_some [OF assms(1) nl assms(5) that] obtain k
      where k: "leases s k = Some uid" "ip = parse_ip k" by blast
    with assms(2) have "v4_text k" by (auto simp: lease_wf_def)
    from v4_text_parse [OF this] k show ?thesis by simp
  qed
  show "leases s k \<noteq> Some uid" if "ip = []"
    using exist_none [OF assms(1) nl, of s'] assms(2,5) that v4_text_parse(3)
    by (auto simp: lease_wf_def)
qed

text \<open>Releasing by id takes a lease of the id away, if it has one; it never touches another's.\<close>

lemma release_by_id_wf:
  assumes rdy: "ready s" and wf: "lease_wf (leases s)" "last_wf (last_rec s)" and uid: "l4_id uid"
    and run: "bs_release_by_id st s uid = (r, s')"
  shows "ready s'" and "last_rec s' = last_rec s"
    and "leases s' = leases s \<or> (\<exists>k. leases s k = Some uid \<and> leases s' = (leases s)(k := None))"
    and "r = Inr () \<Longrightarrow> leases s k = Some uid \<Longrightarrow>
      \<exists>k. leases s k = Some uid \<and> leases s' = (leases s)(k := None)"
proof -
  obtain x s1 where ex: "bs_exist st s uid = (x, s1)" by fastforce
  note F = exist_frame [OF rdy ex]
  note run' = run [unfolded release_by_id ex]
  have "ready s' \<and> last_rec s' = last_rec s \<and>
    (leases s' = leases s \<or> (\<exists>k. leases s k = Some uid \<and> leases s' = (leases s)(k := None))) \<and>
    (r = Inr () \<longrightarrow> leases s k = Some uid \<longrightarrow>
      (\<exists>k. leases s k = Some uid \<and> leases s' = (leases s)(k := None)))"
  proof (cases x)
    case (Inl e)
    with run' F show ?thesis by auto
  next
    case (Inr ip)
    show ?thesis
    proof (cases "ip = []")
      case True
      with exist_wf(2) [OF rdy wf uid ex [unfolded Inr] True] run' F Inr show ?thesis by auto
    next
      case False
      note E = exist_wf(1) [OF rdy wf uid ex [unfolded Inr] False]
      from E have stb: "storable ip" by (blast intro: storable_v4)
      from F have rdy1: "ready s1" by simp
      from run' Inr False have rel: "bs_release st s1 ip = (r, s')" by simp
      show ?thesis
      proof (cases r)
        case (Inl e)
        from release_err [OF rdy1 stb rel [unfolded Inl]] F E Inl show ?thesis by auto
      next
        case (Inr u)
        from release_ok [OF rdy1 stb rel [unfolded Inr]] F E show ?thesis by auto
      qed
    qed
  qed
  then show "ready s'" and "last_rec s' = last_rec s"
    and "leases s' = leases s \<or> (\<exists>k. leases s k = Some uid \<and> leases s' = (leases s)(k := None))"
    and "r = Inr () \<Longrightarrow> leases s k = Some uid \<Longrightarrow>
      \<exists>k. leases s k = Some uid \<and> leases s' = (leases s)(k := None)"
    by auto
qed

end

text \<open>The promise of \<open>RequireIP\<close>.\<close>

definition require_post ::
  "string \<Rightarrow> string \<Rightarrow> (string \<Rightarrow> string option) \<Rightarrow> (string \<times> string) list \<Rightarrow>
   go_error + string \<Rightarrow> (string \<Rightarrow> string option) \<Rightarrow> (string \<times> string) list \<Rightarrow> bool" where
  "require_post uid req L c r L' c' \<longleftrightarrow>
     others_same uid L L' \<and> lease_wf L' \<and>
     (case r of
        Inl e \<Rightarrow> c' = c
      | Inr ip \<Rightarrow>
          L' ip = Some uid \<and> v4_text ip \<and> (v4_text req \<longrightarrow> ip = req) \<and>
          (c' = c \<and> L' = L \<or> c' = AList.update uid ip c) \<and>
          (req = [] \<longrightarrow> (\<exists>k. L k = Some uid) \<longrightarrow> L' = L))"

context reserving_store
begin

lemma require_ip_cases:
  assumes st: "al_store a = st" and rdy: "ready s" and wf: "lease_wf (leases s)" "last_wf (last_rec s)"
    and uid: "l4_id uid"
  obtains (fail) e s1 where "require_ip a c s uid req = Some (Inl e, c, s1)" "leases s1 = leases s"
      "last_rec s1 = last_rec s" "ready s1" "fst (alc_get_exist a s uid) = Inl e"
    | (keep) k s1 where "require_ip a c s uid req = Some (Inr k, c, s1)" "leases s k = Some uid"
      "req = [] \<or> req = k" "leases s1 = leases s" "last_rec s1 = last_rec s" "ready s1"
    | (get) s2 where "require_ip a c s uid req =
        (case alc_get a s2 uid (parse_ip req) True of
           None \<Rightarrow> None
         | Some (Inl e, s3) \<Rightarrow> Some (Inl e, c, s3)
         | Some (Inr (cfg, rts), s3) \<Rightarrow>
             Some (Inr (ip_string (net_ip (address cfg))),
               AList.update uid (ip_string (net_ip (address cfg))) c, s3))"
      "ready s2" "last_rec s2 = last_rec s"
      "(\<forall>k. leases s k \<noteq> Some uid) \<and> leases s2 = leases s \<or>
       (\<exists>k s1 r. leases s k = Some uid \<and> req \<noteq> [] \<and> req \<noteq> k \<and> alc_get_exist a s uid = (Inr (parse_ip k), s1) \<and>
          alc_release a s1 uid = (r, s2) \<and>
          (leases s2 = leases s \<and> r \<noteq> Inr () \<or>
           (\<exists>k. leases s k = Some uid \<and> leases s2 = (leases s)(k := None))))"
proof -
  obtain x s1 where ex: "bs_exist st s uid = (x, s1)" by fastforce
  note F = exist_frame [OF rdy ex]
  note free = alc_lock_free [OF st]
  show thesis
  proof (cases x)
    case (Inl e)
    with ex free F show thesis by (intro fail [of e s1]) (auto simp: require_ip_def)
  next
    case (Inr ip)
    show thesis
    proof (cases "ip = []")
      case True
      with ex free Inr F exist_wf(2) [OF rdy wf uid ex [unfolded Inr] True] show thesis
        by (intro get [of s1]) (auto simp: require_ip_def Let_def)
    next
      case False
      note E = exist_wf(1) [OF rdy wf uid ex [unfolded Inr] False]
      then have ne: "ip_string ip \<noteq> []" using wf(1) v4_text_head by (auto simp: lease_wf_def)
      show thesis
      proof (cases "req \<noteq> [] \<and> req \<noteq> ip_string ip")
        case False
        with ex free Inr F E ne \<open>ip \<noteq> []\<close> show thesis
          by (intro keep [of "ip_string ip" s1]) (auto simp: require_ip_def)
      next
        case differ: True
        obtain r s2 where rel: "bs_release_by_id st s1 uid = (r, s2)" by fastforce
        have w1: "lease_wf (leases s1)" "last_wf (last_rec s1)" "ready s1"
          using F wf by simp_all
        note R = release_by_id_wf [OF w1(3,1,2) uid rel]
        from exist_some [OF rdy _ ex [unfolded Inr] \<open>ip \<noteq> []\<close>] wf(2) uid l4_id_not_text
        obtain k where k: "leases s k = Some uid" "ip = parse_ip k" by (auto simp: last_wf_def)
        from k wf(1) have "v4_text k" by (auto simp: lease_wf_def)
        with k have key: "ip_string ip = k" by (simp add: v4_text_parse)
        have rel': "leases s2 = leases s \<and> r \<noteq> Inr () \<or>
            (\<exists>k. leases s k = Some uid \<and> leases s2 = (leases s)(k := None))"
          using R(3) R(4) [of k] k F by auto
        show thesis
        proof (rule get [of s2])
          show "require_ip a c s uid req =
            (case alc_get a s2 uid (parse_ip req) True of
               None \<Rightarrow> None
             | Some (Inl e, s3) \<Rightarrow> Some (Inl e, c, s3)
             | Some (Inr (cfg, rts), s3) \<Rightarrow>
                 Some (Inr (ip_string (net_ip (address cfg))),
                   AList.update uid (ip_string (net_ip (address cfg))) c, s3))"
            using ex free Inr ne \<open>ip \<noteq> []\<close> differ rel by (simp add: require_ip_def Let_def)
          show "ready s2" "last_rec s2 = last_rec s" using R(1,2) F by simp_all
          show "(\<forall>k. leases s k \<noteq> Some uid) \<and> leases s2 = leases s \<or>
            (\<exists>k s1 r. leases s k = Some uid \<and> req \<noteq> [] \<and> req \<noteq> k \<and> alc_get_exist a s uid = (Inr (parse_ip k), s1) \<and>
              alc_release a s1 uid = (r, s2) \<and>
              (leases s2 = leases s \<and> r \<noteq> Inr () \<or>
               (\<exists>k. leases s k = Some uid \<and> leases s2 = (leases s)(k := None))))"
            using k key differ ex Inr free rel rel' by auto
        qed
      qed
    qed
  qed
qed

text \<open>\<open>RequireIP\<close> returns and keeps its promise.\<close>

lemma require_ip_correct:
  assumes ok: "al_ok a" and st: "al_store a = st" and gw: "ic_gateway (al_conf a) = []"
    and rdy: "ready s" and wf: "lease_wf (leases s)" "last_wf (last_rec s)" and uid: "l4_id uid"
  shows "\<exists>r c' s'. require_ip a c s uid req = Some (r, c', s') \<and> ready s' \<and> last_wf (last_rec s') \<and>
    require_post uid req (leases s) c r (leases s') c'"
  using st rdy wf uid
proof (cases rule: require_ip_cases [where a = a and c = c and req = req])
  case (fail e s1)
  with wf show ?thesis by (auto simp: require_post_def)
next
  case (keep k s1)
  with wf show ?thesis by (auto simp: require_post_def lease_wf_def dest: v4_text_head)
next
  case (get s2)
  have os: "others_same uid (leases s) (leases s2)" using get(4) others_same_del by fastforce
  have w2: "lease_wf (leases s2)" using get(4) wf(1) by (auto simp: lease_wf_def split: if_splits)
  from alc_get_correct [OF ok st get(2) gw, of uid "parse_ip req"] obtain r s3
    where g: "alc_get a s2 uid (parse_ip req) True = Some (r, s3)" "ready s3"
      "get_post a uid (parse_ip req) (leases s2) r (leases s3)"
      "last_post a (last_rec s2) (last_rec s3)" by blast
  have lw: "last_wf (last_rec s3)" using last_post_wf [OF g(4)] get(3) wf(2) by simp
  have os3: "others_same uid (leases s) (leases s3)"
    using others_same_trans [OF os get_post_others [OF g(3)]] .
  have w3: "lease_wf (leases s3)" using get_post_wf [OF g(3) w2] .
  show ?thesis
  proof (cases r)
    case (Inl e)
    with get(1) g(1,2) lw os3 w3 show ?thesis by (auto simp: require_post_def)
  next
    case (Inr p)
    obtain cfg rts where p: "p = (cfg, rts)" by (cases p)
    let ?ip = "ip_string (net_ip (address cfg))"
    from g(3) Inr p have G: "in_range a (net_ip (address cfg))" "leases s3 = (leases s2)(?ip \<mapsto> uid)"
      "parse_ip req \<noteq> [] \<Longrightarrow> net_ip (address cfg) = parse_ip req" by simp_all
    have "v4_text ?ip" using G(1) by (simp add: in_range_def v4_text_ip_string)
    moreover have "?ip = req" if "v4_text req"
      using G(3) v4_text_parse [OF that] by simp
    moreover have "\<not> (\<exists>k. leases s k = Some uid)" if "req = []"
      using get(4) that by auto
    ultimately show ?thesis
      using get(1) g(1,2) lw os3 w3 Inr p G(2) by (auto simp: require_post_def)
  qed
qed

lemma require_releasesI:
  assumes "lease_wf (leases s)" and "leases s k = Some uid" and "req \<noteq> []" and "req \<noteq> k"
    and "alc_get_exist a s uid = (Inr (parse_ip k), s1)"
  shows "require_releases a s uid req"
proof -
  from assms(1,2) have "v4_text k" by (auto simp: lease_wf_def)
  from v4_text_parse [OF this] v4_text_head [OF this] assms(3-5) show ?thesis by (auto simp: require_releases_def)
qed

text \<open>An id that holds at most one address still does, unless \<open>RequireIP\<close> had to release its old address
  and that failed.\<close>

lemma require_ip_one_lease:
  assumes ok: "al_ok a" and st: "al_store a = st" and gw: "ic_gateway (al_conf a) = []"
    and rdy: "ready s" and wf: "lease_wf (leases s)" "last_wf (last_rec s)" and uid: "l4_id uid"
    and one: "one_lease (leases s)"
    and rel: "require_releases a s uid req \<Longrightarrow> fst (alc_release a (snd (alc_get_exist a s uid)) uid) = Inr ()"
    and run: "require_ip a c s uid req = Some (r, c', s')"
  shows "one_lease (leases s')"
  using st rdy wf uid
proof (cases rule: require_ip_cases [where a = a and c = c and req = req])
  case (fail e s1)
  with run one show ?thesis by simp
next
  case (keep k s1)
  with run one show ?thesis by simp
next
  case (get s2)
  have none: "\<forall>k. leases s2 k \<noteq> Some uid" and one2: "one_lease (leases s2)"
    using get(4) one rel require_releasesI [OF wf(1)] by (auto simp: one_lease_def split: if_splits)
  from alc_get_correct [OF ok st get(2) gw, of uid "parse_ip req"] obtain q s3
    where g: "alc_get a s2 uid (parse_ip req) True = Some (q, s3)"
      "get_post a uid (parse_ip req) (leases s2) q (leases s3)" by blast
  from run get(1) g(1) have "s' = s3" by (auto split: sum.splits prod.splits)
  with get_post_one_lease [OF g(2) one2 none] show ?thesis by simp
qed

text \<open>A request for an address that another id holds takes the id's own address away: the old lease
  is released first, then the request fails.\<close>

lemma require_ip_taken:
  assumes ok: "al_ok a" and st: "al_store a = st" and gw: "ic_gateway (al_conf a) = []"
    and rdy: "ready s" and wf: "lease_wf (leases s)" "last_wf (last_rec s)" and uid: "l4_id uid"
    and one: "one_lease (leases s)"
    and rel: "require_releases a s uid req \<Longrightarrow> fst (alc_release a (snd (alc_get_exist a s uid)) uid) = Inr ()"
    and ex: "\<exists>x. fst (alc_get_exist a s uid) = Inr x"
    and tk: "leases s req = Some other" "other \<noteq> uid"
  shows "\<exists>e s'. require_ip a c s uid req = Some (Inl e, c, s') \<and>
    (\<forall>k. leases s' k = (if leases s k = Some uid then None else leases s k))"
proof -
  from tk wf have req: "v4_text req" by (auto simp: lease_wf_def)
  note P = v4_text_parse [OF req]
  from require_ip_correct [OF ok st gw rdy wf uid, of c req] obtain r c' s'
    where R: "require_ip a c s uid req = Some (r, c', s')" "require_post uid req (leases s) c r (leases s') c'"
    by blast
  from R(2) tk have "leases s' req = Some other" by (auto simp: require_post_def others_same_def)
  with R(2) req tk(2) obtain e where e: "r = Inl e" "c' = c"
    by (auto simp: require_post_def split: sum.splits)
  have gone: "\<forall>k. leases s' k \<noteq> Some uid"
    using st rdy wf uid
  proof (cases rule: require_ip_cases [where a = a and c = c and req = req])
    case (fail e s1)
    with ex show ?thesis by simp
  next
    case (keep k s1)
    with R(1) e show ?thesis by simp
  next
    case (get s2)
    have none: "\<forall>k. leases s2 k \<noteq> Some uid" and tk2: "leases s2 req = Some other"
      using get(4) one rel require_releasesI [OF wf(1)] tk by (auto simp: one_lease_def split: if_splits)
    from alc_get_correct [OF ok st get(2) gw, of uid "parse_ip req"] obtain q s3
      where g: "alc_get a s2 uid (parse_ip req) True = Some (q, s3)"
        "get_post a uid (parse_ip req) (leases s2) q (leases s3)" by blast
    from R(1) e get(1) g(1) have q: "q = Inl e" "s' = s3" by (auto split: sum.splits prod.splits)
    from g(2) q(1) P tk2 have "leases s3 = leases s2" by auto
    with none q(2) show ?thesis by simp
  qed
  have "v \<noteq> uid \<Longrightarrow> leases s' k = Some v \<longleftrightarrow> leases s k = Some v" for k v
    using R(2) by (simp add: require_post_def others_same_def)
  with gone have "leases s' k = (if leases s k = Some uid then None else leases s k)" for k
    by (metis not_None_eq)
  with R(1) e show ?thesis by blast
qed

text \<open>\<open>ReleaseIP\<close> takes the address of the id away and nothing else.\<close>

lemma release_ip_correct:
  assumes st: "al_store a = st" and rdy: "ready s" and wf: "lease_wf (leases s)" "last_wf (last_rec s)"
    and uid: "l4_id uid" and one: "one_lease (leases s)" and run: "release_ip a c s uid = (r, c', s')"
  shows "ready s' \<and> lease_wf (leases s') \<and> last_rec s' = last_rec s \<and>
    others_same uid (leases s) (leases s') \<and>
    (case r of
       Inl e \<Rightarrow> c' = c
     | Inr _ \<Rightarrow> map_of c' = (map_of c)(uid := None) \<and> (\<forall>k. leases s' k \<noteq> Some uid))"
proof -
  obtain q s1 where rel: "bs_release_by_id st s uid = (q, s1)" by fastforce
  with run alc_lock_free(2) [OF st] have s': "s' = s1"
    and r: "(\<exists>e. q = Inl e \<and> r = Inl e \<and> c' = c) \<or> (q = Inr () \<and> r = Inr () \<and> c' = AList.delete uid c)"
    by (auto simp: release_ip_def split: sum.splits)
  note R = release_by_id_wf [OF rdy wf uid rel]
  have gone: "leases s1 k \<noteq> Some uid" if "q = Inr ()" for k
  proof
    assume k: "leases s1 k = Some uid"
    show False
    proof (cases "leases s k = Some uid")
      case True
      from R(4) [OF that True] k one show False by (auto simp: one_lease_def split: if_splits)
    next
      case False
      with R(3) k show False by (auto split: if_splits)
    qed
  qed
  have "others_same uid (leases s) (leases s1)" using R(3) others_same_del by fastforce
  moreover have "lease_wf (leases s1)" using R(3) wf(1) by (auto simp: lease_wf_def split: if_splits)
  ultimately show ?thesis using R(1,2) s' r gone by (auto simp: map_of_delete_upd)
qed

end

end
