(* ===== verification/Ipamserve.thy ===== *)
theory Ipamserve
  imports Ipam
begin

text \<open>
  The promises of \<open>pkg/ipam\<close> over an etcd service that behaves as documented (\<open>kv_dir\<close>): the
  invariant of the package between two calls, what \<open>RequireIP\<close> and \<open>ReleaseIP\<close> do to the leases,
  and the behaviours an operator has to know (a lost lease, a double lease after a failed release,
  a search without end).  Examples run on the in-memory server.
\<close>

section \<open>The invariant between two calls\<close>

definition ipam_inv ::
  "'s ip_allocator \<Rightarrow> 's kv_store \<Rightarrow> ('s \<Rightarrow> tree) \<Rightarrow> string \<Rightarrow> 's \<Rightarrow> bool" where
  "ipam_inv a kv tree item s \<longleftrightarrow>
     al_ok a \<and> al_store a = etcd_store kv item \<and> ic_gateway (al_conf a) = [] \<and>
     es_ready kv tree item s \<and> lease_wf (es_leases kv tree item s) \<and> last_wf (es_last kv tree item s)"

lemma ipam_invI:
  assumes "ipam_inv a kv tree item s" and "es_ready kv tree item s'"
    and "lease_wf (es_leases kv tree item s')" and "last_wf (es_last kv tree item s')"
  shows "ipam_inv a kv tree item s'"
  using assms by (simp add: ipam_inv_def)

lemma ipam_invD:
  assumes "ipam_inv a kv tree item s"
  shows "al_ok a" and "al_store a = etcd_store kv item" and "ic_gateway (al_conf a) = []"
    and "es_ready kv tree item s" and "lease_wf (es_leases kv tree item s)"
    and "last_wf (es_last kv tree item s)"
  using assms by (simp_all add: ipam_inv_def)

text \<open>An example: the allocator that \<open>Init\<close> makes for 10.0.0.0/29, over the in-memory server.\<close>

definition demo_alc :: "mem ip_allocator" where
  "demo_alc = \<lparr>al_start = [10, 0, 0, 1], al_end = [10, 0, 0, 6],
     al_conf = new_ipam_conf ''vips'' \<lparr>net_ip = [10, 0, 0, 0], net_mask = [255, 255, 255, 248]\<rparr>,
     al_store = etcd_store demo_kv demo_item\<rparr>"

text \<open>Two leases, and the record of the last address.\<close>

definition demo_entries :: "(string \<times> string) list" where
  "demo_entries = [(''10.0.0.1'', ''l4-a''), (''10.0.0.2'', ''l4-b''), (last_ip_file, ''10.0.0.2'')]"

lemma demo_alc_ok: "al_ok demo_alc"
  by (simp add: demo_alc_def al_ok_def v4_num_def to4_def set_bytes_def)

lemma demo_alc_simps [simp]:
  "al_store demo_alc = etcd_store demo_kv demo_item" "ic_gateway (al_conf demo_alc) = []"
  by (simp_all add: demo_alc_def new_ipam_conf_def)

lemma v4_textI:
  "v4_string [a, b, c, d] = k \<Longrightarrow> v4_text k"
  unfolding v4_text_def by (intro exI [of _ "[a, b, c, d]"]) simp

lemma demo_texts:
  "v4_text ''10.0.0.1''" "v4_text ''10.0.0.2''" "v4_text ''10.0.0.3''"
  by (rule v4_textI [of 10 0 0 1] v4_textI [of 10 0 0 2] v4_textI [of 10 0 0 3], code_simp)+

lemma demo_lease_map:
  "es_leases demo_kv mem_view demo_item (demo_state demo_entries faults) =
     [''10.0.0.1'' \<mapsto> ''l4-a'', ''10.0.0.2'' \<mapsto> ''l4-b'']"
  by (auto simp: demo_leases demo_entries_def last_ip_file_def visible_name_def plain_name_def)

lemma demo_inv: "ipam_inv demo_alc demo_kv mem_view demo_item (demo_state demo_entries faults)"
  by (auto simp: ipam_inv_def demo_alc_ok demo_ready demo_last demo_lease_map lease_wf_def last_wf_def
      demo_texts split: if_splits)
    (simp add: demo_entries_def last_ip_file_def demo_texts)

lemma demo_l4_id: "l4_id ''l4-a''" "l4_id ''l4-b''" "l4_id ''l4-c''"
  by (simp_all add: l4_id_def)

section \<open>Runs of the example\<close>

lemma demo_v4:
  "parse_ip ''10.0.0.1'' = v4_in_v6_prefix @ [10, 0, 0, 1]"
  "parse_ip ''10.0.0.3'' = v4_in_v6_prefix @ [10, 0, 0, 3]"
  "ip_string (v4_in_v6_prefix @ [10, 0, 0, 1]) = ''10.0.0.1''"
  "ip_string (v4_in_v6_prefix @ [10, 0, 0, 3]) = ''10.0.0.3''"
proof -
  have t: "v4_string [10, 0, 0, 1] = ''10.0.0.1''" "v4_string [10, 0, 0, 3] = ''10.0.0.3''"
    by code_simp+
  from t parse_ip_v4_string [of "[10, 0, 0, 1]"] parse_ip_v4_string [of "[10, 0, 0, 3]"]
  show "parse_ip ''10.0.0.1'' = v4_in_v6_prefix @ [10, 0, 0, 1]"
    "parse_ip ''10.0.0.3'' = v4_in_v6_prefix @ [10, 0, 0, 3]" by simp_all
  from t show "ip_string (v4_in_v6_prefix @ [10, 0, 0, 1]) = ''10.0.0.1''"
    "ip_string (v4_in_v6_prefix @ [10, 0, 0, 3]) = ''10.0.0.3''"
    by (simp_all add: ip_string_v4)
qed

lemma demo_lock_free:
  "alc_get_exist demo_alc s uid = es_exist demo_kv demo_item s uid"
  "alc_release demo_alc s uid = es_release_by_id demo_kv demo_item s uid"
  by (simp_all add: alc_get_exist_def alc_release_def etcd_store_def split: prod.split)

lemmas demo_calls =
  lk_exists_def lk_get_def lk_put_def lk_delete_def lk_list_def get_store_key_def
  demo_kv_def demo_item_def mem_api_def

lemmas demo_server =
  mem_get_def mem_set_def mem_delete_def mem_fault_def demo_state_def key_not_found_def Let_def

lemmas demo_tree =
  keypath_def demo_dir_def demo_entries_def last_ip_file_def children_def child_node_def path_key_def
  visible_name_def plain_name_def etcd_codes upt_conv_Cons ancestors_def add_dirs_def prev_ok_def
  new_entry_def

lemma demo_exist:
  "es_exist demo_kv demo_item (demo_state demo_entries (False # fs)) ''l4-a''
     = (Inr (v4_in_v6_prefix @ [10, 0, 0, 1]), demo_state demo_entries fs)"
  by (simp add: es_exist_def kv_exist_def demo_calls) (simp add: demo_server, simp add: demo_tree demo_v4)

lemma demo_release:
  "es_release_by_id demo_kv demo_item (demo_state demo_entries [False, True]) ''l4-a''
     = (Inl (OtherError ''timeout''), demo_state demo_entries [])"
  by (simp add: es_release_by_id_def demo_exist es_release_def demo_v4)
    (simp add: kv_delete_def lk_delete_def get_store_key_def demo_kv_def mem_api_def,
      simp add: mem_delete_def mem_fault_def demo_state_def key_not_found_def)

definition demo_after :: "nat \<Rightarrow> nat \<Rightarrow> mem" where
  "demo_after i j =
     (demo_state demo_entries [])
       \<lparr>mem_tree := mem_tree (demo_state demo_entries []) @ [(demo_dir @ [''10.0.0.3''], File ''l4-a'' i)],
        mem_index := j\<rparr>"

lemma demo_free:
  "kv_is_exist demo_kv (demo_state demo_entries []) demo_item ''10.0.0.3''
     = (Inr False, demo_state demo_entries [])"
  by (simp add: kv_is_exist_def demo_calls) (simp add: demo_server, simp add: demo_tree key_not_found_def)

lemma demo_write:
  "\<exists>i j. kv_write demo_kv (demo_state demo_entries []) demo_item ''10.0.0.3'' ''l4-a'' = (Inr (), demo_after i j)"
  by (simp add: demo_after_def kv_write_def demo_calls) (simp add: demo_server, simp add: demo_tree)

lemma demo_write_last:
  "\<exists>s'. kv_write demo_kv (demo_after i j) demo_item last_ip_file w = (Inr (), s')"
  by (simp add: demo_after_def kv_write_def demo_calls) (simp add: demo_server, simp add: demo_tree)

lemma demo_reserve:
  "\<exists>s'. es_reserve demo_kv demo_item (demo_state demo_entries []) ''l4-a'' (v4_in_v6_prefix @ [10, 0, 0, 3])
     = (Inr True, s')"
proof -
  obtain i j where "kv_write demo_kv (demo_state demo_entries []) demo_item ''10.0.0.3'' ''l4-a''
      = (Inr (), demo_after i j)" using demo_write by blast
  with demo_write_last [of i j "''10.0.0.3''"] show ?thesis
    by (auto simp: es_reserve_def demo_free demo_v4)
qed

lemma demo_valid:
  "validate_range_ip (v4_in_v6_prefix @ [10, 0, 0, 3]) (ic_subnet (al_conf demo_alc))
     (al_start demo_alc) (al_end demo_alc) = None"
  by code_simp

section \<open>\<open>RequireIP\<close>\<close>

text \<open>\<open>RequireIP\<close> and \<open>ReleaseIP\<close> keep the invariant.\<close>

lemma require_ip_inv:
  assumes "kv_dir kv tree item" and "ipam_inv a kv tree item s" and "l4_id uid"
  shows "\<exists>r c' s'. require_ip a c s uid req = Some (r, c', s') \<and> ipam_inv a kv tree item s' \<and>
    require_post uid req (es_leases kv tree item s) c r (es_leases kv tree item s') c'"
proof -
  note D = ipam_invD [OF assms(2)]
  from reserving_store.require_ip_correct [OF kv_dir.reserving [OF assms(1)] D assms(3), of c req]
  obtain r c' s' where R: "require_ip a c s uid req = Some (r, c', s')" "es_ready kv tree item s'"
    "last_wf (es_last kv tree item s')"
    "require_post uid req (es_leases kv tree item s) c r (es_leases kv tree item s') c'" by blast
  with ipam_invI [OF assms(2)] show ?thesis by (auto simp: require_post_def)
qed

lemma release_ip_inv:
  assumes "kv_dir kv tree item" and "ipam_inv a kv tree item s" and "l4_id uid"
    and "release_ip a c s uid = (r, c', s')"
  shows "ipam_inv a kv tree item s'"
    and "others_same uid (es_leases kv tree item s) (es_leases kv tree item s')"
    and "one_lease (es_leases kv tree item s) \<Longrightarrow> r = Inr u \<Longrightarrow> es_leases kv tree item s' k \<noteq> Some uid"
    and "es_leases kv tree item s' = es_leases kv tree item s \<or>
      (\<exists>k. es_leases kv tree item s k = Some uid \<and> es_leases kv tree item s' = (es_leases kv tree item s)(k := None))"
proof -
  note D = ipam_invD [OF assms(2)]
  obtain q s1 where rel: "bs_release_by_id (etcd_store kv item) s uid = (q, s1)" by fastforce
  with assms(4) reserving_store.alc_lock_free(2) [OF kv_dir.reserving [OF assms(1)] D(2), of s uid]
  have s1: "s1 = s'" by (auto simp: release_ip_def split: sum.splits)
  note R = reserving_store.release_by_id_wf [OF kv_dir.reserving [OF assms(1)] D(4,5,6) assms(3) rel, unfolded s1]
  from R(3) D(5) have "lease_wf (es_leases kv tree item s')" by (auto simp: lease_wf_def split: if_splits)
  with ipam_invI [OF assms(2) R(1)] R(2) D(6) show "ipam_inv a kv tree item s'" by simp
  from R(3) show "es_leases kv tree item s' = es_leases kv tree item s \<or>
      (\<exists>k. es_leases kv tree item s k = Some uid \<and> es_leases kv tree item s' = (es_leases kv tree item s)(k := None))" .
  from R(3) show "others_same uid (es_leases kv tree item s) (es_leases kv tree item s')"
    using others_same_del by fastforce
  assume one: "one_lease (es_leases kv tree item s)" and r: "r = Inr u"
  from reserving_store.release_ip_correct [OF kv_dir.reserving [OF assms(1)] D(2,4,5,6) assms(3) one assms(4)] r
  show "es_leases kv tree item s' k \<noteq> Some uid" by simp
qed

text \<open>C1: \<open>RequireIP\<close> always returns, keeps the invariant of the package and its promise
  \<open>require_post\<close>: no lease of another service changes; an address it returns is a dotted IPv4
  address on lease to the caller, the requested one if the request names an address; a service that
  holds an address and asks for none keeps it; after an error the cache is as before.\<close>

theorem require_ip_promise:
  assumes "kv_dir kv tree item" and "ipam_inv a kv tree item s" and "l4_id uid"
  shows "\<exists>r c' s'. require_ip a c s uid req = Some (r, c', s') \<and> ipam_inv a kv tree item s' \<and>
    require_post uid req (es_leases kv tree item s) c r (es_leases kv tree item s') c'"
  by (rule require_ip_inv [OF assms])

lemma require_ip_promise_witness:
  "\<exists>r c' s'. require_ip demo_alc [] (demo_state demo_entries []) ''l4-c'' ''10.0.0.3'' = Some (r, c', s') \<and>
    ipam_inv demo_alc demo_kv mem_view demo_item s' \<and>
    require_post ''l4-c'' ''10.0.0.3''
      (es_leases demo_kv mem_view demo_item (demo_state demo_entries [])) [] r
      (es_leases demo_kv mem_view demo_item s') c'"
  by (rule require_ip_promise [OF demo.kv_dir_axioms demo_inv demo_l4_id(3)])

text \<open>C2: when every service holds at most one address before \<open>RequireIP\<close>, every service holds at most one
  after it, whatever the request and the outcome, provided that, where \<open>RequireIP\<close> calls \<open>Release\<close>, the
  call succeeds.  It calls it (\<open>require_releases\<close>) just when the service has an address and the request
  names another one; a first request, a repeated one and one that leaves the choice open need no
  proviso.\<close>

theorem require_ip_one_address:
  assumes "kv_dir kv tree item" and "ipam_inv a kv tree item s" and "l4_id uid"
    and "one_lease (es_leases kv tree item s)"
    and "require_releases a s uid req \<Longrightarrow> fst (alc_release a (snd (alc_get_exist a s uid)) uid) = Inr ()"
    and "require_ip a c s uid req = Some (r, c', s')"
  shows "one_lease (es_leases kv tree item s')"
  using reserving_store.require_ip_one_lease [OF kv_dir.reserving [OF assms(1)] ipam_invD [OF assms(2)]
      assms(3-6)] .

lemma require_ip_one_address_witness:
  "\<exists>r c' s'. require_ip demo_alc [] (demo_state demo_entries [False, False, False]) ''l4-a'' ''10.0.0.3'' = Some (r, c', s') \<and>
    one_lease (es_leases demo_kv mem_view demo_item s')"
proof -
  let ?s = "demo_state demo_entries [False, False, False]"
  obtain r c' s' where R: "require_ip demo_alc [] ?s ''l4-a'' ''10.0.0.3'' = Some (r, c', s')"
    using reserving_store.require_ip_correct [OF demo.reserving ipam_invD [OF demo_inv] demo_l4_id(1)]
    by blast
  have "one_lease (es_leases demo_kv mem_view demo_item ?s)"
    by (auto simp: one_lease_def demo_lease_map split: if_splits)
  moreover have "fst (alc_release demo_alc (snd (alc_get_exist demo_alc ?s ''l4-a'')) ''l4-a'') = Inr ()"
    by (simp add: demo_lock_free demo_exist es_release_by_id_def es_release_def demo_v4 kv_delete_def)
      (simp add: demo_calls, simp add: demo_server, simp add: demo_tree)
  ultimately show ?thesis
    using require_ip_one_address [OF demo.kv_dir_axioms demo_inv demo_l4_id(1) _ _ R] R by blast
qed

text \<open>without that proviso it is false: when the store times out on the release of the old
  address, \<open>RequireIP\<close> still allocates the requested one and reports success, and the service holds
  two addresses.\<close>

theorem require_ip_two_addresses:
  "\<exists>s s' c'. ipam_inv demo_alc demo_kv mem_view demo_item s \<and>
    one_lease (es_leases demo_kv mem_view demo_item s) \<and>
    require_ip demo_alc [] s ''l4-a'' ''10.0.0.3'' = Some (Inr ''10.0.0.3'', c', s') \<and>
    es_leases demo_kv mem_view demo_item s' ''10.0.0.1'' = Some ''l4-a'' \<and>
    es_leases demo_kv mem_view demo_item s' ''10.0.0.3'' = Some ''l4-a''"
proof -
  let ?s = "demo_state demo_entries [False, False, True]"
  let ?ip = "v4_in_v6_prefix @ [10, 0, 0, 3 :: byte]"
  obtain s' where res: "es_reserve demo_kv demo_item (demo_state demo_entries []) ''l4-a'' ?ip = (Inr True, s')"
    using demo_reserve by blast
  have "storable ?ip" by (rule storable_v4) simp
  from reserving_store.reserve_true [OF demo.reserving demo_ready this, of _ _ "''l4-a''" s'] res
  have L: "es_leases demo_kv mem_view demo_item s'
      = (es_leases demo_kv mem_view demo_item (demo_state demo_entries []))(''10.0.0.3'' \<mapsto> ''l4-a'')"
    by (simp add: etcd_store_def demo_v4)
  have get: "alc_get demo_alc (demo_state demo_entries []) ''l4-a'' ?ip True
      = Some (Inr (alc_config demo_alc [] ?ip), s')"
    using demo_valid res
    by (simp add: alc_get_def alc_get_requested_def alc_gateway_def etcd_store_def)
  have "require_ip demo_alc [] ?s ''l4-a'' ''10.0.0.3''
      = Some (Inr ''10.0.0.3'', [(''l4-a'', ''10.0.0.3'')], s')"
    by (simp add: require_ip_def demo_lock_free demo_exist demo_v4 demo_release get alc_config_def)
  moreover have "one_lease (es_leases demo_kv mem_view demo_item ?s)"
    by (auto simp: one_lease_def demo_lease_map split: if_splits)
  ultimately show ?thesis
    using demo_inv L by (intro exI [of _ ?s] exI [of _ s']) (auto simp: demo_lease_map)
qed

text \<open>C37: a request for an address that another service holds is refused and costs the caller the address
  it had: \<open>RequireIP\<close> fails, the old lease is gone, because it is released before the new address is
  asked for, and the cache is as before, so that it goes on showing what it showed.  Every other lease
  is kept.  This is for services that hold at most one address each, when the look-up of the old address
  succeeds and so does its release, where there is one.\<close>

theorem require_ip_taken_loses:
  assumes "kv_dir kv tree item" and "ipam_inv a kv tree item s" and "l4_id uid"
    and "one_lease (es_leases kv tree item s)"
    and "require_releases a s uid req \<Longrightarrow> fst (alc_release a (snd (alc_get_exist a s uid)) uid) = Inr ()"
    and "\<exists>x. fst (alc_get_exist a s uid) = Inr x"
    and "es_leases kv tree item s req = Some other" and "other \<noteq> uid"
  shows "\<exists>e s'. require_ip a c s uid req = Some (Inl e, c, s') \<and>
    (\<forall>k. es_leases kv tree item s' k =
       (if es_leases kv tree item s k = Some uid then None else es_leases kv tree item s k))"
  using reserving_store.require_ip_taken [OF kv_dir.reserving [OF assms(1)] ipam_invD [OF assms(2)]
      assms(3-8)] .

lemma require_ip_taken_loses_witness:
  "\<exists>e s'. require_ip demo_alc [(''l4-a'', ''10.0.0.1'')] (demo_state demo_entries [False, False, False])
      ''l4-a'' ''10.0.0.2'' = Some (Inl e, [(''l4-a'', ''10.0.0.1'')], s') \<and>
    es_leases demo_kv mem_view demo_item s' ''10.0.0.1'' = None"
proof -
  let ?s = "demo_state demo_entries [False, False, False]"
  have one: "one_lease (es_leases demo_kv mem_view demo_item ?s)"
    by (auto simp: one_lease_def demo_lease_map split: if_splits)
  have rel: "fst (alc_release demo_alc (snd (alc_get_exist demo_alc ?s ''l4-a'')) ''l4-a'') = Inr ()"
    by (simp add: demo_lock_free demo_exist es_release_by_id_def es_release_def demo_v4 kv_delete_def)
      (simp add: demo_calls, simp add: demo_server, simp add: demo_tree)
  have ex: "\<exists>x. fst (alc_get_exist demo_alc ?s ''l4-a'') = Inr x"
    by (simp add: demo_lock_free demo_exist)
  from require_ip_taken_loses [OF demo.kv_dir_axioms demo_inv demo_l4_id(1) one rel ex, of "''10.0.0.2''" "''l4-b''"]
  show ?thesis by (fastforce simp: demo_lease_map)
qed

section \<open>\<open>ReleaseIP\<close>\<close>

text \<open>C21: \<open>ReleaseIP\<close> keeps the invariant of the package and every lease of the other services; when
  it succeeds the service (which held at most one address) holds none and the cache has no entry for
  it; when it fails the cache is as before and at most a lease of the service itself is gone.\<close>

theorem release_ip_promise:
  assumes "kv_dir kv tree item" and "ipam_inv a kv tree item s" and "l4_id uid"
    and "one_lease (es_leases kv tree item s)" and "release_ip a c s uid = (r, c', s')"
  shows "ipam_inv a kv tree item s' \<and> others_same uid (es_leases kv tree item s) (es_leases kv tree item s') \<and>
    (case r of
       Inl e \<Rightarrow> c' = c \<and>
         (es_leases kv tree item s' = es_leases kv tree item s \<or>
          (\<exists>k. es_leases kv tree item s k = Some uid \<and>
             es_leases kv tree item s' = (es_leases kv tree item s)(k := None)))
     | Inr _ \<Rightarrow> map_of c' = (map_of c)(uid := None) \<and> (\<forall>k. es_leases kv tree item s' k \<noteq> Some uid))"
proof -
  note D = ipam_invD [OF assms(2)]
  from reserving_store.release_ip_correct [OF kv_dir.reserving [OF assms(1)] D(2,4,5,6) assms(3-5)]
  show ?thesis using ipam_invI [OF assms(2)] D(6) release_ip_inv(4) [OF assms(1-3,5)] by (auto split: sum.splits)
qed

lemma release_ip_promise_witness:
  "\<forall>k. es_leases demo_kv mem_view demo_item
      (snd (snd (release_ip demo_alc [] (demo_state demo_entries [False, False]) ''l4-a''))) k \<noteq> Some ''l4-a''"
proof -
  let ?s = "demo_state demo_entries [False, False]"
  have one: "one_lease (es_leases demo_kv mem_view demo_item ?s)"
    by (auto simp: one_lease_def demo_lease_map split: if_splits)
  obtain r s' where rel: "alc_release demo_alc ?s ''l4-a'' = (r, s')" by fastforce
  have "fst (alc_release demo_alc ?s ''l4-a'') = Inr ()"
    by (simp add: demo_lock_free demo_exist es_release_by_id_def es_release_def demo_v4 kv_delete_def)
      (simp add: demo_calls, simp add: demo_server, simp add: demo_tree)
  with rel have run: "release_ip demo_alc [] ?s ''l4-a'' = (Inr (), [], s')"
    by (simp add: release_ip_def)
  from release_ip_promise [OF demo.kv_dir_axioms demo_inv demo_l4_id(1) one run] run show ?thesis by simp
qed


end
