(* ===== verification/Ipaminit.thy ===== *)
theory Ipaminit
  imports Ipamserve
begin

text \<open>
  From the configuration to a running allocator: CIDR texts, \<open>Init\<close> of \<open>pkg/ipam/ipam.go\<close> with the
  directory it makes in the store, and the range it serves.
\<close>

section \<open>CIDR texts\<close>

lemma parse_cidr_text:
  assumes "length p = 4" and "n \<le> 32"
  shows "types_parse_cidr (cidr_text p n) = Some \<lparr>net_ip = v4_in_v6_prefix @ p, net_mask = cidr_mask n 4\<rparr>"
  using go_parse_cidr_text [OF assms] by (simp add: types_parse_cidr_def)

lemma ipnet_string_v4:
  assumes "to4 (net_ip n) \<noteq> []" and "net_mask n = cidr_mask ones 4" and "ones \<le> 32"
  shows "ipnet_string n = cidr_text (to4 (net_ip n)) ones"
proof -
  from assms(1) have len: "length (to4 (net_ip n)) = 4" by (rule to4_length)
  then have ip: "ip_string (to4 (net_ip n)) = v4_string (to4 (net_ip n))"
    using assms(1) by (simp add: ip_string_v4)
  have ne: "cidr_mask ones 4 \<noteq> []" using length_cidr_mask [of ones 4] by (metis list.size(3) zero_neq_numeral)
  have "simple_mask_length (cidr_mask ones 4) = Some ones"
    using assms(3) by (intro simple_mask_length_cidr) simp
  with assms len ip ne show ?thesis
    by (simp add: ipnet_string_def network_number_and_mask_def cidr_text_def Let_def)
qed

text \<open>an IPv4 network survives \<open>MarshalJSON\<close> and \<open>UnmarshalJSON\<close>: mask and host address (which
  \<open>net.ParseCIDR\<close> alone would clear) come back, the address in its 16-byte form.\<close>

theorem ipnet_roundtrip:
  assumes "to4 (net_ip n) \<noteq> []" and "net_mask n = cidr_mask ones 4" and "ones \<le> 32"
  shows "\<exists>m. ipnet_unmarshal (ipnet_marshal n) = Some m \<and> net_mask m = net_mask n \<and>
    ip_equal (net_ip m) (net_ip n) \<and> net_ip m = to16 (net_ip n)"
proof -
  from assms(1) have len: "length (to4 (net_ip n)) = 4" by (rule to4_length)
  let ?m = "\<lparr>net_ip = v4_in_v6_prefix @ to4 (net_ip n), net_mask = cidr_mask ones 4\<rparr>"
  have p: "ipnet_unmarshal (ipnet_marshal n) = Some ?m"
    using parse_cidr_text [OF len assms(3)] ipnet_string_v4 [OF assms]
    by (simp add: ipnet_unmarshal_def ipnet_marshal_def)
  have "to4 (v4_in_v6_prefix @ to4 (net_ip n)) \<noteq> []" using len assms(1) by simp
  then have "ip_equal (v4_in_v6_prefix @ to4 (net_ip n)) (net_ip n)"
    using assms(1) len by (subst ip_equal_to4) simp_all
  moreover have "v4_in_v6_prefix @ to4 (net_ip n) = to16 (net_ip n)"
  proof -
    obtain q where q: "to4 (net_ip n) = q" by simp
    from to4_cases [OF assms(1)] have "length q = 4" "net_ip n = q \<or> net_ip n = v4_in_v6_prefix @ q"
      unfolding q by blast+
    then show ?thesis unfolding q by (auto simp: to16_def)
  qed
  ultimately show ?thesis using p assms(2) by (intro exI [of _ ?m]) simp
qed

lemma ipnet_roundtrip_witness:
  "\<exists>m. ipnet_unmarshal (ipnet_marshal \<lparr>net_ip = [10, 1, 2, 3], net_mask = cidr_mask 20 4\<rparr>) = Some m \<and>
    net_mask m = [255, 255, 240, 0] \<and> ip_equal (net_ip m) [10, 1, 2, 3]"
proof -
  have "cidr_mask 20 4 = [255, 255, 240, 0]" by code_simp
  with ipnet_roundtrip [of "\<lparr>net_ip = [10, 1, 2, 3], net_mask = cidr_mask 20 4\<rparr>" 20]
  show ?thesis by auto
qed

section \<open>\<open>Init\<close>\<close>

context kv_dir
begin

lemma kv_write_dir_Inr:
  assumes "visible_name c" and "kv_write_dir kv s item c = (Inr u, s')"
  shows "set_at (tree s) (item_path kv item @ [c]) Directory (tree s')"
  using assms set_ok [OF plain(1) [OF assms(1)]] path [of c]
  by (fastforce simp: kv_write_dir_def lk_put_def new_entry_def visible_plain split: prod.splits sum.splits)

lemma etcd_new_Inr:
  assumes c: "visible_name c" and nf: "\<forall>v i. tree s (item_path kv item @ [c]) \<noteq> Some (File v i)"
    and run: "etcd_new kv s c item = (Inr r, s')"
  shows "r = item @ c @ ''/''" and "tree s' (item_path kv item @ [c]) = Some Directory"
    and "tree s' (item_path kv item @ [c] @ q) = (if q = [] then Some Directory else tree s (item_path kv item @ [c] @ q))"
proof -
  let ?d = "item_path kv item @ [c]"
  obtain b s1 where ex: "kv_is_exist kv s item c = (Inr b, s1)"
    using run by (auto simp: etcd_new_def split: prod.splits sum.splits)
  note E = kv_is_exist_Inr [OF c ex]
  have "r = item @ c @ ''/'' \<and> tree s' ?d = Some Directory \<and> (\<forall>q. q \<noteq> [] \<longrightarrow> tree s' (?d @ q) = tree s (?d @ q))"
  proof (cases b)
    case True
    with E(2) c nf have "tree s ?d = Some Directory"
      by (auto simp: dir_view_def) (metis entry.exhaust)
    with True E(1) run ex show ?thesis by (auto simp: etcd_new_def)
  next
    case False
    with run ex have w: "kv_write_dir kv s1 item c = (Inr (), s')" and r: "r = item @ c @ ''/''"
      by (auto simp: etcd_new_def split: prod.splits sum.splits)
    note W = kv_write_dir_Inr [OF c w]
    have "tree s' (?d @ q) = tree s (?d @ q)" if "q \<noteq> []" for q
      using set_at_other [OF W, of "?d @ q"] that E(1) prefix_length_less [of "?d @ q" ?d] by auto
    with W r show ?thesis by (auto simp: set_at_def)
  qed
  then show "r = item @ c @ ''/''" "tree s' ?d = Some Directory"
    "tree s' (item_path kv item @ [c] @ q) = (if q = [] then Some Directory else tree s (item_path kv item @ [c] @ q))"
    by auto
qed

lemma es_recover_tree: "es_recover kv item s = (r, s') \<Longrightarrow> tree s' = tree s"
  using lk_list_Inr(1) [OF plain(2)] lk_list_Inl [OF plain(2)]
  by (fastforce simp: es_recover_def kv_list_def get_store_key_def split: prod.splits sum.splits)

end

lemma item_path_snoc:
  assumes "item_ok kv d" and "visible_name c"
  shows "item_path kv (d @ c @ ''/'') = item_path kv d @ [c]"
proof -
  have "keypath (get_store_key kv d (c @ ''/'')) = item_path kv d @ keypath (c @ CHR ''/'' # [])"
    using store_key_path [OF assms(1)] by simp
  with assms(2) show ?thesis
    by (simp add: item_path_def get_store_key_def keypath_sep visible_plain)
qed

text \<open>What the directory of a network must look like before \<open>Init\<close>: no file in its place, no directory
  in place of the record of the last address.  Separately: the records that are already in it are
  well-formed, leases on dotted IPv4 addresses and such a last address.\<close>

definition net_dir_ok :: "'s kv_store \<Rightarrow> ('s \<Rightarrow> tree) \<Rightarrow> string \<Rightarrow> 's \<Rightarrow> bool" where
  "net_dir_ok kv tree item s \<longleftrightarrow>
     (\<forall>v i. tree s (item_path kv item) \<noteq> Some (File v i)) \<and>
     tree s (item_path kv item @ [last_ip_file]) \<noteq> Some Directory"

definition records_ok :: "'s kv_store \<Rightarrow> ('s \<Rightarrow> tree) \<Rightarrow> string \<Rightarrow> 's \<Rightarrow> bool" where
  "records_ok kv tree item s \<longleftrightarrow> lease_wf (es_leases kv tree item s) \<and> last_wf (es_last kv tree item s)"

lemma ipam_init_inv:
  assumes kvd: "kv_dir kv tree data_dir" and vis: "visible_name name"
    and p: "length p = 4" "n \<le> 30" "2 ^ 24 \<le> Suc (set_bytes p)"
    and room: "set_bytes p + 3 \<le> (set_bytes p div 2 ^ (32 - n) + 1) * 2 ^ (32 - n)"
    and dir: "net_dir_ok kv tree (data_dir @ name @ ''/'') s"
    and run: "ipam_init kv s name (cidr_text p n) = (Inr (a, cache), s')"
  shows "(ipam_inv a kv tree (data_dir @ name @ ''/'') s' \<longleftrightarrow> records_ok kv tree (data_dir @ name @ ''/'') s) \<and>
    es_leases kv tree (data_dir @ name @ ''/'') s' = es_leases kv tree (data_dir @ name @ ''/'') s \<and>
    (\<forall>ip. in_range a ip \<longleftrightarrow> to4 ip \<noteq> [] \<and> set_bytes p < v4_num ip \<and>
       v4_num ip + 2 \<le> (set_bytes p div 2 ^ (32 - n) + 1) * 2 ^ (32 - n))"
proof -
  let ?it = "data_dir @ name @ ''/''"
  let ?conf = "new_ipam_conf name \<lparr>net_ip = v4_in_v6_prefix @ p, net_mask = cidr_mask n 4\<rparr>"
  have iok: "item_ok kv data_dir" by (rule kv_dir.item [OF kvd])
  have ip: "item_path kv ?it = item_path kv data_dir @ [name]" by (rule item_path_snoc [OF iok vis])
  have iok2: "item_ok kv ?it"
    using store_key_plain [OF iok visible_plain [OF vis]] store_key_path [OF iok, of name] ip
    by (simp add: item_ok_def plain_key_def item_path_def get_store_key_def visible_plain vis)
  have svc: "etcd_service (kvs_api kv) tree" using kvd by (simp add: kv_dir_def)
  have kvd2: "kv_dir kv tree ?it"
    by (rule kv_dir.intro [OF svc kv_dir_axioms.intro [OF iok2]])
  have "types_parse_cidr (cidr_text p n) = Some \<lparr>net_ip = v4_in_v6_prefix @ p, net_mask = cidr_mask n 4\<rparr>"
    using p by (intro parse_cidr_text) simp_all
  with run obtain item' s1 where new: "etcd_new kv s name data_dir = (Inr item', s1)"
    and al: "new_ip_allocator ?conf (etcd_store kv item') = Inr a"
    and rec: "alc_recover a s1 = (Inr cache, s')"
    by (auto simp: ipam_init_def new_ipam_conf_def Let_def split: prod.splits sum.splits)
  have nf: "\<forall>v i. tree s (item_path kv data_dir @ [name]) \<noteq> Some (File v i)"
    using dir by (simp add: net_dir_ok_def ip)
  note N = kv_dir.etcd_new_Inr [OF kvd vis nf new]
  from N(1) have it: "item' = ?it" by simp
  have host: "to4 (v4_in_v6_prefix @ p) \<noteq> []" "v4_num (v4_in_v6_prefix @ p) = set_bytes p"
    using p by (auto simp: v4_num_def)
  have small: "Suc (set_bytes p) < 2 ^ 32"
  proof -
    have "(set_bytes p div 2 ^ (32 - n) + 1) * 2 ^ (32 - n) \<le> 2 ^ 32"
    proof -
      have "set_bytes p < 2 ^ n * 2 ^ (32 - n)"
        using set_bytes_bound [of p] p by (simp flip: power_add)
      then have "set_bytes p div 2 ^ (32 - n) + 1 \<le> 2 ^ n"
        by (simp add: less_mult_imp_div_less Suc_leI)
      then have "(set_bytes p div 2 ^ (32 - n) + 1) * 2 ^ (32 - n) \<le> 2 ^ n * 2 ^ (32 - n)"
        by (rule mult_right_mono) simp
      with p(2) show ?thesis by (simp flip: power_add)
    qed
    with room show ?thesis by linarith
  qed
  from new_ip_allocator_v4 [OF host(1) p(2), of ?conf name "etcd_store kv item'"] host p(3) small al it
  have A: "al_conf a = ?conf" "al_store a = etcd_store kv ?it" "to4 (al_start a) \<noteq> []" "to4 (al_end a) \<noteq> []"
    "v4_num (al_start a) = Suc (set_bytes p)"
    "v4_num (al_end a) + 2 = (set_bytes p div 2 ^ (32 - n) + 1) * 2 ^ (32 - n)" by auto
  have ok: "al_ok a" using A p(3) room by (simp add: al_ok_def)
  have "es_recover kv ?it s1 = (Inr cache, s')"
    using rec A(2) by (simp add: alc_recover_def etcd_store_def split: prod.splits)
  then have t: "tree s' = tree s1" by (rule kv_dir.es_recover_tree [OF kvd2])
  have sub: "tree s' (item_path kv ?it @ q) = tree s (item_path kv ?it @ q)" if "q \<noteq> []" for q
    using N(3) [of q] that by (simp add: t ip)
  have dirs': "tree s' (item_path kv ?it) = Some Directory" using N(2) by (simp add: t ip)
  have same: "es_leases kv tree ?it s' = es_leases kv tree ?it s" "es_last kv tree ?it s' = es_last kv tree ?it s"
    by (auto simp: es_leases_def es_last_def dir_view_def fun_eq_iff sub)
  have "ipam_inv a kv tree ?it s' \<longleftrightarrow> records_ok kv tree ?it s"
    using dir ok A dirs' by (simp add: ipam_inv_def net_dir_ok_def records_ok_def same es_ready_def sub new_ipam_conf_def)
  moreover have "in_range a ip \<longleftrightarrow> to4 ip \<noteq> [] \<and> set_bytes p < v4_num ip \<and>
       v4_num ip + 2 \<le> (set_bytes p div 2 ^ (32 - n) + 1) * 2 ^ (32 - n)" for ip
    using A(5,6) by (auto simp: in_range_def)
  ultimately show ?thesis using same by blast
qed

text \<open>C20: after a successful \<open>Init\<close> the invariant of the package holds if and only if the records that
  were already in the directory of the network are well-formed (\<open>records_ok\<close>: every lease is a dotted
  IPv4 address and so is the last address, as in a new directory or one that only this package
  wrote); the leases are as they were, and the allocator serves the addresses from the successor of
  the configured address up to the one before the broadcast address.  This is for a visible network
  name, a prefix length of at most 30, a configured IPv4 address of at least 0.255.255.255 (so that
  the first one served is at least 1.0.0.0) that is not among the last three addresses of its
  network (\<open>room\<close>: 10.0.0.254/24 is excluded, say), and a store with no file in place of the directory
  and no directory in place of the last address.\<close>

theorem ipam_init_promise:
  assumes kvd: "kv_dir kv tree data_dir" and vis: "visible_name name"
    and p: "length p = 4" "n \<le> 30" "2 ^ 24 \<le> Suc (set_bytes p)"
    and room: "set_bytes p + 3 \<le> (set_bytes p div 2 ^ (32 - n) + 1) * 2 ^ (32 - n)"
    and dir: "net_dir_ok kv tree (data_dir @ name @ ''/'') s"
    and run: "ipam_init kv s name (cidr_text p n) = (Inr (a, cache), s')"
  shows "(ipam_inv a kv tree (data_dir @ name @ ''/'') s' \<longleftrightarrow> records_ok kv tree (data_dir @ name @ ''/'') s) \<and>
    es_leases kv tree (data_dir @ name @ ''/'') s' = es_leases kv tree (data_dir @ name @ ''/'') s \<and>
    (\<forall>ip. in_range a ip \<longleftrightarrow> to4 ip \<noteq> [] \<and> set_bytes p < v4_num ip \<and>
       v4_num ip + 2 \<le> (set_bytes p div 2 ^ (32 - n) + 1) * 2 ^ (32 - n))"
  using assms by (rule ipam_init_inv)

section \<open>Two configurations\<close>

lemma demo_data_dir: "kv_dir demo_kv mem_view data_dir"
proof (rule kv_dir.intro)
  show "etcd_service (kvs_api demo_kv) mem_view"
    by (simp add: demo_kv_def mem.etcd_service_axioms)
  show "kv_dir_axioms demo_kv data_dir"
    by (rule kv_dir_axioms.intro)
      (simp add: item_ok_def demo_kv_def data_dir_def plain_key_def keypath_def plain_name_def)
qed

lemma vips_visible: "visible_name ''vips''"
  by (simp add: visible_name_def plain_name_def)

lemma demo_item_name:
  "data_dir @ ''vips'' @ ''/'' = demo_item" "data_dir @ ''vips/'' = demo_item"
  by (simp_all add: data_dir_def demo_item_def)

lemma demo_found:
  "kv_is_exist demo_kv (demo_state es []) data_dir ''vips'' = (Inr True, demo_state es [])"
  by (simp add: kv_is_exist_def demo_calls data_dir_def) (simp add: demo_server, simp add: demo_tree)

lemma demo_new: "etcd_new demo_kv (demo_state es []) ''vips'' data_dir = (Inr demo_item, demo_state es [])"
  by (simp add: etcd_new_def demo_found demo_item_name)

lemma demo_recover:
  "\<exists>c. es_recover demo_kv demo_item (demo_state es []) = (Inr c, demo_state es [])"
  by (simp add: es_recover_def kv_list_def demo_calls) (simp add: demo_server, simp add: demo_tree)

lemma demo_init:
  assumes "types_parse_cidr cidr = Some n"
    and "new_ip_allocator (new_ipam_conf ''vips'' n) (etcd_store demo_kv demo_item) = Inr a"
    and "al_store a = etcd_store demo_kv demo_item"
  shows "\<exists>c. ipam_init demo_kv (demo_state es []) ''vips'' cidr = (Inr (a, c), demo_state es [])"
proof -
  obtain c where "es_recover demo_kv demo_item (demo_state es []) = (Inr c, demo_state es [])"
    using demo_recover by blast
  then have "alc_recover a (demo_state es []) = (Inr c, demo_state es [])"
    using assms(3) by (simp add: alc_recover_def etcd_store_def)
  then show ?thesis using assms(1,2) by (simp add: ipam_init_def demo_new new_ipam_conf_def)
qed

lemma demo_init_run:
  "\<exists>a c. ipam_init demo_kv (demo_state es []) ''vips'' (cidr_text [10, 0, 0, 0] 29) = (Inr (a, c), demo_state es [])"
proof -
  let ?p = "[10, 0, 0, 0 :: byte]"
  let ?n = "\<lparr>net_ip = v4_in_v6_prefix @ ?p, net_mask = cidr_mask 29 4\<rparr>"
  have host: "to4 (v4_in_v6_prefix @ ?p) \<noteq> []" "v4_num (v4_in_v6_prefix @ ?p) = 167772160"
    by (simp_all add: v4_num_def set_bytes_def)
  have cidr: "types_parse_cidr (cidr_text ?p 29) = Some ?n" by (rule parse_cidr_text) simp_all
  from new_ip_allocator_v4 [OF host(1), of 29 _ "''vips''" "etcd_store demo_kv demo_item"] host
  obtain a where "new_ip_allocator (new_ipam_conf ''vips'' ?n) (etcd_store demo_kv demo_item) = Inr a"
    "al_store a = etcd_store demo_kv demo_item" by auto
  from demo_init [OF cidr this] show ?thesis by blast
qed

lemma demo_net_dir: "net_dir_ok demo_kv mem_view demo_item (demo_state demo_entries [])"
  using ipam_invD [OF demo_inv] by (simp add: net_dir_ok_def es_ready_def)

lemma demo_records: "records_ok demo_kv mem_view demo_item (demo_state demo_entries [])"
  using ipam_invD [OF demo_inv] by (simp add: records_ok_def)

lemma demo_room:
  "set_bytes [10, 0, 0, 0] + 3 \<le> (set_bytes [10, 0, 0, 0] div 2 ^ (32 - 29) + 1) * 2 ^ (32 - 29)"
  "2 ^ 24 \<le> Suc (set_bytes [10, 0, 0, 0])"
  by (simp_all add: set_bytes_def)

lemma ipam_init_promise_witness:
  "\<exists>a c. ipam_init demo_kv (demo_state demo_entries []) ''vips'' (cidr_text [10, 0, 0, 0] 29)
      = (Inr (a, c), demo_state demo_entries []) \<and>
    ipam_inv a demo_kv mem_view demo_item (demo_state demo_entries []) \<and>
    in_range a [10, 0, 0, 1] \<and> in_range a [10, 0, 0, 6] \<and> \<not> in_range a [10, 0, 0, 7]"
proof -
  obtain a c where run: "ipam_init demo_kv (demo_state demo_entries []) ''vips'' (cidr_text [10, 0, 0, 0] 29)
      = (Inr (a, c), demo_state demo_entries [])"
    using demo_init_run by blast
  from ipam_init_promise [OF demo_data_dir vips_visible _ _ demo_room(2,1) _ run] demo_net_dir demo_records run show ?thesis
    by (intro exI [of _ a] exI [of _ c]) (simp add: demo_item_name v4_num_def, simp add: set_bytes_def)
qed

text \<open>Init over 10.0.0.255/24, and a first request on the empty store.\<close>

definition demo_255 :: "mem ip_allocator" where
  "demo_255 = \<lparr>al_start = [10, 0, 1, 0], al_end = [10, 0, 0, 254],
     al_conf = new_ipam_conf ''vips''
       \<lparr>net_ip = v4_in_v6_prefix @ [10, 0, 0, 255], net_mask = cidr_mask 24 4\<rparr>,
     al_store = etcd_store demo_kv demo_item\<rparr>"

lemma demo_255_new:
  "new_ip_allocator (new_ipam_conf ''vips''
      \<lparr>net_ip = v4_in_v6_prefix @ [10, 0, 0, 255], net_mask = cidr_mask 24 4\<rparr>)
    (etcd_store demo_kv demo_item) = Inr demo_255"
proof -
  have "mask_size (cidr_mask 24 4) = (24, 32)" using mask_size_cidr [of 24 4] by simp
  moreover have "network_range \<lparr>net_ip = v4_in_v6_prefix @ [10, 0, 0, 255], net_mask = cidr_mask 24 4\<rparr>
      = Inr (v4_in_v6_prefix @ [10, 0, 0, 255], [10, 0, 0, 254])" by code_simp
  moreover have "next_ip (v4_in_v6_prefix @ [10, 0, 0, 255]) = [10, 0, 1, 0]"
    by (simp add: next_ip_def ip_to_int_def int_to_ip_def set_bytes_def nat_bytes.simps)
  ultimately show ?thesis by (simp add: new_ip_allocator_def new_ipam_conf_def demo_255_def Let_def)
qed

lemma demo_255_text: "ip_string [10, 0, 1, 0] = ''10.0.1.0''"
  by code_simp

lemma demo_empty_exist: "es_exist demo_kv demo_item (demo_state [] []) uid = (Inr [], demo_state [] [])"
  by (simp add: es_exist_def kv_exist_def demo_calls) (simp add: demo_server, simp add: demo_tree)

lemma demo_empty_last:
  "es_last_reserved_ip demo_kv demo_item (demo_state [] []) = (Inl ErrKeyNotFound, demo_state [] [])"
  by (simp add: es_last_reserved_ip_def kv_read_def demo_calls)
    (simp add: demo_server, simp add: demo_tree key_not_found_def)

lemma demo_empty_free:
  "kv_is_exist demo_kv (demo_state [] []) demo_item ''10.0.1.0'' = (Inr False, demo_state [] [])"
  by (simp add: kv_is_exist_def demo_calls) (simp add: demo_server, simp add: demo_tree key_not_found_def)

definition demo_empty_after :: "nat \<Rightarrow> nat \<Rightarrow> mem" where
  "demo_empty_after i j =
     (demo_state [] [])
       \<lparr>mem_tree := mem_tree (demo_state [] []) @ [(demo_dir @ [''10.0.1.0''], File ''l4-c'' i)],
        mem_index := j\<rparr>"

lemma demo_empty_write:
  "\<exists>i j. kv_write demo_kv (demo_state [] []) demo_item ''10.0.1.0'' ''l4-c'' = (Inr (), demo_empty_after i j)"
  by (simp add: demo_empty_after_def kv_write_def demo_calls)
    (simp add: demo_server, simp add: keypath_def demo_dir_def last_ip_file_def, simp add: ancestors_def,
      simp add: add_dirs_def, simp add: prev_ok_def new_entry_def)

lemma demo_last_key: "keypath ''/lb/ipam/vips/last_reserved_ip'' = demo_dir @ [''last_reserved_ip'']"
  by (simp add: keypath_def demo_dir_def)

lemma ancestors4: "ancestors [a, b, c, d] = [[a], [a, b], [a, b, c]]"
  by (simp add: ancestors_def upt_conv_Cons)

lemma demo_empty_write_last:
  "\<exists>s'. kv_write demo_kv (demo_empty_after i j) demo_item last_ip_file w = (Inr (), s')"
  by (simp add: kv_write_def demo_calls last_ip_file_def)
    (simp add: mem_set_def demo_last_key mem_fault_def demo_empty_after_def demo_state_def demo_dir_def,
      simp add: ancestors4 prev_ok_def Let_def)

lemma demo_empty_reserve:
  "\<exists>s'. es_reserve demo_kv demo_item (demo_state [] []) ''l4-c'' [10, 0, 1, 0] = (Inr True, s')"
proof -
  obtain i j where "kv_write demo_kv (demo_state [] []) demo_item ''10.0.1.0'' ''l4-c''
      = (Inr (), demo_empty_after i j)" using demo_empty_write by blast
  with demo_empty_write_last [of i j "''10.0.1.0''"] show ?thesis
    by (auto simp: es_reserve_def demo_empty_free demo_255_text)
qed

text \<open>the address of the configuration, not the network, is where the range starts: after \<open>Init\<close>
  with 10.0.0.255/24 the first address handed out is 10.0.1.0, which is not in the network.\<close>

theorem ipam_init_outside_subnet:
  "\<exists>a c s' c'. ipam_init demo_kv (demo_state [] []) ''vips'' (cidr_text [10, 0, 0, 255] 24)
      = (Inr (a, c), demo_state [] []) \<and>
    require_ip a c (demo_state [] []) ''l4-c'' [] = Some (Inr ''10.0.1.0'', c', s') \<and>
    \<not> net_contains (ic_subnet (al_conf a)) (parse_ip ''10.0.1.0'')"
proof -
  have cidr: "types_parse_cidr (cidr_text [10, 0, 0, 255] 24)
      = Some \<lparr>net_ip = v4_in_v6_prefix @ [10, 0, 0, 255], net_mask = cidr_mask 24 4\<rparr>"
    by (rule parse_cidr_text) simp_all
  have st: "al_store demo_255 = etcd_store demo_kv demo_item" by (simp add: demo_255_def)
  obtain c where init: "ipam_init demo_kv (demo_state [] []) ''vips'' (cidr_text [10, 0, 0, 255] 24)
      = (Inr (demo_255, c), demo_state [] [])"
    using demo_init [OF cidr demo_255_new st] by blast
  obtain s' where res: "es_reserve demo_kv demo_item (demo_state [] []) ''l4-c'' [10, 0, 1, 0] = (Inr True, s')"
    using demo_empty_reserve by blast
  have ex: "alc_get_exist demo_255 (demo_state [] []) ''l4-c'' = (Inr [], demo_state [] [])"
    by (simp add: alc_get_exist_def st etcd_store_def demo_empty_exist)
  have rng: "get_search_range demo_255 (demo_state [] [])
      = (([10, 0, 1, 0], [10, 0, 0, 254]), demo_state [] [])"
    by (simp add: get_search_range_def st etcd_store_def demo_empty_last) (simp add: demo_255_def)
  have loop: "get_loop demo_255 [] ''l4-c'' [10, 0, 1, 0] [10, 0, 0, 254] (demo_state [] [])
      = Some (Inr (Some [10, 0, 1, 0]), s')"
    by (subst get_loop.simps) (simp add: st etcd_store_def res)
  have gw: "alc_gateway demo_255 True = []"
    by (simp add: alc_gateway_def demo_255_def new_ipam_conf_def)
  have "alc_get demo_255 (demo_state [] []) ''l4-c'' [] True
      = Some (Inr (alc_config demo_255 [] [10, 0, 1, 0]), s')"
  proof -
    have "bs_lock (al_store demo_255) x = (Inr (), x)" "bs_unlock (al_store demo_255) x = (Inr (), x)" for x
      by (simp_all add: st etcd_store_def)
    then show ?thesis by (simp add: alc_get_def gw alc_get_search_def rng loop)
  qed
  moreover have "parse_ip [] = []" by (simp add: parse_ip_def)
  ultimately have "require_ip demo_255 c (demo_state [] []) ''l4-c'' []
      = Some (Inr ''10.0.1.0'', AList.update ''l4-c'' ''10.0.1.0'' c, s')"
    by (simp add: require_ip_def ex alc_config_def demo_255_text Let_def)
  moreover have "\<not> net_contains (ic_subnet (al_conf demo_255)) (parse_ip ''10.0.1.0'')"
  proof -
    have "\<not> net_contains \<lparr>net_ip = v4_in_v6_prefix @ [10, 0, 0, 255], net_mask = cidr_mask 24 4\<rparr>
        (v4_in_v6_prefix @ [10, 0, 1, 0])" by code_simp
    moreover have "parse_ip ''10.0.1.0'' = v4_in_v6_prefix @ [10, 0, 1, 0]"
    proof -
      have "v4_string [10, 0, 1, 0] = ''10.0.1.0''" by code_simp
      with parse_ip_v4_string [of "[10, 0, 1, 0]"] show ?thesis by simp
    qed
    ultimately show ?thesis by (simp add: demo_255_def new_ipam_conf_def)
  qed
  ultimately show ?thesis using init by blast
qed

end
