(* ===== verification/Utils.thy ===== *)
theory Utils
  imports Prelude
begin

text \<open>
  \<open>pkg/utils/utils.go\<close>, over a model of what it uses of the operating system: files, directories
  and symbolic links by path, paths that cannot be accessed, and the shell, whose outcome for a
  command depends on the commands run before it.
\<close>

section \<open>The operating system\<close>

datatype fnode = Regular string | Folder | Link string

datatype os_error = NotExist | Denied | TooManyLinks | WrongKind | ShellError | Message string

text \<open>A command that could not be started, or its exit status.\<close>

datatype sh_outcome = NotStarted | Exit nat

record os =
  os_fs :: "string \<Rightarrow> fnode option"
  os_denied :: "string \<Rightarrow> bool"
  os_shell :: "string list \<Rightarrow> string \<Rightarrow> sh_outcome"
  os_ran :: "string list"

text \<open>Linux follows at most 40 links.\<close>

fun resolve :: "nat \<Rightarrow> os \<Rightarrow> string \<Rightarrow> os_error + (string \<times> fnode)" where
  "resolve 0 w p = Inl TooManyLinks"
| "resolve (Suc n) w p =
     (if os_denied w p then Inl Denied
      else case os_fs w p of
             None \<Rightarrow> Inl NotExist
           | Some (Link t) \<Rightarrow> resolve n w t
           | Some nd \<Rightarrow> Inr (p, nd))"

definition max_links :: nat where
  "max_links = 41"

definition os_stat :: "os \<Rightarrow> string \<Rightarrow> os_error option" where
  "os_stat w p = (case resolve max_links w p of Inl e \<Rightarrow> Some e | Inr _ \<Rightarrow> None)"

definition os_readlink :: "os \<Rightarrow> string \<Rightarrow> os_error + string" where
  "os_readlink w p =
     (if os_denied w p then Inl Denied
      else case os_fs w p of
             None \<Rightarrow> Inl NotExist
           | Some (Link t) \<Rightarrow> Inr t
           | Some _ \<Rightarrow> Inl WrongKind)"

definition os_read_file :: "os \<Rightarrow> string \<Rightarrow> os_error + string" where
  "os_read_file w p =
     (case resolve max_links w p of
        Inl e \<Rightarrow> Inl e
      | Inr (q, Regular c) \<Rightarrow> Inr c
      | Inr _ \<Rightarrow> Inl WrongKind)"

definition parent_path :: "string \<Rightarrow> string" where
  "parent_path p = rev (tl (dropWhile (\<lambda>c. c \<noteq> CHR ''/'') (rev p)))"

text \<open>\<open>ioutil.WriteFile\<close> replaces the content of a file or makes one in a directory that exists.\<close>

definition os_write_file :: "os \<Rightarrow> string \<Rightarrow> string \<Rightarrow> os_error option \<times> os" where
  "os_write_file w p c =
     (case resolve max_links w p of
        Inr (q, Regular _) \<Rightarrow> (None, w\<lparr>os_fs := (os_fs w)(q \<mapsto> Regular c)\<rparr>)
      | Inr _ \<Rightarrow> (Some WrongKind, w)
      | Inl NotExist \<Rightarrow>
          if os_fs w p = None \<and> os_fs w (parent_path p) = Some Folder \<and> \<not> os_denied w (parent_path p)
          then (None, w\<lparr>os_fs := (os_fs w)(p \<mapsto> Regular c)\<rparr>)
          else (Some NotExist, w)
      | Inl e \<Rightarrow> (Some e, w))"

definition os_remove :: "os \<Rightarrow> string \<Rightarrow> os_error option \<times> os" where
  "os_remove w p =
     (if os_denied w p then (Some Denied, w)
      else case os_fs w p of
             None \<Rightarrow> (Some NotExist, w)
           | Some Folder \<Rightarrow> (Some WrongKind, w)
           | Some _ \<Rightarrow> (None, w\<lparr>os_fs := (os_fs w)(p := None)\<rparr>))"

section \<open>utils.go\<close>

definition shell_out :: "os \<Rightarrow> string \<Rightarrow> os_error option \<times> os" where
  "shell_out w cmd =
     (case os_shell w (os_ran w) cmd of
        NotStarted \<Rightarrow> (Some ShellError, w)
      | Exit n \<Rightarrow> (if n = 0 then None else Some ShellError, w\<lparr>os_ran := os_ran w @ [cmd]\<rparr>))"

definition is_file_exist :: "os \<Rightarrow> string \<Rightarrow> bool \<times> os_error option" where
  "is_file_exist w name =
     (case os_stat w name of None \<Rightarrow> (True, None) | Some e \<Rightarrow> (False, Some e))"

definition get_pid_by_file :: "os \<Rightarrow> string \<Rightarrow> os_error + string" where
  "get_pid_by_file w pid_file =
     (case os_read_file w pid_file of
        Inl e \<Rightarrow> Inl e
      | Inr data \<Rightarrow> Inr (filter (\<lambda>c. c \<noteq> CHR 10) data))"

definition get_pid :: "os \<Rightarrow> string \<Rightarrow> string \<Rightarrow> os_error + string" where
  "get_pid w pid_file cmd =
     (case get_pid_by_file w pid_file of
        Inl e \<Rightarrow> Inl e
      | Inr pid \<Rightarrow>
          (let p = ''/proc/'' @ pid @ ''/exe''
           in case snd (is_file_exist w p) of
                Some e \<Rightarrow> Inl e
              | None \<Rightarrow>
                  (case os_readlink w p of
                     Inl e \<Rightarrow> Inl e
                   | Inr exe \<Rightarrow>
                       if exe \<noteq> cmd then Inl (Message ''Thread exec is wrong'') else Inr pid)))"

definition check_thread_exist :: "os \<Rightarrow> string \<Rightarrow> string \<Rightarrow> bool" where
  "check_thread_exist w pid_file cmd =
     (case get_pid w pid_file cmd of Inl _ \<Rightarrow> False | Inr pid \<Rightarrow> pid \<noteq> [])"

fun is_element_exist :: "string \<Rightarrow> string list \<Rightarrow> bool" where
  "is_element_exist s [] = False"
| "is_element_exist s (e # l) = (if s = e then True else is_element_exist s l)"

section \<open>Lemmas\<close>

lemma is_element_exist_iff [simp]: "is_element_exist s l \<longleftrightarrow> s \<in> set l"
  by (induction l) auto

lemma os_stat_write: "os_write_file w p c = (None, w') \<Longrightarrow> os_fs w p = None \<Longrightarrow> os_stat w' p = None"
  by (auto simp: os_write_file_def os_stat_def max_links_def eval_nat_numeral
      split: sum.splits prod.splits fnode.splits os_error.splits if_splits)

text \<open>A pid is returned only for a live process of the expected executable.\<close>

lemma get_pid_Inr:
  "get_pid w pf cmd = Inr pid \<longleftrightarrow>
     (\<exists>data. os_read_file w pf = Inr data \<and> pid = filter (\<lambda>c. c \<noteq> CHR 10) data) \<and>
     os_fs w (''/proc/'' @ pid @ ''/exe'') = Some (Link cmd) \<and>
     os_stat w (''/proc/'' @ pid @ ''/exe'') = None \<and> \<not> os_denied w (''/proc/'' @ pid @ ''/exe'')"
  by (auto simp: get_pid_def get_pid_by_file_def is_file_exist_def os_readlink_def Let_def
      split: sum.splits option.splits fnode.splits if_splits)

text \<open>\<open>CheckThreadExist\<close> says yes exactly when the pid file can be read, the pid in it (without
  line breaks) is not empty, and \<open>/proc/<pid>/exe\<close> is a link to the command that resolves.\<close>

theorem check_thread_exist_iff:
  "check_thread_exist w pf cmd \<longleftrightarrow>
     (\<exists>data pid. os_read_file w pf = Inr data \<and> pid = filter (\<lambda>c. c \<noteq> CHR 10) data \<and> pid \<noteq> [] \<and>
        os_fs w (''/proc/'' @ pid @ ''/exe'') = Some (Link cmd) \<and>
        os_stat w (''/proc/'' @ pid @ ''/exe'') = None \<and>
        \<not> os_denied w (''/proc/'' @ pid @ ''/exe''))"
proof (cases "get_pid w pf cmd")
  case (Inl e)
  then have "\<nexists>pid. get_pid w pf cmd = Inr pid" by simp
  with Inl get_pid_Inr [of w pf cmd] show ?thesis by (auto simp: check_thread_exist_def)
next
  case (Inr pid)
  with get_pid_Inr [of w pf cmd pid] show ?thesis by (auto simp: check_thread_exist_def)
qed

end
