(* ===== verification/Conf.thy ===== *)
theory Conf
  imports Utils Gonet
begin

text \<open>
  \<open>pkg/conf/conf.go\<close>: the configuration records, their checks in the order of the code, and the
  package variable \<open>laddr\<close>, the map from the names of local address groups to networks that
  \<open>LocalAddrConf.CheckValid\<close> fills, as an association list.  \<open>GetLAddrGroupName\<close> ranges over that
  map, so it takes the order of the walk.
\<close>

section \<open>Records\<close>

record keepalived_conf =
  kc_conf_dir :: string
  kc_reload_time :: int
  kc_misc_script :: string

record lvs_stats_conf =
  sc_result_path :: string
  sc_port :: int

record local_addr_conf =
  la_name :: string
  la_dest_cidr :: string

record l4_conf =
  l4_subnet_name :: string
  l4_subnet_cidr :: string
  l4_port_base :: int
  l4_kconf :: keepalived_conf
  l4_stats :: lvs_stats_conf
  l4_laddr :: "local_addr_conf list"

record lb_conf =
  lc_type :: string
  lc_store_prefix :: string
  lc_cluster_name :: string
  lc_catalog :: string
  lc_conf_dir :: string
  lc_l4 :: l4_conf

type_synonym laddr_map = "(string \<times> ipnet) list"

section \<open>Checks\<close>

definition keepalived_check :: "os \<Rightarrow> keepalived_conf \<Rightarrow> string option" where
  "keepalived_check w k =
     (if kc_reload_time k \<le> 0 then Some ''reloadPeriod is invalid''
      else if snd (is_file_exist w (kc_misc_script k)) \<noteq> None
           then Some ''keepalived script path is invalid''
      else None)"

definition lvs_stats_check :: "lvs_stats_conf \<Rightarrow> string option" where
  "lvs_stats_check s =
     (if \<not> has_prefix (sc_result_path s) ''/'' then Some ''stats path is invalid''
      else if sc_port s > 65535 \<or> sc_port s \<le> 0 then Some ''stats port is invalid''
      else None)"

definition local_addr_check :: "local_addr_conf \<Rightarrow> laddr_map \<Rightarrow> string option \<times> laddr_map" where
  "local_addr_check l m =
     (if la_name l = [] then (Some ''lb addr name is required'', m)
      else case go_parse_cidr (la_dest_cidr l) of
             None \<Rightarrow> (Some ''lb addr dest cidr is invalid'', m)
           | Some (ip, cidr) \<Rightarrow> (None, AList.update (la_name l) cidr m))"

fun local_addrs_check :: "local_addr_conf list \<Rightarrow> laddr_map \<Rightarrow> string option \<times> laddr_map" where
  "local_addrs_check [] m = (None, m)"
| "local_addrs_check (l # ls) m =
     (case local_addr_check l m of
        (Some e, m') \<Rightarrow> (Some e, m')
      | (None, m') \<Rightarrow> local_addrs_check ls m')"

definition l4_check :: "os \<Rightarrow> l4_conf \<Rightarrow> laddr_map \<Rightarrow> string option \<times> laddr_map" where
  "l4_check w l m =
     (if l4_subnet_name l = [] then (Some ''lb subnet name is empty'', m)
      else if go_parse_cidr (l4_subnet_cidr l) = None then (Some ''lb subnet cidr is invalid'', m)
      else if l4_port_base l > 65535 \<or> l4_port_base l < 5000 then (Some ''lb port base is invalid'', m)
      else case keepalived_check w (l4_kconf l) of
             Some e \<Rightarrow> (Some e, m)
           | None \<Rightarrow>
               (case lvs_stats_check (l4_stats l) of
                  Some e \<Rightarrow> (Some e, m)
                | None \<Rightarrow>
                    (if l4_laddr l = [] then (Some ''lb laddr is required'', m)
                     else local_addrs_check (l4_laddr l) m)))"

definition conf_lb_type :: "string list" where
  "conf_lb_type = [''l4'', ''l7'']"

definition lb_conf_check :: "os \<Rightarrow> lb_conf \<Rightarrow> laddr_map \<Rightarrow> string option \<times> laddr_map" where
  "lb_conf_check w c m =
     (if \<not> is_element_exist (lc_type c) conf_lb_type then (Some ''lb type is invalid'', m)
      else if \<not> has_prefix (lc_store_prefix c) ''/'' then (Some ''lb store is invalid'', m)
      else if lc_cluster_name c = [] then (Some ''cluster name is empty'', m)
      else if snd (is_file_exist w (lc_conf_dir c)) \<noteq> None then (Some ''lb conf path is invalid'', m)
      else if lc_type c = ''l4'' then l4_check w (lc_l4 c) m
      else (None, m))"

text \<open>The values that \<open>Init\<close> puts in place before the file is decoded over them.\<close>

definition conf_defaults :: lb_conf where
  "conf_defaults =
     \<lparr>lc_type = [], lc_store_prefix = [], lc_cluster_name = [], lc_catalog = [], lc_conf_dir = [],
      lc_l4 = \<lparr>l4_subnet_name = [], l4_subnet_cidr = [], l4_port_base = 10000,
        l4_kconf = \<lparr>kc_conf_dir = [], kc_reload_time = 5, kc_misc_script = []\<rparr>,
        l4_stats = \<lparr>sc_result_path = ''/var/run/lvs_stats'', sc_port = 33611\<rparr>,
        l4_laddr = []\<rparr>\<rparr>"

definition get_store_prefix :: "lb_conf \<Rightarrow> string" where
  "get_store_prefix c = lc_store_prefix c"

fun first_containing :: "ip \<Rightarrow> laddr_map \<Rightarrow> string option" where
  "first_containing ip [] = None"
| "first_containing ip ((k, v) # m) = (if net_contains v ip then Some k else first_containing ip m)"

definition get_laddr_group_name ::
  "(string \<times> ipnet) range_order \<Rightarrow> laddr_map \<Rightarrow> string \<Rightarrow> string option" where
  "get_laddr_group_name ord m ip = first_containing (parse_ip ip) (ord m)"

section \<open>Lemmas\<close>

lemma first_containing_Some:
  "first_containing ip m = Some k \<Longrightarrow> \<exists>v. (k, v) \<in> set m \<and> net_contains v ip"
  by (induction m) (auto split: if_splits)

lemma first_containing_None:
  "first_containing ip m = None \<longleftrightarrow> (\<forall>(k, v) \<in> set m. \<not> net_contains v ip)"
  by (induction m) (auto split: if_splits)

text \<open>The groups a list of entries makes: the last entry of a name counts.\<close>

definition add_group :: "local_addr_conf \<Rightarrow> (string \<Rightarrow> ipnet option) \<Rightarrow> string \<Rightarrow> ipnet option" where
  "add_group l f = f(la_name l := map_option snd (go_parse_cidr (la_dest_cidr l)))"

definition laddr_groups :: "local_addr_conf list \<Rightarrow> (string \<Rightarrow> ipnet option)" where
  "laddr_groups ls = fold add_group ls Map.empty"

lemma local_addrs_check_ok:
  "local_addrs_check ls m = (None, m') \<Longrightarrow>
     (\<forall>l \<in> set ls. la_name l \<noteq> [] \<and> go_parse_cidr (la_dest_cidr l) \<noteq> None) \<and>
     map_of m' = fold add_group ls (map_of m)"
proof (induction ls arbitrary: m)
  case Nil
  then show ?case by simp
next
  case (Cons l ls)
  from Cons.prems obtain n where n: "local_addr_check l m = (None, n)" "local_addrs_check ls n = (None, m')"
    by (auto split: prod.splits option.splits)
  from n(1) obtain ip cidr where c: "la_name l \<noteq> []" "go_parse_cidr (la_dest_cidr l) = Some (ip, cidr)"
    "n = AList.update (la_name l) cidr m"
    by (auto simp: local_addr_check_def split: if_splits option.splits)
  from c have "add_group l (map_of m) = map_of n" by (simp add: add_group_def)
  then have "fold add_group (l # ls) (map_of m) = fold add_group ls (map_of n)"
    by (simp only: fold_Cons comp_apply)
  with Cons.IH [OF n(2)] c(1,2) show ?case by simp
qed

lemma local_addrs_check_complete:
  "(\<forall>l \<in> set ls. la_name l \<noteq> [] \<and> go_parse_cidr (la_dest_cidr l) \<noteq> None) \<Longrightarrow>
     \<exists>m'. local_addrs_check ls m = (None, m')"
proof (induction ls arbitrary: m)
  case Nil
  then show ?case by simp
next
  case (Cons l ls)
  then show ?case by (auto simp: local_addr_check_def)
qed

definition l4_conf_valid :: "os \<Rightarrow> lb_conf \<Rightarrow> bool" where
  "l4_conf_valid w c \<longleftrightarrow>
     has_prefix (lc_store_prefix c) ''/'' \<and> lc_cluster_name c \<noteq> [] \<and> os_stat w (lc_conf_dir c) = None \<and>
     l4_subnet_name (lc_l4 c) \<noteq> [] \<and> go_parse_cidr (l4_subnet_cidr (lc_l4 c)) \<noteq> None \<and>
     5000 \<le> l4_port_base (lc_l4 c) \<and> l4_port_base (lc_l4 c) \<le> 65535 \<and>
     0 < kc_reload_time (l4_kconf (lc_l4 c)) \<and> os_stat w (kc_misc_script (l4_kconf (lc_l4 c))) = None \<and>
     has_prefix (sc_result_path (l4_stats (lc_l4 c))) ''/'' \<and>
     0 < sc_port (l4_stats (lc_l4 c)) \<and> sc_port (l4_stats (lc_l4 c)) \<le> 65535 \<and>
     l4_laddr (lc_l4 c) \<noteq> [] \<and>
     (\<forall>l \<in> set (l4_laddr (lc_l4 c)). la_name l \<noteq> [] \<and> go_parse_cidr (la_dest_cidr l) \<noteq> None)"

lemma is_file_exist_stat [simp]: "snd (is_file_exist w p) = os_stat w p"
  by (simp add: is_file_exist_def split: option.splits)

lemma l4_check_cases:
  "l4_conf_valid w c \<Longrightarrow> l4_check w (lc_l4 c) m = local_addrs_check (l4_laddr (lc_l4 c)) m"
  by (auto simp: l4_conf_valid_def l4_check_def keepalived_check_def lvs_stats_check_def)

lemma l4_checked:
  assumes "lc_type c = ''l4''"
  shows "(fst (lb_conf_check w c []) = None \<longleftrightarrow> l4_conf_valid w c) \<and>
    (l4_conf_valid w c \<longrightarrow> map_of (snd (lb_conf_check w c [])) = laddr_groups (l4_laddr (lc_l4 c)))"
proof -
  let ?ls = "l4_laddr (lc_l4 c)"
  have valid: "l4_conf_valid w c" if "fst (lb_conf_check w c []) = None"
  proof -
    from that assms have "fst (local_addrs_check ?ls []) = None"
      and rest: "has_prefix (lc_store_prefix c) ''/'' \<and> lc_cluster_name c \<noteq> [] \<and> os_stat w (lc_conf_dir c) = None \<and>
     l4_subnet_name (lc_l4 c) \<noteq> [] \<and> go_parse_cidr (l4_subnet_cidr (lc_l4 c)) \<noteq> None \<and>
     5000 \<le> l4_port_base (lc_l4 c) \<and> l4_port_base (lc_l4 c) \<le> 65535 \<and>
     0 < kc_reload_time (l4_kconf (lc_l4 c)) \<and> os_stat w (kc_misc_script (l4_kconf (lc_l4 c))) = None \<and>
     has_prefix (sc_result_path (l4_stats (lc_l4 c))) ''/'' \<and>
     0 < sc_port (l4_stats (lc_l4 c)) \<and> sc_port (l4_stats (lc_l4 c)) \<le> 65535 \<and> ?ls \<noteq> []"
      by (auto simp: lb_conf_check_def l4_check_def keepalived_check_def lvs_stats_check_def
          split: if_splits option.splits)
    then obtain m' where "local_addrs_check ?ls [] = (None, m')" by (metis prod.collapse)
    from local_addrs_check_ok [OF this] rest show ?thesis by (auto simp: l4_conf_valid_def)
  qed
  have run: "lb_conf_check w c [] = local_addrs_check ?ls []" if "l4_conf_valid w c"
    using that assms l4_check_cases [OF that, of "[]"]
    by (auto simp: lb_conf_check_def l4_conf_valid_def conf_lb_type_def)
  have ok: "\<exists>m'. local_addrs_check ?ls [] = (None, m')" if "l4_conf_valid w c"
    using that by (intro local_addrs_check_complete) (simp add: l4_conf_valid_def)
  have "map_of (snd (lb_conf_check w c [])) = laddr_groups ?ls" if v: "l4_conf_valid w c"
  proof -
    from ok [OF v] obtain m' where m': "local_addrs_check ?ls [] = (None, m')" by blast
    with run [OF v] local_addrs_check_ok [OF m'] show ?thesis by (simp add: laddr_groups_def)
  qed
  then show ?thesis using valid run ok by fastforce
qed

text \<open>a load balancer of kind l4 passes \<open>LBConf.CheckValid\<close> exactly when every field is in its
  documented range, the configured paths exist and every local address entry has a name and a CIDR;
  the groups then known are those of the entries, the last of a name.\<close>

theorem lb_conf_check_l4:
  assumes "lc_type c = ''l4''"
  shows "(fst (lb_conf_check w c []) = None \<longleftrightarrow> l4_conf_valid w c) \<and>
    (l4_conf_valid w c \<longrightarrow> map_of (snd (lb_conf_check w c [])) = laddr_groups (l4_laddr (lc_l4 c)))"
  using assms by (rule l4_checked)

definition demo_os :: os where
  "demo_os =
     \<lparr>os_fs = [''/etc/lb'' \<mapsto> Folder, ''/etc/lb/conf.d'' \<mapsto> Folder, ''/etc/lb/check.sh'' \<mapsto> Regular []],
      os_denied = (\<lambda>p. False), os_shell = (\<lambda>ran cmd. Exit 0), os_ran = []\<rparr>"

definition demo_conf :: lb_conf where
  "demo_conf =
     conf_defaults\<lparr>lc_type := ''l4'', lc_store_prefix := ''/lb/'', lc_cluster_name := ''c1'',
       lc_catalog := ''prod'', lc_conf_dir := ''/etc/lb'',
       lc_l4 := (lc_l4 conf_defaults)\<lparr>l4_subnet_name := ''vips'', l4_subnet_cidr := ''10.0.0.0/29'',
         l4_kconf := \<lparr>kc_conf_dir = [], kc_reload_time = 5, kc_misc_script = ''/etc/lb/check.sh''\<rparr>,
         l4_laddr := [\<lparr>la_name = ''g1'', la_dest_cidr = ''10.1.0.0/16''\<rparr>]\<rparr>\<rparr>"

lemma demo_cidr:
  "go_parse_cidr ''10.0.0.0/29'' \<noteq> None"
  "go_parse_cidr ''10.1.0.0/16'' = Some (v4_in_v6_prefix @ [10, 1, 0, 0],
      \<lparr>net_ip = [10, 1, 0, 0], net_mask = [255, 255, 0, 0]\<rparr>)"
proof -
  have "cidr_text [10, 0, 0, 0] 29 = ''10.0.0.0/29''" by code_simp
  with go_parse_cidr_text [of "[10, 0, 0, 0]" 29] show "go_parse_cidr ''10.0.0.0/29'' \<noteq> None" by simp
  have "cidr_text [10, 1, 0, 0] 16 = ''10.1.0.0/16''" by code_simp
  moreover have "ip_mask (v4_in_v6_prefix @ [10, 1, 0, 0]) (cidr_mask 16 4) = [10, 1, 0, 0]"
    "cidr_mask 16 4 = [255, 255, 0, 0]" by code_simp+
  ultimately show "go_parse_cidr ''10.1.0.0/16'' = Some (v4_in_v6_prefix @ [10, 1, 0, 0],
      \<lparr>net_ip = [10, 1, 0, 0], net_mask = [255, 255, 0, 0]\<rparr>)"
    using go_parse_cidr_text [of "[10, 1, 0, 0]" 16] by simp
qed

lemma demo_conf_valid: "l4_conf_valid demo_os demo_conf"
  using demo_cidr
  by (simp add: l4_conf_valid_def demo_conf_def conf_defaults_def demo_os_def os_stat_def max_links_def
      eval_nat_numeral)

lemma lb_conf_check_l4_witness:
  "fst (lb_conf_check demo_os demo_conf []) = None \<and>
   map_of (snd (lb_conf_check demo_os demo_conf [])) ''g1'' = Some \<lparr>net_ip = [10, 1, 0, 0], net_mask = [255, 255, 0, 0]\<rparr>"
proof -
  have "laddr_groups (l4_laddr (lc_l4 demo_conf)) ''g1''
      = Some \<lparr>net_ip = [10, 1, 0, 0], net_mask = [255, 255, 0, 0]\<rparr>"
    using demo_cidr(2) by (simp add: laddr_groups_def add_group_def demo_conf_def)
  then show ?thesis
    using lb_conf_check_l4 [of demo_conf demo_os] demo_conf_valid by (simp add: demo_conf_def)
qed

end
