(* ===== verification/Lbtypes.thy ===== *)
theory Lbtypes
  imports Conf
begin

text \<open>
  \<open>pkg/lbm/types.go\<close> and \<open>pkg/lbm/lvsconf.go\<close>: the services a user writes into the store and their
  checks.  A check that writes defaults into its receiver returns the receiver too; \<open>None\<close> is a nil
  error.  A slice element is checked on a copy, and only \<open>LVS.Validate\<close> and \<open>Nginx.Validate\<close> write the
  copy back, where the code does.
\<close>

section \<open>Constants\<close>

definition max_len :: nat where "max_len = 255"
definition lvs_type :: string where "lvs_type = ''l4''"
definition ng_type :: string where "ng_type = ''l7''"
definition lvs_prot :: "string list" where "lvs_prot = [''TCP'', ''UDP'']"
definition lvs_health_prot :: "string list" where "lvs_health_prot = [''TCP'', ''HTTP'', ''MISC'']"
definition lb_type :: "string list" where "lb_type = [''l4'', ''l7'']"
definition nginx_strategy :: "string list" where "nginx_strategy = [''round_robin'', ''least_conn'']"
definition nginx_prot :: "string list" where "nginx_prot = [''HTTP'', ''TCP'', ''UDP'']"

section \<open>Backends and health checks\<close>

record backend =
  be_ip :: string
  be_port :: int
  be_weight :: int

definition backend_check :: "backend \<Rightarrow> string option \<times> backend" where
  "backend_check b =
     (if parse_ip (be_ip b) = [] then (Some ''backend server IP is invalid'', b)
      else if be_port b > 65535 \<or> be_port b \<le> 0 then (Some ''backend server port is invalid'', b)
      else if be_weight b < 0 then (Some ''backend server weight is invalid'', b)
      else (None, if be_weight b = 0 then b\<lparr>be_weight := 100\<rparr> else b))"

record health_check =
  hc_type :: string
  hc_url_path :: string
  hc_status_code :: int
  hc_interval :: int
  hc_rise :: int
  hc_timeout :: int
  hc_max_retries :: int
  hc_delay :: int
  hc_enable :: bool

definition check_l7 :: "health_check \<Rightarrow> string option" where
  "check_l7 h =
     (if hc_timeout h < 0 then Some ''health check timeout is invalid''
      else if hc_max_retries h < 0 then Some ''health check retry is invalid''
      else None)"

definition check_l4 :: "health_check \<Rightarrow> string option" where
  "check_l4 h =
     (if \<not> is_element_exist (hc_type h) lvs_health_prot then Some ''health check type is invalid''
      else if hc_type h = ''HTTP'' \<and> \<not> has_prefix (hc_url_path h) ''/'' then
        Some ''health check url is invalid''
      else if hc_interval h \<le> 0 then Some ''interval is invalid''
      else if hc_timeout h \<le> 0 then Some ''health check timeout is invalid''
      else if hc_max_retries h \<le> 0 then Some ''health check retry is invalid''
      else if hc_delay h \<le> 0 then Some ''health check delay is invalid''
      else None)"

definition health_check_valid :: "health_check \<Rightarrow> string \<Rightarrow> string option" where
  "health_check_valid h t = (if t = lvs_type then check_l4 h else check_l7 h)"

section \<open>The common part\<close>

record lb_status =
  ls_status :: string
  ls_msg :: string
  ls_ip :: string
  ls_host_name :: string

record lb_common =
  lb_id :: string
  lb_name :: string
  lb_kind :: string
  lb_cluster :: string
  lb_protocol :: string
  lb_result :: lb_status

definition check_name :: "string \<Rightarrow> string option" where
  "check_name name =
     (if name = [] then Some ''name is empty''
      else if length name > max_len then Some ''name length is to long''
      else None)"

definition lb_common_check :: "lb_common \<Rightarrow> string option" where
  "lb_common_check l =
     (if \<not> is_element_exist (lb_kind l) lb_type then Some ''lb type is invalid''
      else case check_name (lb_name l) of
             Some e \<Rightarrow> Some (''lb name is invalid, '' @ e)
           | None \<Rightarrow>
               (case check_name (lb_cluster l) of
                  Some e \<Rightarrow> Some (''lb cluster name is invalid, '' @ e)
                | None \<Rightarrow> None))"

definition get_name :: "lb_common \<Rightarrow> string" where
  "get_name l = lb_name l"

definition get_cluster_name :: "lb_common \<Rightarrow> string" where
  "get_cluster_name l = lb_cluster l"

section \<open>lvsconf.go\<close>

record lvs_conf =
  lv_strategy :: string
  lv_persistence_timeout :: nat
  lv_syn_proxy :: bool
  lv_kind :: string
  lv_bps_limit :: nat
  lv_cps_limit :: nat

definition strategy_opts :: "string list" where
  "strategy_opts = [''rr'', ''wrr'', ''dh'', ''sh'', ''sed'', ''nq'', ''lc'', ''wlc'', ''lblc'', ''lblcr'']"

definition kind_opts :: "string list" where
  "kind_opts = [''FNAT'']"

definition max_timeout :: nat where "max_timeout = 10000"
definition max_bps :: nat where "max_bps = 10000"
definition max_cps :: nat where "max_cps = 20000"

definition lvs_conf_check :: "lvs_conf \<Rightarrow> string option" where
  "lvs_conf_check l =
     (if lv_strategy l \<noteq> [] then
        (if is_element_exist (lv_strategy l) strategy_opts then None else Some ''algo is invalid'')
      else if lv_persistence_timeout l > max_timeout then Some ''persistence_timeout is invalid''
      else if lv_kind l \<noteq> [] then
        (if is_element_exist (lv_kind l) kind_opts then None else Some ''kind is invalid'')
      else if lv_bps_limit l > max_bps then Some ''bps_limit is invalid''
      else if lv_cps_limit l > max_cps then Some ''cps_limit is invalid''
      else None)"

section \<open>LVS services\<close>

record lvs =
  lvs_common :: lb_common
  lvs_vip :: string
  lvs_port :: int
  lvs_conf :: lvs_conf
  lvs_monitor :: health_check
  lvs_servers :: "backend list"

definition no_status :: lb_status where
  "no_status = \<lparr>ls_status = [], ls_msg = [], ls_ip = [], ls_host_name = []\<rparr>"

definition new_lvs :: lvs where
  "new_lvs =
     \<lparr>lvs_common = \<lparr>lb_id = [], lb_name = [], lb_kind = lvs_type, lb_cluster = [], lb_protocol = ''TCP'',
        lb_result = no_status\<rparr>,
      lvs_vip = [], lvs_port = 0,
      lvs_conf = \<lparr>lv_strategy = ''rr'', lv_persistence_timeout = 0, lv_syn_proxy = False,
        lv_kind = ''FNAT'', lv_bps_limit = 0, lv_cps_limit = 0\<rparr>,
      lvs_monitor = \<lparr>hc_type = ''TCP'', hc_url_path = ''/'', hc_status_code = 200, hc_interval = 7,
        hc_rise = 0, hc_timeout = 10, hc_max_retries = 2, hc_delay = 5, hc_enable = False\<rparr>,
      lvs_servers = []\<rparr>"

definition check_vip :: "string \<Rightarrow> string option" where
  "check_vip vip = (if vip \<noteq> [] \<and> parse_ip vip = [] then Some ''lb virtual ip is invalid'' else None)"

definition lvs_check_port :: "lvs \<Rightarrow> string option" where
  "lvs_check_port l =
     (if lvs_port l > 65535 \<or> lvs_port l < 0 then Some ''lb virtual port is invalid'' else None)"

definition lvs_check_protocol :: "lvs \<Rightarrow> string option" where
  "lvs_check_protocol l =
     (let p = lb_protocol (lvs_common l); t = hc_type (lvs_monitor l)
      in if \<not> is_element_exist p lvs_prot then Some ''lb protocol is invalid''
         else if p = ''TCP'' \<and> t = ''MISC'' \<or> p = ''UDP'' \<and> t \<noteq> ''MISC'' then
           Some ''lb protocol is mismatch with health check type''
         else None)"

text \<open>The loop over the servers: the checked prefix is written back also when a later one fails;
  \<open>grp\<close> is the group of the first.  Every call of \<open>GetLAddrGroupName\<close> ranges over the map in an
  order of its own, the one of index \<open>i\<close> for server \<open>i\<close>.\<close>

fun lvs_check_servers ::
  "(nat \<Rightarrow> (string \<times> ipnet) range_order) \<Rightarrow> laddr_map \<Rightarrow> nat \<Rightarrow> string option \<Rightarrow> backend list \<Rightarrow>
   string option \<times> backend list" where
  "lvs_check_servers ords m i grp [] = (None, [])"
| "lvs_check_servers ords m i grp (b # bs) =
     (case backend_check b of
        (Some e, _) \<Rightarrow> (Some e, b # bs)
      | (None, be) \<Rightarrow>
          (case get_laddr_group_name (ords i) m (be_ip be) of
             None \<Rightarrow> (Some ''can not find matched local addr group'', b # bs)
           | Some la \<Rightarrow>
               (if grp \<noteq> None \<and> grp \<noteq> Some la then
                  (Some ''backend server is not in same cidr'', b # bs)
                else
                  let (e, bs') = lvs_check_servers ords m (Suc i) (Some la) bs in (e, be # bs'))))"

definition lvs_validate ::
  "(nat \<Rightarrow> (string \<times> ipnet) range_order) \<Rightarrow> laddr_map \<Rightarrow> lvs \<Rightarrow> string option \<times> lvs" where
  "lvs_validate ords m l =
     (case lb_common_check (lvs_common l) of
        Some e \<Rightarrow> (Some e, l)
      | None \<Rightarrow>
          if lb_kind (lvs_common l) \<noteq> lvs_type then (Some ''lb type is mismatch'', l)
          else case check_vip (lvs_vip l) of
            Some e \<Rightarrow> (Some e, l)
          | None \<Rightarrow>
            (case lvs_check_port l of
               Some e \<Rightarrow> (Some e, l)
             | None \<Rightarrow>
               (case lvs_check_protocol l of
                  Some e \<Rightarrow> (Some e, l)
                | None \<Rightarrow>
                  (case lvs_conf_check (lvs_conf l) of
                     Some e \<Rightarrow> (Some (''lvs conf is invalid, '' @ e), l)
                   | None \<Rightarrow>
                     (case health_check_valid (lvs_monitor l) (lb_kind (lvs_common l)) of
                        Some e \<Rightarrow> (Some e, l)
                      | None \<Rightarrow>
                        (let (e, bs) = lvs_check_servers ords m 0 None (lvs_servers l)
                         in (e, l\<lparr>lvs_servers := bs\<rparr>)))))))"

section \<open>Nginx services\<close>

record session_persistence =
  sp_name :: string
  sp_domain :: string
  sp_path :: string
  sp_expires :: int
  sp_enable :: bool

definition session_check :: "session_persistence \<Rightarrow> string option" where
  "session_check s = (if sp_enable s then check_name (sp_name s) else None)"

record pool =
  po_name :: string
  po_strategy :: string
  po_session :: session_persistence
  po_servers :: "backend list"

fun first_error :: "backend list \<Rightarrow> string option" where
  "first_error [] = None"
| "first_error (b # bs) = (case fst (backend_check b) of Some e \<Rightarrow> Some e | None \<Rightarrow> first_error bs)"

definition pool_check :: "pool \<Rightarrow> string option" where
  "pool_check p =
     (case check_name (po_name p) of
        Some e \<Rightarrow> Some (''lb pool name is invalid, '' @ e)
      | None \<Rightarrow>
          if \<not> is_element_exist (po_strategy p) nginx_strategy then Some ''lb pool strategy is invalid''
          else if session_check (po_session p) \<noteq> None then None
          else if po_servers p = [] then Some ''lb pool server is empty''
          else first_error (po_servers p))"

record location =
  loc_uri_path :: string
  loc_pool_name :: string

definition location_check :: "location \<Rightarrow> string option \<times> location" where
  "location_check loc =
     (let loc' = (if loc_uri_path loc = [] then loc\<lparr>loc_uri_path := ''/''\<rparr> else loc)
      in if \<not> has_prefix (loc_uri_path loc') ''/'' then (Some ''location url is invalid'', loc')
         else (None, loc'))"

record l7_rule =
  lr_type :: string
  lr_compare_type :: string
  lr_key :: string
  lr_value :: string
  lr_invert :: bool

record l7_policy =
  lp_name :: string
  lp_action :: string
  lp_redirect_pool :: string
  lp_redirect_url :: string
  lp_rules :: "l7_rule list"

record nginx =
  ng_common :: lb_common
  ng_vip :: string
  ng_port :: int
  ng_monitor :: health_check
  ng_pools :: "pool list"
  ng_locations :: "location list"
  ng_policy :: "l7_policy list"

definition nginx_check_vip :: "nginx \<Rightarrow> string option" where
  "nginx_check_vip n = (if ng_vip n \<noteq> [] \<and> parse_ip (ng_vip n) = [] then Some ''lb virtual ip is invalid'' else None)"

definition nginx_check_port :: "nginx \<Rightarrow> string option" where
  "nginx_check_port n =
     (if ng_port n > 65535 \<or> ng_port n \<le> 0 then Some ''lb virtual port is invalid'' else None)"

definition nginx_check_protocol :: "nginx \<Rightarrow> string option" where
  "nginx_check_protocol n =
     (if \<not> is_element_exist (lb_protocol (ng_common n)) nginx_prot then Some ''lb protocol is invalid''
      else None)"

fun check_pools :: "pool list \<Rightarrow> string option" where
  "check_pools [] = None"
| "check_pools (p # ps) = (case pool_check p of Some e \<Rightarrow> Some e | None \<Rightarrow> check_pools ps)"

text \<open>The loop over the locations: one that is not valid ends it with a nil error.\<close>

fun check_locations :: "pool list \<Rightarrow> location list \<Rightarrow> string option \<times> location list" where
  "check_locations ps [] = (None, [])"
| "check_locations ps (l # ls) =
     (case location_check l of
        (Some e, _) \<Rightarrow> (None, l # ls)
      | (None, l') \<Rightarrow>
          (if \<not> list_ex (\<lambda>p. po_name p = loc_pool_name l') ps then
             (Some ''location pool name is mismatch with pools'', l # ls)
           else let (e, ls') = check_locations ps ls in (e, l' # ls')))"

definition nginx_validate :: "nginx \<Rightarrow> string option \<times> nginx" where
  "nginx_validate n =
     (case lb_common_check (ng_common n) of
        Some e \<Rightarrow> (Some e, n)
      | None \<Rightarrow>
          if lb_kind (ng_common n) \<noteq> ng_type then (Some ''lb type is mismatch'', n)
          else case nginx_check_vip n of
            Some e \<Rightarrow> (Some e, n)
          | None \<Rightarrow>
            (case nginx_check_port n of
               Some e \<Rightarrow> (Some e, n)
             | None \<Rightarrow>
               (case nginx_check_protocol n of
                  Some e \<Rightarrow> (Some e, n)
                | None \<Rightarrow>
                  (case health_check_valid (ng_monitor n) (lb_kind (ng_common n)) of
                     Some e \<Rightarrow> (Some e, n)
                   | None \<Rightarrow>
                     (case check_pools (ng_pools n) of
                        Some e \<Rightarrow> (Some e, n)
                      | None \<Rightarrow>
                        (let (e, ls) = check_locations (ng_pools n) (ng_locations n)
                         in (e, n\<lparr>ng_locations := ls\<rparr>)))))))"

definition new_nginx :: nginx where
  "new_nginx =
     \<lparr>ng_common = \<lparr>lb_id = [], lb_name = [], lb_kind = ng_type, lb_cluster = [], lb_protocol = ''HTTP'',
        lb_result = no_status\<rparr>,
      ng_vip = [], ng_port = 0,
      ng_monitor = \<lparr>hc_type = ''HTTP'', hc_url_path = ''/'', hc_status_code = 0, hc_interval = 0,
        hc_rise = 0, hc_timeout = 10, hc_max_retries = 2, hc_delay = 0, hc_enable = False\<rparr>,
      ng_pools = [], ng_locations = [], ng_policy = []\<rparr>"

section \<open>What the checks accept\<close>

definition backend_ok :: "backend \<Rightarrow> bool" where
  "backend_ok b \<longleftrightarrow> parse_ip (be_ip b) \<noteq> [] \<and> 0 < be_port b \<and> be_port b \<le> 65535 \<and> 0 \<le> be_weight b"

definition default_weight :: "backend \<Rightarrow> backend" where
  "default_weight b = (if be_weight b = 0 then b\<lparr>be_weight := 100\<rparr> else b)"

lemma backend_check_eq:
  "fst (backend_check b) = None \<longleftrightarrow> backend_ok b"
  "backend_ok b \<Longrightarrow> backend_check b = (None, default_weight b)"
  by (auto simp: backend_check_def backend_ok_def default_weight_def)

lemma backend_check_cases:
  "(backend_ok b \<and> backend_check b = (None, default_weight b)) \<or>
   (\<not> backend_ok b \<and> (\<exists>e. backend_check b = (Some e, b)))"
  by (auto simp: backend_check_def backend_ok_def default_weight_def)

lemma default_weight_simps [simp]: "be_ip (default_weight b) = be_ip b" "be_port (default_weight b) = be_port b"
  by (simp_all add: default_weight_def)

lemma lvs_check_servers_ok:
  "lvs_check_servers ords m i grp bs = (None, bs') \<longleftrightarrow>
     bs' = map default_weight bs \<and> (\<forall>b \<in> set bs. backend_ok b) \<and>
     (bs \<noteq> [] \<longrightarrow> (\<exists>g. (grp = None \<or> grp = Some g) \<and>
        (\<forall>k < length bs. get_laddr_group_name (ords (i + k)) m (be_ip (bs ! k)) = Some g)))"
proof (induction bs arbitrary: i grp bs')
  case Nil
  then show ?case by auto
next
  case (Cons b bs)
  show ?case
  proof (cases "backend_ok b")
    case False
    with backend_check_cases [of b] show ?thesis by auto
  next
    case True
    then have chk: "backend_check b = (None, default_weight b)" by (rule backend_check_eq)
    show ?thesis
    proof (cases "get_laddr_group_name (ords i) m (be_ip b)")
      case None
      with chk show ?thesis by auto
    next
      case (Some la)
      let ?rest = "lvs_check_servers ords m (Suc i) (Some la) bs"
      have run: "lvs_check_servers ords m i grp (b # bs) =
          (if grp \<noteq> None \<and> grp \<noteq> Some la then
             (Some ''backend server is not in same cidr'', b # bs)
           else (fst ?rest, default_weight b # snd ?rest))"
        using chk Some by (simp add: case_prod_beta Let_def)
      have rest: "?rest = (None, bs'') \<longleftrightarrow> bs'' = map default_weight bs \<and> (\<forall>b \<in> set bs. backend_ok b) \<and>
          (\<forall>k < length bs. get_laddr_group_name (ords (Suc i + k)) m (be_ip (bs ! k)) = Some la)" for bs''
        using Cons.IH [of "Suc i" "Some la" bs''] by auto
      have all: "(\<forall>k < length (b # bs). get_laddr_group_name (ords (i + k)) m (be_ip ((b # bs) ! k)) = Some g)
          \<longleftrightarrow> g = la \<and> (\<forall>k < length bs. get_laddr_group_name (ords (Suc i + k)) m (be_ip (bs ! k)) = Some la)" for g
        using Some by (auto simp: All_less_Suc2)
      obtain e bs'' where r: "?rest = (e, bs'')" by fastforce
      have fin: "e = None \<longleftrightarrow> ?rest = (None, bs'')" using r by simp
      show ?thesis
      proof (cases e)
        case None
        with rest [of bs''] r True show ?thesis unfolding run all by auto
      next
        case (Some x)
        then have "\<not> (\<forall>b \<in> set bs. backend_ok b) \<or>
          \<not> (\<forall>k < length bs. get_laddr_group_name (ords (Suc i + k)) m (be_ip (bs ! k)) = Some la)"
          using rest [of "map default_weight bs"] r by simp
        with Some r show ?thesis unfolding run all by auto
      qed
    qed
  qed
qed

definition health_l4_ok :: "health_check \<Rightarrow> bool" where
  "health_l4_ok h \<longleftrightarrow> hc_type h \<in> {''TCP'', ''HTTP'', ''MISC''} \<and>
     (hc_type h = ''HTTP'' \<longrightarrow> has_prefix (hc_url_path h) ''/'') \<and>
     0 < hc_interval h \<and> 0 < hc_timeout h \<and> 0 < hc_max_retries h \<and> 0 < hc_delay h"

lemma check_l4_eq: "check_l4 h = None \<longleftrightarrow> health_l4_ok h"
  by (auto simp: check_l4_def health_l4_ok_def lvs_health_prot_def)

definition name_ok :: "string \<Rightarrow> bool" where
  "name_ok n \<longleftrightarrow> n \<noteq> [] \<and> length n \<le> 255"

lemma check_name_eq: "check_name n = None \<longleftrightarrow> name_ok n"
  by (auto simp: check_name_def name_ok_def max_len_def)

lemma lb_common_check_eq:
  "lb_common_check c = None \<longleftrightarrow> lb_kind c \<in> {''l4'', ''l7''} \<and> name_ok (lb_name c) \<and> name_ok (lb_cluster c)"
  using check_name_eq [of "lb_name c"] check_name_eq [of "lb_cluster c"]
  by (auto simp: lb_common_check_def lb_type_def split: option.splits)

text \<open>With a known scheduler the other options pass unchecked, with an unknown one none do; without a scheduler
  the timeout is limited, then a given kind has to be FNAT, and only without a kind are the bandwidth and
  the connection rate limited.\<close>

definition lvs_conf_ok :: "lvs_conf \<Rightarrow> bool" where
  "lvs_conf_ok c \<longleftrightarrow>
     (lv_strategy c \<noteq> [] \<and>
        lv_strategy c \<in> {''rr'', ''wrr'', ''dh'', ''sh'', ''sed'', ''nq'', ''lc'', ''wlc'', ''lblc'', ''lblcr''}) \<or>
     (lv_strategy c = [] \<and> lv_persistence_timeout c \<le> 10000 \<and>
        (lv_kind c = ''FNAT'' \<or> (lv_kind c = [] \<and> lv_bps_limit c \<le> 10000 \<and> lv_cps_limit c \<le> 20000)))"

lemma lvs_conf_check_eq: "lvs_conf_check c = None \<longleftrightarrow> lvs_conf_ok c"
  by (auto simp: lvs_conf_check_def lvs_conf_ok_def strategy_opts_def kind_opts_def max_timeout_def max_bps_def
      max_cps_def)

text \<open>What an LVS service must satisfy to be accepted, apart from the groups of its servers.\<close>

definition lvs_fields_ok :: "lvs \<Rightarrow> bool" where
  "lvs_fields_ok l \<longleftrightarrow>
     lb_kind (lvs_common l) = ''l4'' \<and> name_ok (lb_name (lvs_common l)) \<and> name_ok (lb_cluster (lvs_common l)) \<and>
     (lvs_vip l \<noteq> [] \<longrightarrow> parse_ip (lvs_vip l) \<noteq> []) \<and> 0 \<le> lvs_port l \<and> lvs_port l \<le> 65535 \<and>
     (lb_protocol (lvs_common l) = ''TCP'' \<and> hc_type (lvs_monitor l) \<in> {''TCP'', ''HTTP''} \<or>
      lb_protocol (lvs_common l) = ''UDP'' \<and> hc_type (lvs_monitor l) = ''MISC'') \<and>
     lvs_conf_ok (lvs_conf l) \<and> health_l4_ok (lvs_monitor l) \<and>
     (\<forall>b \<in> set (lvs_servers l). backend_ok b)"

lemma lvs_validate_run:
  "lvs_validate ords m l = (None, l') \<longleftrightarrow>
     lb_common_check (lvs_common l) = None \<and> lb_kind (lvs_common l) = lvs_type \<and> check_vip (lvs_vip l) = None \<and>
     lvs_check_port l = None \<and> lvs_check_protocol l = None \<and> lvs_conf_check (lvs_conf l) = None \<and>
     health_check_valid (lvs_monitor l) (lb_kind (lvs_common l)) = None \<and>
     (\<exists>bs. lvs_check_servers ords m 0 None (lvs_servers l) = (None, bs) \<and> l' = l\<lparr>lvs_servers := bs\<rparr>)"
  by (auto simp: lvs_validate_def split: option.splits prod.splits if_splits)

text \<open>What \<open>LVS.Validate\<close> accepts, for use below.\<close>

lemma lvs_validate_accepts:
  "lvs_validate ords m l = (None, l') \<longleftrightarrow>
     lvs_fields_ok l \<and> l' = l\<lparr>lvs_servers := map default_weight (lvs_servers l)\<rparr> \<and>
     (lvs_servers l = [] \<or>
      (\<exists>g. \<forall>k < length (lvs_servers l).
         get_laddr_group_name (ords k) m (be_ip (lvs_servers l ! k)) = Some g))"
proof -
  have vip: "check_vip (lvs_vip l) = None \<longleftrightarrow> (lvs_vip l \<noteq> [] \<longrightarrow> parse_ip (lvs_vip l) \<noteq> [])"
    by (simp add: check_vip_def)
  have port: "lvs_check_port l = None \<longleftrightarrow> 0 \<le> lvs_port l \<and> lvs_port l \<le> 65535"
    by (auto simp: lvs_check_port_def)
  have prot: "lvs_check_protocol l = None \<and> health_l4_ok (lvs_monitor l) \<longleftrightarrow>
     (lb_protocol (lvs_common l) = ''TCP'' \<and> hc_type (lvs_monitor l) \<in> {''TCP'', ''HTTP''} \<or>
      lb_protocol (lvs_common l) = ''UDP'' \<and> hc_type (lvs_monitor l) = ''MISC'') \<and> health_l4_ok (lvs_monitor l)"
    by (auto simp: lvs_check_protocol_def lvs_prot_def health_l4_ok_def Let_def)
  have mon: "lb_kind (lvs_common l) = lvs_type \<Longrightarrow>
      health_check_valid (lvs_monitor l) (lb_kind (lvs_common l)) = None \<longleftrightarrow> health_l4_ok (lvs_monitor l)"
    by (simp add: health_check_valid_def check_l4_eq)
  have common: "lb_common_check (lvs_common l) = None \<and> lb_kind (lvs_common l) = lvs_type \<longleftrightarrow>
      lb_kind (lvs_common l) = lvs_type \<and> lb_kind (lvs_common l) = ''l4'' \<and>
      name_ok (lb_name (lvs_common l)) \<and> name_ok (lb_cluster (lvs_common l))"
    using lb_common_check_eq [of "lvs_common l"] by (auto simp: lvs_type_def)
  have kind: "lb_kind (lvs_common l) = ''l4'' \<longleftrightarrow> lb_kind (lvs_common l) = lvs_type"
    by (simp add: lvs_type_def)
  have servers: "(\<exists>bs. lvs_check_servers ords m 0 None (lvs_servers l) = (None, bs) \<and> l' = l\<lparr>lvs_servers := bs\<rparr>) \<longleftrightarrow>
      l' = l\<lparr>lvs_servers := map default_weight (lvs_servers l)\<rparr> \<and> (\<forall>b \<in> set (lvs_servers l). backend_ok b) \<and>
      (lvs_servers l = [] \<or>
       (\<exists>g. \<forall>k < length (lvs_servers l).
          get_laddr_group_name (ords k) m (be_ip (lvs_servers l ! k)) = Some g))"
    unfolding lvs_check_servers_ok by auto
  show ?thesis
    unfolding lvs_validate_run servers lvs_fields_ok_def lvs_conf_check_eq
    using vip port prot mon kind common by argo
qed

text \<open>C25: \<open>LVS.Validate\<close> accepts a service exactly when it satisfies \<open>lvs_fields_ok\<close> and all its servers find
  the same local address group; an accepted service keeps everything but the weights that were zero,
  which become 100.  \<open>lvs_fields_ok\<close> asks for the type l4, a name and a cluster of 1 to 255 bytes, no
  address or one that parses, a port from 0 to 65535, TCP with a TCP or HTTP check or UDP with a MISC
  check, a check with positive interval, timeout, retries and delay and a path that starts with a slash where it is HTTP, valid
  servers, and of the options (\<open>lvs_conf_ok\<close>) what \<open>LVSConf.CheckValid\<close> does: with one of the ten known
  schedulers nothing more, so that timeout, kind, bandwidth and connection rate are then unchecked;
  with an unknown scheduler the service is refused; without one a timeout of at most 10000 and then
  either kind FNAT, with the rates unchecked, or no kind and rates of at most 10000 and 20000.\<close>

theorem lvs_validate_iff:
  "lvs_validate ords m l = (None, l') \<longleftrightarrow>
     lvs_fields_ok l \<and> l' = l\<lparr>lvs_servers := map default_weight (lvs_servers l)\<rparr> \<and>
     (lvs_servers l = [] \<or>
      (\<exists>g. \<forall>k < length (lvs_servers l).
         get_laddr_group_name (ords k) m (be_ip (lvs_servers l ! k)) = Some g))"
  by (rule lvs_validate_accepts)

text \<open>the limits on the persistence timeout, the bandwidth and the connection rate are not checked:
  \<open>LVSConf.CheckValid\<close> returns as soon as it has seen a known scheduler, and the service every
  request is decoded over has one.\<close>

theorem lvs_limits_unchecked:
  "lvs_conf_check ((lvs_conf new_lvs)
     \<lparr>lv_persistence_timeout := t, lv_kind := k, lv_bps_limit := b, lv_cps_limit := c\<rparr>) = None"
  by (simp add: lvs_conf_check_def new_lvs_def strategy_opts_def)


text \<open>An example: a service without weight, address and port, whose server is in the group \<open>g1\<close>.\<close>

definition demo_groups :: laddr_map where
  "demo_groups = [(''g1'', \<lparr>net_ip = [10, 1, 0, 0], net_mask = [255, 255, 0, 0]\<rparr>)]"

definition demo_svc :: lvs where
  "demo_svc = new_lvs\<lparr>lvs_common := (lvs_common new_lvs)\<lparr>lb_name := ''a'', lb_cluster := ''c1''\<rparr>,
     lvs_servers := [\<lparr>be_ip = ''10.1.0.5'', be_port = 80, be_weight = 0\<rparr>]\<rparr>"

lemma demo_server_ip: "parse_ip ''10.1.0.5'' = v4_in_v6_prefix @ [10, 1, 0, 5]"
proof -
  have "v4_string [10, 1, 0, 5] = ''10.1.0.5''" by code_simp
  with parse_ip_v4_string [of "[10, 1, 0, 5]"] show ?thesis by simp
qed

lemma demo_server_group: "get_laddr_group_name (\<lambda>xs. xs) demo_groups ''10.1.0.5'' = Some ''g1''"
proof -
  have "net_contains \<lparr>net_ip = [10, 1, 0, 0], net_mask = [255, 255, 0, 0]\<rparr> (v4_in_v6_prefix @ [10, 1, 0, 5])"
    by code_simp
  then show ?thesis by (simp add: get_laddr_group_name_def demo_server_ip demo_groups_def)
qed

lemma demo_svc_fields: "lvs_fields_ok demo_svc"
  using demo_server_ip
  by (simp add: lvs_fields_ok_def demo_svc_def new_lvs_def lvs_type_def name_ok_def lvs_conf_ok_def
      health_l4_ok_def backend_ok_def v4_in_v6_prefix_def)

lemma lvs_validate_iff_witness:
  "lvs_validate (\<lambda>_ xs. xs) demo_groups demo_svc
     = (None, demo_svc\<lparr>lvs_servers := [\<lparr>be_ip = ''10.1.0.5'', be_port = 80, be_weight = 100\<rparr>]\<rparr>)"
proof -
  have "lvs_servers demo_svc = [\<lparr>be_ip = ''10.1.0.5'', be_port = 80, be_weight = 0\<rparr>]"
    by (simp add: demo_svc_def)
  then show ?thesis
    using demo_svc_fields demo_server_group
    by (subst lvs_validate_iff) (simp add: default_weight_def)
qed

subsection \<open>Nginx\<close>

definition pool_ok :: "pool \<Rightarrow> bool" where
  "pool_ok p \<longleftrightarrow> name_ok (po_name p) \<and> po_strategy p \<in> {''round_robin'', ''least_conn''} \<and>
     (sp_enable (po_session p) \<longrightarrow> name_ok (sp_name (po_session p))) \<and>
     po_servers p \<noteq> [] \<and> (\<forall>b \<in> set (po_servers p). backend_ok b)"

lemma first_error_None: "first_error bs = None \<longleftrightarrow> (\<forall>b \<in> set bs. backend_ok b)"
proof (induction bs)
  case Nil
  then show ?case by simp
next
  case (Cons b bs)
  with backend_check_eq(1) [of b] show ?case by (cases "fst (backend_check b)") simp_all
qed

lemma pool_check_None:
  "pool_check p = None \<longleftrightarrow> name_ok (po_name p) \<and> po_strategy p \<in> {''round_robin'', ''least_conn''} \<and>
     (sp_enable (po_session p) \<and> \<not> name_ok (sp_name (po_session p)) \<or>
      po_servers p \<noteq> [] \<and> (\<forall>b \<in> set (po_servers p). backend_ok b))"
  using check_name_eq [of "po_name p"] check_name_eq [of "sp_name (po_session p)"]
  by (auto simp: pool_check_def nginx_strategy_def session_check_def first_error_None split: option.splits)

lemma check_pools_None: "check_pools ps = None \<longleftrightarrow> (\<forall>p \<in> set ps. pool_check p = None)"
  by (induction ps) (auto split: option.splits)

definition default_path :: "location \<Rightarrow> location" where
  "default_path l = (if loc_uri_path l = [] then l\<lparr>loc_uri_path := ''/''\<rparr> else l)"

definition location_ok :: "location \<Rightarrow> bool" where
  "location_ok l \<longleftrightarrow> loc_uri_path l = [] \<or> has_prefix (loc_uri_path l) ''/''"

lemma location_check_eq:
  "location_check l = (if location_ok l then (None, default_path l)
     else (Some ''location url is invalid'', default_path l))"
  by (auto simp: location_check_def location_ok_def default_path_def Let_def)

lemma default_path_pool [simp]: "loc_pool_name (default_path l) = loc_pool_name l"
  by (simp add: default_path_def)

lemma check_locations_None:
  "check_locations ps ls = (None, ls') \<longleftrightarrow>
     ls' = map default_path (takeWhile location_ok ls) @ dropWhile location_ok ls \<and>
     (\<forall>l \<in> set (takeWhile location_ok ls). \<exists>p \<in> set ps. po_name p = loc_pool_name l)"
proof (induction ls arbitrary: ls')
  case Nil
  then show ?case by auto
next
  case (Cons l ls)
  obtain e ls'' where r: "check_locations ps ls = (e, ls'')" by fastforce
  show ?case
  proof (cases "location_ok l \<and> (\<exists>p \<in> set ps. po_name p = loc_pool_name l)")
    case True
    then have run: "check_locations ps (l # ls) = (e, default_path l # ls'')"
      by (auto simp: location_check_eq list_ex_iff r Let_def)
    let ?ls = "map default_path (takeWhile location_ok ls) @ dropWhile location_ok ls"
    show ?thesis
    proof (cases e)
      case None
      with Cons.IH [of ls''] r True show ?thesis unfolding run by auto
    next
      case (Some x)
      with Cons.IH [of ?ls] r have "\<not> (\<forall>l \<in> set (takeWhile location_ok ls). \<exists>p \<in> set ps. po_name p = loc_pool_name l)"
        by simp
      with Some r True show ?thesis unfolding run by auto
    qed
  next
    case False
    then show ?thesis by (auto simp: location_check_eq list_ex_iff)
  qed
qed

text \<open>C26: \<open>Nginx.Validate\<close> accepts a service exactly when its fields are in range, every pool passes
  its check, and every location \<^emph>\<open>before the first one with an invalid path\<close> names a pool; the
  locations from that one on are not looked at, and a pool with a session whose name is invalid is
  accepted with any servers.\<close>

theorem nginx_validate_iff:
  "nginx_validate n = (None, n') \<longleftrightarrow>
     lb_kind (ng_common n) = ''l7'' \<and> name_ok (lb_name (ng_common n)) \<and> name_ok (lb_cluster (ng_common n)) \<and>
     (ng_vip n \<noteq> [] \<longrightarrow> parse_ip (ng_vip n) \<noteq> []) \<and> 0 < ng_port n \<and> ng_port n \<le> 65535 \<and>
     lb_protocol (ng_common n) \<in> {''HTTP'', ''TCP'', ''UDP''} \<and>
     0 \<le> hc_timeout (ng_monitor n) \<and> 0 \<le> hc_max_retries (ng_monitor n) \<and>
     (\<forall>p \<in> set (ng_pools n). name_ok (po_name p) \<and> po_strategy p \<in> {''round_robin'', ''least_conn''} \<and>
        (sp_enable (po_session p) \<and> \<not> name_ok (sp_name (po_session p)) \<or>
         po_servers p \<noteq> [] \<and> (\<forall>b \<in> set (po_servers p). backend_ok b))) \<and>
     (\<forall>l \<in> set (takeWhile location_ok (ng_locations n)). \<exists>p \<in> set (ng_pools n). po_name p = loc_pool_name l) \<and>
     n' = n\<lparr>ng_locations := map default_path (takeWhile location_ok (ng_locations n)) @
              dropWhile location_ok (ng_locations n)\<rparr>"
proof -
  have vip: "nginx_check_vip n = None \<longleftrightarrow> (ng_vip n \<noteq> [] \<longrightarrow> parse_ip (ng_vip n) \<noteq> [])"
    by (simp add: nginx_check_vip_def)
  have port: "nginx_check_port n = None \<longleftrightarrow> 0 < ng_port n \<and> ng_port n \<le> 65535"
    by (auto simp: nginx_check_port_def)
  have prot: "nginx_check_protocol n = None \<longleftrightarrow> lb_protocol (ng_common n) \<in> {''HTTP'', ''TCP'', ''UDP''}"
    by (auto simp: nginx_check_protocol_def nginx_prot_def)
  have mon: "lb_kind (ng_common n) = ng_type \<Longrightarrow>
      health_check_valid (ng_monitor n) (lb_kind (ng_common n)) = None \<longleftrightarrow>
        0 \<le> hc_timeout (ng_monitor n) \<and> 0 \<le> hc_max_retries (ng_monitor n)"
    by (auto simp: health_check_valid_def check_l7_def ng_type_def lvs_type_def)
  have kind: "lb_kind (ng_common n) = ''l7'' \<longleftrightarrow> lb_kind (ng_common n) = ng_type"
    by (simp add: ng_type_def)
  have run: "nginx_validate n = (None, n') \<longleftrightarrow>
     lb_common_check (ng_common n) = None \<and> lb_kind (ng_common n) = ng_type \<and> nginx_check_vip n = None \<and>
     nginx_check_port n = None \<and> nginx_check_protocol n = None \<and>
     health_check_valid (ng_monitor n) (lb_kind (ng_common n)) = None \<and> check_pools (ng_pools n) = None \<and>
     (\<exists>ls. check_locations (ng_pools n) (ng_locations n) = (None, ls) \<and> n' = n\<lparr>ng_locations := ls\<rparr>)"
    by (auto simp: nginx_validate_def split: option.splits prod.splits if_splits)
  have common: "lb_common_check (ng_common n) = None \<and> lb_kind (ng_common n) = ng_type \<longleftrightarrow>
      lb_kind (ng_common n) = ng_type \<and> lb_kind (ng_common n) = ''l7'' \<and>
      name_ok (lb_name (ng_common n)) \<and> name_ok (lb_cluster (ng_common n))"
    using lb_common_check_eq [of "ng_common n"] by (auto simp: ng_type_def)
  have locs: "(\<exists>ls. check_locations (ng_pools n) (ng_locations n) = (None, ls) \<and> n' = n\<lparr>ng_locations := ls\<rparr>) \<longleftrightarrow>
      (\<forall>l \<in> set (takeWhile location_ok (ng_locations n)). \<exists>p \<in> set (ng_pools n). po_name p = loc_pool_name l) \<and>
      n' = n\<lparr>ng_locations := map default_path (takeWhile location_ok (ng_locations n)) @
              dropWhile location_ok (ng_locations n)\<rparr>"
    unfolding check_locations_None by auto
  have pools: "check_pools (ng_pools n) = None \<longleftrightarrow>
      (\<forall>p \<in> set (ng_pools n). name_ok (po_name p) \<and> po_strategy p \<in> {''round_robin'', ''least_conn''} \<and>
        (sp_enable (po_session p) \<and> \<not> name_ok (sp_name (po_session p)) \<or>
         po_servers p \<noteq> [] \<and> (\<forall>b \<in> set (po_servers p). backend_ok b)))"
    unfolding check_pools_None pool_check_None ..
  show ?thesis
    unfolding run locs pools using vip port prot mon kind common by argo
qed

definition demo_site :: nginx where
  "demo_site = new_nginx\<lparr>ng_common := (ng_common new_nginx)\<lparr>lb_name := ''a'', lb_cluster := ''c1''\<rparr>, ng_port := 80,
     ng_pools := [\<lparr>po_name = ''p'', po_strategy = ''round_robin'',
       po_session = \<lparr>sp_name = [], sp_domain = [], sp_path = [], sp_expires = 0, sp_enable = False\<rparr>,
       po_servers = [\<lparr>be_ip = ''10.1.0.5'', be_port = 80, be_weight = 1\<rparr>]\<rparr>],
     ng_locations := [\<lparr>loc_uri_path = [], loc_pool_name = ''p''\<rparr>, \<lparr>loc_uri_path = ''x'', loc_pool_name = ''none''\<rparr>]\<rparr>"

lemma nginx_validate_iff_witness:
  "nginx_validate demo_site = (None, demo_site\<lparr>ng_locations :=
     [\<lparr>loc_uri_path = ''/'', loc_pool_name = ''p''\<rparr>, \<lparr>loc_uri_path = ''x'', loc_pool_name = ''none''\<rparr>]\<rparr>)"
  using demo_server_ip
  by (subst nginx_validate_iff)
    (simp add: demo_site_def new_nginx_def ng_type_def name_ok_def backend_ok_def location_ok_def default_path_def
      v4_in_v6_prefix_def)

end
