(* ===== verification/Lbm.thy ===== *)
theory Lbm
  imports Kvstore Lbtypes
begin

text \<open>
  \<open>pkg/lbm/lbm.go\<close> and the interface \<open>ILB\<close> of \<open>pkg/lbm/ilb.go\<close>: the table of services of a node and
  the handler that brings it in line with a listing of the store.  The table holds pointers: a
  service that \<open>ConfigService\<close> changes (it fills in address and port) changes in the table too, so
  objects live in a heap and the table maps keys to addresses.  The heap is a list, an address an
  index in it.
\<close>

section \<open>The interface\<close>

text \<open>The environment \<open>'e\<close> is what an implementation works on (files, store, reload flag), the flag is
  \<open>IsLeader\<close>; a \<open>ConfigService\<close> that does not return is \<open>None\<close>.\<close>

record ('lb, 'e) ilb =
  ilb_name :: "'lb \<Rightarrow> string"
  ilb_cluster :: "'lb \<Rightarrow> string"
  ilb_parse :: "'e \<Rightarrow> string \<Rightarrow> string \<Rightarrow> 'lb option"
  ilb_config :: "bool \<Rightarrow> 'e \<Rightarrow> 'lb \<Rightarrow> (bool \<times> 'lb \<times> 'e) option"
  ilb_delete :: "bool \<Rightarrow> 'e \<Rightarrow> string \<Rightarrow> bool \<times> 'e"
  ilb_reload :: "'e \<Rightarrow> 'e"
  ilb_recover :: "'e \<Rightarrow> (string \<times> 'lb) list"

record ('lb, 'e) lb_base =
  b_cluster :: string
  b_leader :: bool
  b_heap :: "'lb list"
  b_elem :: "(string \<times> nat) list"
  b_env :: 'e

definition lb_root :: string where
  "lb_root = ''lb/''"

definition lb_item :: "lb_conf \<Rightarrow> string" where
  "lb_item c = lc_catalog c @ ''/'' @ lc_type c @ ''/''"

definition lb_store_key :: "lb_conf \<Rightarrow> string" where
  "lb_store_key c = lb_root @ lb_item c"

definition new_lb :: "lb_conf \<Rightarrow> 'e \<Rightarrow> ('lb, 'e) lb_base" where
  "new_lb c e = \<lparr>b_cluster = lc_cluster_name c, b_leader = False, b_heap = [], b_elem = [], b_env = e\<rparr>"

definition is_same_cluster :: "('lb, 'e) ilb \<Rightarrow> ('lb, 'e) lb_base \<Rightarrow> 'lb \<Rightarrow> bool" where
  "is_same_cluster i b lb \<longleftrightarrow> ilb_cluster i lb = b_cluster b"

section \<open>The handler\<close>

text \<open>The first loop of \<open>handlerAddOrUpdate\<close>, with the addresses of \<open>lbs\<close>.\<close>

fun collect_changed ::
  "('lb, 'e) ilb \<Rightarrow> kvpair list \<Rightarrow> nat list \<Rightarrow> ('lb, 'e) lb_base \<Rightarrow> nat list \<times> ('lb, 'e) lb_base"
where
  "collect_changed i [] lbs b = (lbs, b)"
| "collect_changed i (it # li) lbs b =
     (case ilb_parse i (b_env b) (kv_key it) (kv_value it) of
        None \<Rightarrow> collect_changed i li lbs b
      | Some lb \<Rightarrow>
          if \<not> is_same_cluster i b lb then collect_changed i li lbs b
          else if last (split_on CHR ''/'' (kv_key it)) \<noteq> ilb_name i lb then collect_changed i li lbs b
          else if (case map_of (b_elem b) (kv_key it) of None \<Rightarrow> False | Some a \<Rightarrow> lb = b_heap b ! a)
               then collect_changed i li lbs b
          else collect_changed i li (lbs @ [length (b_heap b)])
                 (b\<lparr>b_heap := b_heap b @ [lb],
                    b_elem := AList.update (kv_key it) (length (b_heap b)) (b_elem b)\<rparr>))"

text \<open>The second loop: every changed service is configured, in place.\<close>

fun config_all ::
  "('lb, 'e) ilb \<Rightarrow> nat list \<Rightarrow> bool \<Rightarrow> ('lb, 'e) lb_base \<Rightarrow> (bool \<times> ('lb, 'e) lb_base) option"
where
  "config_all i [] need b = Some (need, b)"
| "config_all i (a # as) need b =
     (case ilb_config i (b_leader b) (b_env b) (b_heap b ! a) of
        None \<Rightarrow> None
      | Some (r, lb', e') \<Rightarrow>
          config_all i as (need \<or> r) (b\<lparr>b_heap := (b_heap b)[a := lb'], b_env := e'\<rparr>))"

definition handler_add_or_update ::
  "('lb, 'e) ilb \<Rightarrow> kvpair list \<Rightarrow> ('lb, 'e) lb_base \<Rightarrow> (bool \<times> ('lb, 'e) lb_base) option" where
  "handler_add_or_update i li b =
     (let (lbs, b') = collect_changed i li [] b in config_all i lbs False b')"

text \<open>\<open>handlerDelete\<close>: the walk over the table (in the order \<open>ord\<close>), then the deletions.\<close>

fun collect_gone ::
  "('lb, 'e) ilb \<Rightarrow> kvpair list \<Rightarrow> (string \<times> nat) list \<Rightarrow> string list \<Rightarrow> ('lb, 'e) lb_base \<Rightarrow>
   string list \<times> ('lb, 'e) lb_base"
where
  "collect_gone i li [] lbs b = (lbs, b)"
| "collect_gone i li ((k, a) # es) lbs b =
     (if list_ex (\<lambda>it. k = kv_key it) li then collect_gone i li es lbs b
      else collect_gone i li es (lbs @ [ilb_name i (b_heap b ! a)])
             (b\<lparr>b_elem := AList.delete k (b_elem b)\<rparr>))"

fun delete_all :: "('lb, 'e) ilb \<Rightarrow> bool \<Rightarrow> string list \<Rightarrow> bool \<Rightarrow> 'e \<Rightarrow> bool \<times> 'e" where
  "delete_all i ldr [] need e = (need, e)"
| "delete_all i ldr (n # ns) need e =
     (let (r, e') = ilb_delete i ldr e n in delete_all i ldr ns (need \<or> r) e')"

definition handler_delete ::
  "(string \<times> nat) range_order \<Rightarrow> ('lb, 'e) ilb \<Rightarrow> kvpair list \<Rightarrow> ('lb, 'e) lb_base \<Rightarrow>
   bool \<times> ('lb, 'e) lb_base" where
  "handler_delete ord i li b =
     (let (lbs, b') = collect_gone i li (ord (b_elem b)) [] b;
          (need, e) = delete_all i (b_leader b') lbs False (b_env b')
      in (need, b'\<lparr>b_env := e\<rparr>))"

definition handler_event ::
  "(string \<times> nat) range_order \<Rightarrow> ('lb, 'e) ilb \<Rightarrow> kvpair list \<Rightarrow> ('lb, 'e) lb_base \<Rightarrow>
   ('lb, 'e) lb_base option" where
  "handler_event ord i li b =
     (case handler_add_or_update i li b of
        None \<Rightarrow> None
      | Some (need, b1) \<Rightarrow>
          (let (need', b2) = handler_delete ord i li b1
           in Some (if need \<or> need' then b2\<lparr>b_env := ilb_reload i (b_env b2)\<rparr> else b2)))"

text \<open>The events of one watch, in order; a nil event (the channel was closed) ends it.\<close>

fun handle_events ::
  "(string \<times> nat) range_order \<Rightarrow> ('lb, 'e) ilb \<Rightarrow> kvpair list option list \<Rightarrow> ('lb, 'e) lb_base \<Rightarrow>
   ('lb, 'e) lb_base option"
where
  "handle_events ord i [] b = Some b"
| "handle_events ord i (None # evs) b = Some b"
| "handle_events ord i (Some li # evs) b =
     (case handler_event ord i li b of None \<Rightarrow> None | Some b' \<Rightarrow> handle_events ord i evs b')"

text \<open>The directory of the services is made before it is watched; false is a failed attempt.\<close>

definition watch_prepare :: "'s kv_store \<Rightarrow> lb_conf \<Rightarrow> 's \<Rightarrow> bool \<times> 's" where
  "watch_prepare kv c s =
     (case kv_is_exist kv s lb_root (lb_item c) of
        (Inl e, s1) \<Rightarrow> (False, s1)
      | (Inr found, s1) \<Rightarrow>
          (if found then (True, s1)
           else case kv_write_dir kv s1 lb_root (lb_item c) of
                  (Inl e, s2) \<Rightarrow> (False, s2)
                | (Inr u, s2) \<Rightarrow> (True, s2)))"

text \<open>What \<open>Run\<close> does before it starts the watch: the table gets the recovered services.\<close>

definition run_start :: "('lb, 'e) ilb \<Rightarrow> bool \<Rightarrow> ('lb, 'e) lb_base \<Rightarrow> ('lb, 'e) lb_base" where
  "run_start i ldr b =
     (let b' = fold (\<lambda>(k, lb) b. b\<lparr>b_heap := b_heap b @ [lb],
                        b_elem := AList.update k (length (b_heap b)) (b_elem b)\<rparr>)
                 (ilb_recover i (b_env b)) b
      in b'\<lparr>b_leader := ldr\<rparr>)"

section \<open>The table without pointers\<close>

definition elem_view :: "('lb, 'e) lb_base \<Rightarrow> string \<Rightarrow> 'lb option" where
  "elem_view b k = map_option (\<lambda>a. b_heap b ! a) (map_of (b_elem b) k)"

text \<open>No two keys share an object, and every address is one of the heap.\<close>

definition base_ok :: "('lb, 'e) lb_base \<Rightarrow> bool" where
  "base_ok b \<longleftrightarrow> distinct (map fst (b_elem b)) \<and> distinct (map snd (b_elem b)) \<and>
     (\<forall>(k, a) \<in> set (b_elem b). a < length (b_heap b))"

definition accepted :: "('lb, 'e) ilb \<Rightarrow> string \<Rightarrow> 'e \<Rightarrow> kvpair \<Rightarrow> 'lb option" where
  "accepted i cl e it =
     (case ilb_parse i e (kv_key it) (kv_value it) of
        None \<Rightarrow> None
      | Some lb \<Rightarrow>
          if ilb_cluster i lb = cl \<and> last (split_on CHR ''/'' (kv_key it)) = ilb_name i lb then Some lb
          else None)"

text \<open>The specification, on a map from keys to services: the entries to configure, their
  configuration one after the other, and the names to delete.\<close>

fun to_config ::
  "('lb, 'e) ilb \<Rightarrow> string \<Rightarrow> 'e \<Rightarrow> (string \<Rightarrow> 'lb option) \<Rightarrow> kvpair list \<Rightarrow> (string \<times> 'lb) list" where
  "to_config i cl e V [] = []"
| "to_config i cl e V (it # li) =
     (case accepted i cl e it of
        None \<Rightarrow> to_config i cl e V li
      | Some lb \<Rightarrow>
          if V (kv_key it) = Some lb then to_config i cl e V li
          else (kv_key it, lb) # to_config i cl e V li)"

fun spec_config ::
  "('lb, 'e) ilb \<Rightarrow> bool \<Rightarrow> (string \<times> 'lb) list \<Rightarrow> bool \<Rightarrow> 'e \<Rightarrow>
   (bool \<times> (string \<times> 'lb) list \<times> 'e) option"
where
  "spec_config i ldr [] need e = Some (need, [], e)"
| "spec_config i ldr ((k, lb) # xs) need e =
     (case ilb_config i ldr e lb of
        None \<Rightarrow> None
      | Some (r, lb', e') \<Rightarrow>
          (case spec_config i ldr xs (need \<or> r) e' of
             None \<Rightarrow> None
           | Some (n, rs, e'') \<Rightarrow> Some (n, (k, lb') # rs, e'')))"

definition list_keys :: "kvpair list \<Rightarrow> string set" where
  "list_keys li = kv_key ` set li"

text \<open>One event on the table without pointers; \<open>ks\<close> are the keys of the table that are gone, in the
  order of the walk.\<close>

definition sync ::
  "('lb, 'e) ilb \<Rightarrow> kvpair list \<Rightarrow> bool \<Rightarrow> string \<Rightarrow> string list \<Rightarrow> (string \<Rightarrow> 'lb option) \<Rightarrow> 'e \<Rightarrow>
   ((string \<Rightarrow> 'lb option) \<times> 'e) option" where
  "sync i li ldr cl ks V e =
     (case spec_config i ldr (to_config i cl e V li) False e of
        None \<Rightarrow> None
      | Some (n1, rs, e1) \<Rightarrow>
          (let (n2, e2) = delete_all i ldr (map (\<lambda>k. ilb_name i (the (V k))) ks) False e1
           in Some ((V ++ map_of rs) |` list_keys li, if n1 \<or> n2 then ilb_reload i e2 else e2)))"

lemma map_of_in_set: "map_of xs k = Some a \<Longrightarrow> (k, a) \<in> set xs"
  by (rule map_of_SomeD)

lemma base_ok_lookup:
  assumes "base_ok b" and "map_of (b_elem b) k = Some a"
  shows "a < length (b_heap b)"
  using assms by (auto simp: base_ok_def dest: map_of_SomeD)

lemma distinct_snd_update:
  assumes "distinct (map snd xs)" and "a \<notin> snd ` set xs" and "distinct (map fst xs)"
  shows "distinct (map snd (AList.update k a xs))"
  using assms
proof (induction xs)
  case Nil
  then show ?case by simp
next
  case (Cons x xs)
  obtain l v where x: "x = (l, v)" by (cases x)
  show ?case
  proof (cases "l = k")
    case True
    with Cons.prems x show ?thesis by auto
  next
    case False
    have "snd ` set (AList.update k a xs) \<subseteq> insert a (snd ` set xs)"
      by (induction xs) auto
    moreover have "v \<noteq> a" "v \<notin> snd ` set xs" using Cons.prems x by auto
    ultimately have "v \<notin> snd ` set (AList.update k a xs)" by blast
    with Cons x False show ?thesis by auto
  qed
qed

lemma set_update_subset: "set (AList.update k a xs) \<subseteq> insert (k, a) (set xs)"
  by (induction xs) auto

lemma base_ok_insert:
  assumes "base_ok b"
  shows "base_ok (b\<lparr>b_heap := b_heap b @ [lb], b_elem := AList.update k (length (b_heap b)) (b_elem b)\<rparr>)"
proof -
  have "length (b_heap b) \<notin> snd ` set (b_elem b)" using assms by (auto simp: base_ok_def)
  with assms have "distinct (map snd (AList.update k (length (b_heap b)) (b_elem b)))"
    by (intro distinct_snd_update) (simp_all add: base_ok_def)
  moreover have "distinct (map fst (AList.update k (length (b_heap b)) (b_elem b)))"
    using assms by (simp add: base_ok_def distinct_update)
  ultimately show ?thesis
    using assms set_update_subset [of k "length (b_heap b)" "b_elem b"]
    by (fastforce simp: base_ok_def)
qed

lemma elem_view_insert:
  assumes "base_ok b"
  shows "elem_view (b\<lparr>b_heap := b_heap b @ [lb], b_elem := AList.update k (length (b_heap b)) (b_elem b)\<rparr>)
    = (elem_view b)(k \<mapsto> lb)"
proof
  fix x
  show "elem_view (b\<lparr>b_heap := b_heap b @ [lb], b_elem := AList.update k (length (b_heap b)) (b_elem b)\<rparr>) x
    = ((elem_view b)(k \<mapsto> lb)) x"
    using base_ok_lookup [OF assms, of x]
    by (cases "map_of (b_elem b) x") (auto simp: elem_view_def nth_append)
qed

section \<open>The handler refines the specification\<close>

lemma spec_config_keys:
  "spec_config i ldr xs need e = Some (n, rs, e') \<Longrightarrow> map fst rs = map fst xs"
  by (induction xs arbitrary: need e n rs) (auto split: option.splits)

lemma to_config_keys: "set (map fst (to_config i cl e V li)) \<subseteq> list_keys li"
  by (induction li) (auto simp: list_keys_def split: option.splits)

lemma to_config_distinct: "distinct (map kv_key li) \<Longrightarrow> distinct (map fst (to_config i cl e V li))"
proof (induction li)
  case Nil
  then show ?case by simp
next
  case (Cons it li)
  have "kv_key it \<notin> fst ` set (to_config i cl e V li)"
    using to_config_keys [of i cl e V li] Cons.prems by (auto simp: list_keys_def)
  with Cons show ?case by (simp split: option.splits)
qed

lemma to_config_cong:
  "(\<And>k. k \<in> list_keys li \<Longrightarrow> V k = W k) \<Longrightarrow> to_config i cl e V li = to_config i cl e W li"
  by (induction li) (auto simp: list_keys_def split: option.splits)

definition placed :: "('lb, 'e) lb_base \<Rightarrow> nat list \<Rightarrow> (string \<times> 'lb) list \<Rightarrow> bool" where
  "placed b as xs \<longleftrightarrow>
     list_all2 (\<lambda>a (k, lb). map_of (b_elem b) k = Some a \<and> b_heap b ! a = lb) as xs"

lemma collect_changed_cons:
  "collect_changed i (it # li) lbs b =
     (case accepted i (b_cluster b) (b_env b) it of
        None \<Rightarrow> collect_changed i li lbs b
      | Some lb \<Rightarrow>
          if elem_view b (kv_key it) = Some lb then collect_changed i li lbs b
          else collect_changed i li (lbs @ [length (b_heap b)])
                 (b\<lparr>b_heap := b_heap b @ [lb],
                    b_elem := AList.update (kv_key it) (length (b_heap b)) (b_elem b)\<rparr>))"
  by (auto simp: accepted_def is_same_cluster_def elem_view_def split: option.splits)

lemma collect_changed_spec:
  assumes "base_ok b" and "distinct (map kv_key li)"
  shows "\<exists>as b'. collect_changed i li lbs b = (lbs @ as, b') \<and> base_ok b' \<and>
    b_env b' = b_env b \<and> b_leader b' = b_leader b \<and> b_cluster b' = b_cluster b \<and>
    placed b' as (to_config i (b_cluster b) (b_env b) (elem_view b) li) \<and>
    elem_view b' = elem_view b ++ map_of (to_config i (b_cluster b) (b_env b) (elem_view b) li) \<and>
    (\<forall>k a. k \<notin> list_keys li \<longrightarrow> map_of (b_elem b) k = Some a \<longrightarrow> map_of (b_elem b') k = Some a \<and> b_heap b' ! a = b_heap b ! a)"
  using assms
proof (induction li arbitrary: lbs b)
  case Nil
  then show ?case by (auto simp: placed_def)
next
  case (Cons it li)
  let ?x = "accepted i (b_cluster b) (b_env b) it"
  have fresh: "kv_key it \<notin> list_keys li" and dist: "distinct (map kv_key li)"
    using Cons.prems(2) by (auto simp: list_keys_def)
  show ?case
  proof (cases "?x = None \<or> elem_view b (kv_key it) = ?x")
    case True
    then have run: "collect_changed i (it # li) lbs b = collect_changed i li lbs b"
      and todo: "to_config i (b_cluster b) (b_env b) (elem_view b) (it # li)
        = to_config i (b_cluster b) (b_env b) (elem_view b) li"
      by (auto simp: collect_changed_cons split: option.splits simp del: collect_changed.simps)
    from Cons.IH [OF Cons.prems(1) dist, of lbs] show ?thesis
      unfolding run todo by (auto simp: list_keys_def)
  next
    case False
    then obtain lb where lb: "?x = Some lb" "elem_view b (kv_key it) \<noteq> Some lb" by auto
    define c where "c = b\<lparr>b_heap := b_heap b @ [lb],
      b_elem := AList.update (kv_key it) (length (b_heap b)) (b_elem b)\<rparr>"
    have c: "base_ok c" "elem_view c = (elem_view b)(kv_key it \<mapsto> lb)"
      "b_env c = b_env b" "b_leader c = b_leader b" "b_cluster c = b_cluster b"
      using base_ok_insert [OF Cons.prems(1)] elem_view_insert [OF Cons.prems(1)] by (simp_all add: c_def)
    let ?xs = "to_config i (b_cluster b) (b_env b) (elem_view b) li"
    have rest: "to_config i (b_cluster b) (b_env b) (elem_view c) li = ?xs"
      unfolding c(2) using fresh by (intro to_config_cong) auto
    obtain as b' where
      R: "collect_changed i li (lbs @ [length (b_heap b)]) c = ((lbs @ [length (b_heap b)]) @ as, b')"
      "base_ok b'" "b_env b' = b_env b" "b_leader b' = b_leader b" "b_cluster b' = b_cluster b"
      "placed b' as ?xs" "elem_view b' = elem_view c ++ map_of ?xs"
      and keep: "\<forall>k a. k \<notin> list_keys li \<longrightarrow> map_of (b_elem c) k = Some a \<longrightarrow>
        map_of (b_elem b') k = Some a \<and> b_heap b' ! a = b_heap c ! a"
      using Cons.IH [OF c(1) dist, of "lbs @ [length (b_heap b)]", unfolded c(3-5) rest] by blast
    have run: "collect_changed i (it # li) lbs b = (lbs @ length (b_heap b) # as, b')"
      using lb R(1) by (simp add: collect_changed_cons c_def del: collect_changed.simps)
    have todo: "to_config i (b_cluster b) (b_env b) (elem_view b) (it # li) = (kv_key it, lb) # ?xs"
      using lb by simp
    have new: "map_of (b_elem b') (kv_key it) = Some (length (b_heap b)) \<and> b_heap b' ! length (b_heap b) = lb"
      using keep fresh by (simp add: c_def)
    have notin: "kv_key it \<notin> fst ` set ?xs"
      using to_config_keys [of i "b_cluster b" "b_env b" "elem_view b" li] fresh by auto
    have old: "map_of (b_elem b') k = Some a \<and> b_heap b' ! a = b_heap b ! a"
      if "k \<notin> list_keys (it # li)" "map_of (b_elem b) k = Some a" for k a
    proof -
      from that have "k \<notin> list_keys li" "map_of (b_elem c) k = Some a"
        by (auto simp: list_keys_def c_def)
      with keep have "map_of (b_elem b') k = Some a \<and> b_heap b' ! a = b_heap c ! a" by blast
      with base_ok_lookup [OF Cons.prems(1) that(2)] show ?thesis
        by (simp add: c_def nth_append)
    qed
    have none: "map_of ?xs (kv_key it) = None" using notin by (simp add: map_of_eq_None_iff)
    have "elem_view b' k = (elem_view b ++ map_of ((kv_key it, lb) # ?xs)) k" for k
      unfolding R(7) c(2) using none
      by (cases "k = kv_key it"; cases "map_of ?xs k") (simp_all add: map_add_def)
    then have view: "elem_view b' = elem_view b ++ map_of ((kv_key it, lb) # ?xs)" ..
    have pl: "placed b' (length (b_heap b) # as) ((kv_key it, lb) # ?xs)"
      using R(6) new by (simp add: placed_def)
    have old': "\<forall>k a. k \<notin> list_keys (it # li) \<longrightarrow> map_of (b_elem b) k = Some a \<longrightarrow>
        map_of (b_elem b') k = Some a \<and> b_heap b' ! a = b_heap b ! a"
      using old by blast
    show ?thesis
      unfolding run todo
      by (intro exI [of _ "length (b_heap b) # as"] exI [of _ b'] conjI refl R(2-5) pl view old')
  qed
qed

lemma base_ok_inj:
  assumes "base_ok b" and "map_of (b_elem b) k = Some a" and "map_of (b_elem b) l = Some a"
  shows "k = l"
proof -
  from assms(2,3) have "(k, a) \<in> set (b_elem b)" "(l, a) \<in> set (b_elem b)"
    by (auto dest: map_of_SomeD)
  moreover have "inj_on snd (set (b_elem b))" using assms(1) by (simp add: base_ok_def distinct_map)
  ultimately have "(k, a) = (l, a)" by (intro inj_onD [of snd]) simp_all
  then show ?thesis by simp
qed

text \<open>Configuring an object in place changes the table at its own key only.\<close>

lemma elem_view_in_place:
  assumes "base_ok b" and "map_of (b_elem b) k = Some a"
  shows "elem_view (b\<lparr>b_heap := (b_heap b)[a := lb], b_env := e\<rparr>) = (elem_view b)(k \<mapsto> lb)"
proof
  fix x
  have other: "c \<noteq> a" if "map_of (b_elem b) x = Some c" "x \<noteq> k" for c
    using base_ok_inj [OF assms(1,2)] that by blast
  from base_ok_lookup [OF assms] other assms(2)
  show "elem_view (b\<lparr>b_heap := (b_heap b)[a := lb], b_env := e\<rparr>) x = ((elem_view b)(k \<mapsto> lb)) x"
    by (cases "map_of (b_elem b) x") (auto simp: elem_view_def)
qed

lemma config_all_spec:
  assumes "base_ok b" and "placed b as xs" and "distinct (map fst xs)"
  shows "case spec_config i (b_leader b) xs need (b_env b) of
      None \<Rightarrow> config_all i as need b = None
    | Some (n, rs, e) \<Rightarrow> \<exists>b'. config_all i as need b = Some (n, b') \<and> base_ok b' \<and> b_elem b' = b_elem b \<and>
        elem_view b' = elem_view b ++ map_of rs \<and> b_env b' = e \<and>
        b_leader b' = b_leader b \<and> b_cluster b' = b_cluster b"
  using assms
proof (induction xs arbitrary: as need b)
  case Nil
  then show ?case by (simp add: placed_def)
next
  case (Cons x xs)
  obtain k lb where x: "x = (k, lb)" by (cases x)
  from Cons.prems(2) x obtain a as' where as: "as = a # as'" "map_of (b_elem b) k = Some a"
    "b_heap b ! a = lb" "placed b as' xs"
    by (auto simp: placed_def list_all2_Cons2)
  show ?case
  proof (cases "ilb_config i (b_leader b) (b_env b) lb")
    case None
    with x as show ?thesis by simp
  next
    case (Some y)
    obtain r lb' e' where y: "y = (r, lb', e')" by (cases y)
    define c where "c = b\<lparr>b_heap := (b_heap b)[a := lb'], b_env := e'\<rparr>"
    have c: "base_ok c" "b_elem c = b_elem b" "b_env c = e'" "b_leader c = b_leader b" "b_cluster c = b_cluster b"
      using Cons.prems(1) by (simp_all add: c_def base_ok_def)
    have cv: "elem_view c = (elem_view b)(k \<mapsto> lb')"
      unfolding c_def by (rule elem_view_in_place [OF Cons.prems(1) as(2)])
    have run: "config_all i as need b = config_all i as' (need \<or> r) c"
      using Some y as by (simp add: c_def)
    have pl: "placed c as' xs"
    proof -
      have "b_heap c ! a' = b_heap b ! a'" if "map_of (b_elem b) l = Some a'" "l \<in> fst ` set xs" for a' l
      proof -
        have "l \<noteq> k" using that(2) Cons.prems(3) x by auto
        with base_ok_inj [OF Cons.prems(1) as(2), of l] that(1) have "a' \<noteq> a" by blast
        then show ?thesis by (simp add: c_def)
      qed
      with as(4) show ?thesis
        unfolding placed_def c(2) by (elim list.rel_mono_strong) (force split: prod.splits)
    qed
    from Cons.IH [OF c(1) pl, of "need \<or> r"] Cons.prems(3)
    have IH: "case spec_config i (b_leader b) xs (need \<or> r) e' of
        None \<Rightarrow> config_all i as' (need \<or> r) c = None
      | Some (n, rs, e) \<Rightarrow> \<exists>b'. config_all i as' (need \<or> r) c = Some (n, b') \<and> base_ok b' \<and> b_elem b' = b_elem b \<and>
          elem_view b' = (elem_view b)(k \<mapsto> lb') ++ map_of rs \<and> b_env b' = e \<and>
          b_leader b' = b_leader b \<and> b_cluster b' = b_cluster b"
      unfolding c(2-5) cv by simp
    show ?thesis
    proof (cases "spec_config i (b_leader b) xs (need \<or> r) e'")
      case None
      with IH Some x y run show ?thesis by simp
    next
      case spec: (Some z)
      obtain n rs e where z: "z = (n, rs, e)" by (cases z)
      have "k \<notin> fst ` set rs"
        using spec_config_keys [OF spec [unfolded z]] Cons.prems(3) x by (metis distinct.simps(2) fst_conv list.simps(9) set_map)
      then have "map_of rs k = None" by (simp add: map_of_eq_None_iff)
      then have "(elem_view b)(k \<mapsto> lb') ++ map_of rs = elem_view b ++ map_of ((k, lb') # rs)"
        by (auto simp: fun_eq_iff map_add_def split: option.splits)
      with IH Some x y z spec run show ?thesis by auto
    qed
  qed
qed

text \<open>The walk of \<open>handlerDelete\<close>.\<close>

lemma collect_gone_spec:
  assumes "distinct (map fst (b_elem b))"
  shows "collect_gone i li es lbs b =
    (lbs @ map (\<lambda>(k, a). ilb_name i (b_heap b ! a)) (filter (\<lambda>(k, a). k \<notin> list_keys li) es),
     b\<lparr>b_elem := fold AList.delete (map fst (filter (\<lambda>(k, a). k \<notin> list_keys li) es)) (b_elem b)\<rparr>)"
  using assms
proof (induction es arbitrary: lbs b)
  case Nil
  then show ?case by simp
next
  case (Cons e es)
  obtain k a where e: "e = (k, a)" by (cases e)
  have ex: "list_ex (\<lambda>it. k = kv_key it) li \<longleftrightarrow> k \<in> list_keys li"
    by (auto simp: list_ex_iff list_keys_def)
  show ?case
  proof (cases "k \<in> list_keys li")
    case True
    with Cons e ex show ?thesis by simp
  next
    case False
    let ?c = "b\<lparr>b_elem := AList.delete k (b_elem b)\<rparr>"
    have "distinct (map fst (b_elem ?c))" using Cons.prems by (simp add: distinct_delete)
    from Cons.IH [OF this] False e ex show ?thesis by simp
  qed
qed

lemma map_of_fold_delete: "map_of (fold AList.delete ks xs) = (\<lambda>k. if k \<in> set ks then None else map_of xs k)"
  by (induction ks arbitrary: xs) (auto simp: fun_eq_iff)

lemma set_fold_delete: "set (fold AList.delete ks xs) \<subseteq> set xs"
proof (induction ks arbitrary: xs)
  case Nil
  then show ?case by simp
next
  case (Cons k ks)
  have "set (AList.delete k xs) \<subseteq> set xs" by (auto simp: AList.delete_eq)
  with Cons [of "AList.delete k xs"] show ?case by auto
qed

lemma distinct_fold_delete:
  "distinct (map f xs) \<Longrightarrow> distinct (map f (fold AList.delete ks xs))"
proof (induction ks arbitrary: xs)
  case Nil
  then show ?case by simp
next
  case (Cons k ks)
  have "distinct (map f (AList.delete k xs))"
    using Cons.prems by (simp add: AList.delete_eq distinct_map_filter)
  with Cons.IH show ?case by simp
qed

lemma elem_view_env [simp]: "elem_view (b\<lparr>b_env := e\<rparr>) = elem_view b"
  by (simp add: elem_view_def fun_eq_iff)

lemma base_ok_env [simp]: "base_ok (b\<lparr>b_env := e\<rparr>) \<longleftrightarrow> base_ok b"
  by (simp add: base_ok_def)

lemma handler_delete_spec:
  assumes "base_ok b" and "is_range_order ord"
  shows "\<exists>ks. distinct ks \<and> set ks = dom (elem_view b) - list_keys li \<and>
    (\<exists>b'. handler_delete ord i li b =
       (fst (delete_all i (b_leader b) (map (\<lambda>k. ilb_name i (the (elem_view b k))) ks) False (b_env b)), b') \<and>
     b_env b' = snd (delete_all i (b_leader b) (map (\<lambda>k. ilb_name i (the (elem_view b k))) ks) False (b_env b)) \<and>
     base_ok b' \<and> b_leader b' = b_leader b \<and> b_cluster b' = b_cluster b \<and>
     elem_view b' = elem_view b |` list_keys li)"
proof -
  let ?es = "filter (\<lambda>(k, a). k \<notin> list_keys li) (ord (b_elem b))"
  let ?ks = "map fst ?es"
  let ?c = "b\<lparr>b_elem := fold AList.delete ?ks (b_elem b)\<rparr>"
  let ?names = "map (\<lambda>k. ilb_name i (the (elem_view b k))) ?ks"
  have dk: "distinct (map fst (b_elem b))" using assms(1) by (simp add: base_ok_def)
  then have d: "distinct (b_elem b)" by (simp add: distinct_map)
  have so: "set (ord (b_elem b)) = set (b_elem b)" by (rule range_order_set [OF assms(2)])
  have "distinct (ord (b_elem b))" by (rule range_order_distinct [OF assms(2) d])
  moreover have "inj_on fst (set (ord (b_elem b)))" using dk so by (simp add: distinct_map)
  ultimately have "distinct (map fst (ord (b_elem b)))" by (simp add: distinct_map)
  then have ks: "distinct ?ks" by (simp add: distinct_map_filter)
  have dom: "dom (elem_view b) = fst ` set (b_elem b)"
    by (auto simp: elem_view_def dom_def) (metis map_of_eq_None_iff not_None_eq fst_conv image_eqI)+
  have sk: "set ?ks = dom (elem_view b) - list_keys li"
    unfolding dom by (auto simp: so)
  have "map (\<lambda>(k, a). ilb_name i (b_heap b ! a)) ?es = ?names"
  proof -
    have "b_heap b ! a = the (elem_view b k)" if "(k, a) \<in> set ?es" for k a
      using that so map_of_is_SomeI [OF dk, of k a] by (simp add: elem_view_def)
    then show ?thesis by (auto simp: comp_def split: prod.splits)
  qed
  then have col: "collect_gone i li (ord (b_elem b)) [] b = (?names, ?c)"
    using collect_gone_spec [OF dk, of i li "ord (b_elem b)" "[]"] by simp
  have ok: "base_ok ?c"
    using assms(1) set_fold_delete [of ?ks "b_elem b"] distinct_fold_delete [of fst "b_elem b" ?ks]
      distinct_fold_delete [of snd "b_elem b" ?ks]
    by (fastforce simp: base_ok_def)
  have "elem_view ?c k = (elem_view b |` list_keys li) k" for k
  proof (cases "k \<in> list_keys li")
    case True
    with sk have "k \<notin> set ?ks" by blast
    with True show ?thesis by (simp add: elem_view_def map_of_fold_delete restrict_map_def del: set_map)
  next
    case False
    then have "k \<in> set ?ks \<or> map_of (b_elem b) k = None"
      using sk by (auto simp: elem_view_def dom_def simp del: set_map)
    with False show ?thesis by (auto simp: elem_view_def map_of_fold_delete restrict_map_def simp del: set_map)
  qed
  then have view: "elem_view ?c = elem_view b |` list_keys li" ..
  obtain n e where del: "delete_all i (b_leader b) ?names False (b_env b) = (n, e)" by fastforce
  let ?b' = "?c\<lparr>b_env := e\<rparr>"
  have run: "handler_delete ord i li b = (n, ?b')"
    unfolding handler_delete_def col using del by simp
  have "elem_view ?b' = elem_view b |` list_keys li" using view by (simp only: elem_view_env)
  moreover have "base_ok ?b'" using ok by (simp only: base_ok_env)
  ultimately show ?thesis
    using ks sk run del by (intro exI [of _ ?ks] conjI exI [of _ ?b']) simp_all
qed

lemma map_add_covered: "dom f \<subseteq> dom g \<Longrightarrow> f ++ g = g"
  by (auto simp: fun_eq_iff map_add_def dom_def split: option.splits)

lemma handler_event_cases:
  assumes ok: "base_ok b" and dist: "distinct (map kv_key li)" and ord: "is_range_order ord"
  shows "\<exists>ks. distinct ks \<and> set ks = dom (elem_view b) - list_keys li \<and>
    map_option (\<lambda>b'. (elem_view b', b_env b')) (handler_event ord i li b)
      = sync i li (b_leader b) (b_cluster b) ks (elem_view b) (b_env b) \<and>
    (\<forall>b'. handler_event ord i li b = Some b' \<longrightarrow>
       base_ok b' \<and> b_leader b' = b_leader b \<and> b_cluster b' = b_cluster b)"
proof -
  let ?xs = "to_config i (b_cluster b) (b_env b) (elem_view b) li"
  obtain as c where C: "collect_changed i li [] b = (as, c)" "base_ok c" "b_env c = b_env b"
    "b_leader c = b_leader b" "b_cluster c = b_cluster b" "placed c as ?xs"
    "elem_view c = elem_view b ++ map_of ?xs"
    using collect_changed_spec [OF ok dist, of i "[]"] by auto
  note cfg = config_all_spec [OF C(2,6) to_config_distinct [OF dist], of i False, unfolded C(3,4,5,7)]
  show ?thesis
  proof (cases "spec_config i (b_leader b) ?xs False (b_env b)")
    case None
    with cfg C(1) have "handler_event ord i li b = None"
      by (simp add: handler_event_def handler_add_or_update_def)
    moreover obtain ks where "distinct ks \<and> set ks = dom (elem_view b) - list_keys li"
      using handler_delete_spec [OF ok ord, of li i] by blast
    ultimately show ?thesis using None by (intro exI [of _ ks]) (simp add: sync_def)
  next
    case (Some z)
    obtain n rs e where z: "spec_config i (b_leader b) ?xs False (b_env b) = Some (n, rs, e)"
      using Some by (cases z) simp
    have keys: "map fst rs = map fst ?xs" by (rule spec_config_keys [OF z])
    from cfg z obtain d where D: "config_all i as False c = Some (n, d)" "base_ok d"
      "elem_view d = (elem_view b ++ map_of ?xs) ++ map_of rs" "b_env d = e"
      "b_leader d = b_leader b" "b_cluster d = b_cluster b" by auto
    have dm: "dom (map_of rs) = dom (map_of ?xs)"
      using keys by (simp add: dom_map_of_conv_image_fst flip: set_map)
    then have "map_of ?xs ++ map_of rs = map_of rs" by (intro map_add_covered) simp
    with D(3) have view: "elem_view d = elem_view b ++ map_of rs" by (simp flip: map_add_assoc)
    have sub: "dom (map_of rs) \<subseteq> list_keys li"
      using to_config_keys [of i "b_cluster b" "b_env b" "elem_view b" li] dm
      by (simp add: dom_map_of_conv_image_fst)
    then have same: "elem_view d k = elem_view b k" if "k \<notin> list_keys li" for k
      using that by (auto simp: view map_add_def split: option.splits)
    obtain ks b' where K: "distinct ks" "set ks = dom (elem_view d) - list_keys li"
      "handler_delete ord i li d =
         (fst (delete_all i (b_leader d) (map (\<lambda>k. ilb_name i (the (elem_view d k))) ks) False (b_env d)), b')"
      "b_env b' = snd (delete_all i (b_leader d) (map (\<lambda>k. ilb_name i (the (elem_view d k))) ks) False (b_env d))"
      "base_ok b'" "b_leader b' = b_leader d" "b_cluster b' = b_cluster d"
      "elem_view b' = elem_view d |` list_keys li"
      using handler_delete_spec [OF D(2) ord, of li i] by blast
    have sk: "set ks = dom (elem_view b) - list_keys li"
      using K(2) same by (auto simp: dom_def)
    have names: "map (\<lambda>k. ilb_name i (the (elem_view d k))) ks = map (\<lambda>k. ilb_name i (the (elem_view b k))) ks"
      using sk same by simp
    obtain n2 e2 where del: "delete_all i (b_leader b) (map (\<lambda>k. ilb_name i (the (elem_view b k))) ks) False e = (n2, e2)"
      by fastforce
    have hd: "handler_delete ord i li d = (n2, b')" "b_env b' = e2"
      using K(3,4) unfolding names D(4,5) del by simp_all
    let ?f = "if n \<or> n2 then b'\<lparr>b_env := ilb_reload i e2\<rparr> else b'"
    have run: "handler_event ord i li b = Some ?f"
      using C(1) D(1) hd by (simp add: handler_event_def handler_add_or_update_def)
    have "elem_view ?f = (elem_view b ++ map_of rs) |` list_keys li"
      using K(8) view by simp
    moreover have "b_env ?f = (if n \<or> n2 then ilb_reload i e2 else e2)" using hd(2) by simp
    moreover have "sync i li (b_leader b) (b_cluster b) ks (elem_view b) (b_env b)
        = Some ((elem_view b ++ map_of rs) |` list_keys li, if n \<or> n2 then ilb_reload i e2 else e2)"
      using z del by (simp add: sync_def)
    ultimately have eq: "map_option (\<lambda>b'. (elem_view b', b_env b')) (handler_event ord i li b)
        = sync i li (b_leader b) (b_cluster b) ks (elem_view b) (b_env b)"
      unfolding run by simp
    have "base_ok ?f \<and> b_leader ?f = b_leader b \<and> b_cluster ?f = b_cluster b"
      using K(5,6,7) D(5,6) by (simp add: base_ok_def)
    with K(1) sk eq run show ?thesis by (intro exI [of _ ks]) simp
  qed
qed

end
