(* ===== verification/Lbsync.thy ===== *)
theory Lbsync
  imports Lbm
begin

text \<open>
  What the event handler of \<open>pkg/lbm/lbm.go\<close> needs of an implementation of the interface \<open>ILB\<close>, as the
  locale \<open>lb_impl\<close>, and what it then gives: an event always ends, keeps the table and the environment
  well-formed, and brings the table in line with the listing.
\<close>

section \<open>The contract of an implementation\<close>

text \<open>\<open>good\<close> is what the implementation keeps true of its environment, \<open>named\<close> the names a listing can
  show.\<close>

locale lb_impl =
  fixes i :: "('lb, 'e) ilb" and good :: "'e \<Rightarrow> bool" and named :: "string \<Rightarrow> bool"
  assumes config_ok: "good e \<Longrightarrow> named (ilb_name i lb) \<Longrightarrow>
      \<exists>r lb' e'. ilb_config i ldr e lb = Some (r, lb', e') \<and> good e' \<and>
        ilb_name i lb' = ilb_name i lb \<and> ilb_cluster i lb' = ilb_cluster i lb"
    and delete_ok: "good e \<Longrightarrow> ilb_delete i ldr e n = (r, e') \<Longrightarrow> good e'"
    and reload_ok: "good e \<Longrightarrow> good (ilb_reload i e)"

text \<open>What an event leaves behind.\<close>

definition event_post ::
  "('lb, 'e) ilb \<Rightarrow> kvpair list \<Rightarrow> ('lb, 'e) lb_base \<Rightarrow> ('lb, 'e) lb_base \<Rightarrow> bool" where
  "event_post i li b b' \<longleftrightarrow>
     base_ok b' \<and> b_leader b' = b_leader b \<and> b_cluster b' = b_cluster b \<and>
     dom (elem_view b') = list_keys li \<inter>
       (dom (elem_view b) \<union> {kv_key it | it. it \<in> set li \<and> accepted i (b_cluster b) (b_env b) it \<noteq> None}) \<and>
     (\<forall>it lb. it \<in> set li \<longrightarrow> accepted i (b_cluster b) (b_env b) it = Some lb \<longrightarrow>
       (\<exists>lb'. elem_view b' (kv_key it) = Some lb' \<and> ilb_name i lb' = ilb_name i lb \<and>
          ilb_cluster i lb' = ilb_cluster i lb))"

lemma to_config_mem:
  "(k, lb) \<in> set (to_config i cl e V li) \<longleftrightarrow>
     (\<exists>it \<in> set li. kv_key it = k \<and> accepted i cl e it = Some lb \<and> V k \<noteq> Some lb)"
  by (induction li) (auto split: option.splits)

lemma to_config_notin:
  assumes "distinct (map kv_key li)" and "it \<in> set li"
    and "accepted i cl e it = None \<or> V (kv_key it) = accepted i cl e it"
  shows "kv_key it \<notin> fst ` set (to_config i cl e V li)"
proof
  assume "kv_key it \<in> fst ` set (to_config i cl e V li)"
  then obtain lb where "(kv_key it, lb) \<in> set (to_config i cl e V li)" by force
  then obtain it' where it': "it' \<in> set li" "kv_key it' = kv_key it" "accepted i cl e it' = Some lb"
    "V (kv_key it) \<noteq> Some lb" unfolding to_config_mem by blast
  have "inj_on kv_key (set li)" using assms(1) by (simp add: distinct_map)
  then have "it' = it" using it'(1,2) assms(2) by (auto dest: inj_onD)
  with it'(3,4) assms(3) show False by simp
qed

lemma to_config_dom:
  "dom V \<union> fst ` set (to_config i cl e V li) = dom V \<union> {kv_key it | it. it \<in> set li \<and> accepted i cl e it \<noteq> None}"
proof (rule set_eqI)
  fix k
  have "k \<in> fst ` set (to_config i cl e V li) \<longleftrightarrow> (\<exists>lb. (k, lb) \<in> set (to_config i cl e V li))" by force
  also have "\<dots> \<longleftrightarrow> (\<exists>it \<in> set li. kv_key it = k \<and> (\<exists>lb. accepted i cl e it = Some lb \<and> V k \<noteq> Some lb))"
    unfolding to_config_mem by blast
  finally have mem: "k \<in> fst ` set (to_config i cl e V li) \<longleftrightarrow>
      (\<exists>it \<in> set li. kv_key it = k \<and> (\<exists>lb. accepted i cl e it = Some lb \<and> V k \<noteq> Some lb))" .
  show "k \<in> dom V \<union> fst ` set (to_config i cl e V li) \<longleftrightarrow>
      k \<in> dom V \<union> {kv_key it | it. it \<in> set li \<and> accepted i cl e it \<noteq> None}"
    unfolding Un_iff mem by (cases "V k") auto
qed

lemma accepted_name: "accepted i cl e it = Some lb \<Longrightarrow> ilb_name i lb = last (split_on CHR ''/'' (kv_key it))"
  by (auto simp: accepted_def split: option.splits if_splits)

definition same_service :: "('lb, 'e) ilb \<Rightarrow> string \<times> 'lb \<Rightarrow> string \<times> 'lb \<Rightarrow> bool" where
  "same_service i x y \<longleftrightarrow> fst x = fst y \<and> ilb_name i (snd y) = ilb_name i (snd x) \<and>
     ilb_cluster i (snd y) = ilb_cluster i (snd x)"

lemma same_service_map_of:
  assumes "list_all2 (same_service i) xs rs" and "map_of xs k = Some lb"
  shows "\<exists>lb'. map_of rs k = Some lb' \<and> ilb_name i lb' = ilb_name i lb \<and> ilb_cluster i lb' = ilb_cluster i lb"
  using assms by (induction rule: list_all2_induct) (auto simp: same_service_def split: if_splits)

lemma same_service_keys: "list_all2 (same_service i) xs rs \<Longrightarrow> map fst rs = map fst xs"
  by (induction rule: list_all2_induct) (auto simp: same_service_def)

context lb_impl
begin

lemma spec_config_total:
  assumes "good e" and "\<forall>x \<in> set xs. named (ilb_name i (snd x))"
  shows "\<exists>n rs e'. spec_config i ldr xs need e = Some (n, rs, e') \<and> good e' \<and> list_all2 (same_service i) xs rs"
  using assms
proof (induction xs arbitrary: need e)
  case Nil
  then show ?case by simp
next
  case (Cons x xs)
  obtain k lb where x: "x = (k, lb)" by (cases x)
  with Cons.prems obtain r lb' e1 where c: "ilb_config i ldr e lb = Some (r, lb', e1)" "good e1"
    "ilb_name i lb' = ilb_name i lb" "ilb_cluster i lb' = ilb_cluster i lb"
    using config_ok [of e lb ldr] by auto
  from Cons.IH [OF c(2), of "need \<or> r"] Cons.prems(2) obtain n rs e2
    where "spec_config i ldr xs (need \<or> r) e1 = Some (n, rs, e2)" "good e2" "list_all2 (same_service i) xs rs"
    by auto
  moreover have "same_service i (k, lb) (k, lb')" using c(3,4) by (simp add: same_service_def)
  ultimately show ?case using c(1) x by simp
qed

lemma delete_all_good: "good e \<Longrightarrow> good (snd (delete_all i ldr ns need e))"
proof (induction ns arbitrary: need e)
  case Nil
  then show ?case by simp
next
  case (Cons n ns)
  obtain r e' where d: "ilb_delete i ldr e n = (r, e')" by fastforce
  from Cons.IH [OF delete_ok [OF Cons.prems d]] d show ?case by simp
qed

lemma event_syncs:
  assumes ok: "base_ok b" "distinct (map kv_key li)" "is_range_order ord" and good: "good (b_env b)"
    and named: "\<forall>it \<in> set li. named (last (split_on CHR ''/'' (kv_key it)))"
  shows "\<exists>b'. handler_event ord i li b = Some b' \<and> good (b_env b') \<and> event_post i li b b'"
proof -
  let ?V = "elem_view b" and ?acc = "accepted i (b_cluster b) (b_env b)"
  let ?xs = "to_config i (b_cluster b) (b_env b) ?V li"
  have "\<forall>x \<in> set ?xs. named (ilb_name i (snd x))"
    using named accepted_name [of i "b_cluster b" "b_env b"] by (auto simp: to_config_mem)
  from spec_config_total [OF good this] obtain n rs e1 where sc:
    "spec_config i (b_leader b) ?xs False (b_env b) = Some (n, rs, e1)" "good e1" "list_all2 (same_service i) ?xs rs"
    by blast
  obtain ks where ks: "map_option (\<lambda>b'. (elem_view b', b_env b')) (handler_event ord i li b)
      = sync i li (b_leader b) (b_cluster b) ks ?V (b_env b)"
    "\<forall>b'. handler_event ord i li b = Some b' \<longrightarrow> base_ok b' \<and> b_leader b' = b_leader b \<and> b_cluster b' = b_cluster b"
    using handler_event_cases [OF ok] by blast
  obtain n2 e2 where del: "delete_all i (b_leader b) (map (\<lambda>k. ilb_name i (the (?V k))) ks) False e1 = (n2, e2)"
    by fastforce
  have "good e2" using delete_all_good [OF sc(2)] del by (metis snd_conv)
  have "sync i li (b_leader b) (b_cluster b) ks ?V (b_env b)
      = Some ((?V ++ map_of rs) |` list_keys li, if n \<or> n2 then ilb_reload i e2 else e2)"
    using sc(1) del by (simp add: sync_def)
  with ks(1) have "map_option (\<lambda>b'. (elem_view b', b_env b')) (handler_event ord i li b)
      = Some ((?V ++ map_of rs) |` list_keys li, if n \<or> n2 then ilb_reload i e2 else e2)"
    by (simp only:)
  then obtain b' where b': "handler_event ord i li b = Some b'"
    "elem_view b' = (?V ++ map_of rs) |` list_keys li" "b_env b' = (if n \<or> n2 then ilb_reload i e2 else e2)"
    unfolding map_option_eq_Some prod.inject by blast
  have frame: "base_ok b' \<and> b_leader b' = b_leader b \<and> b_cluster b' = b_cluster b"
    using ks(2) b'(1) by blast
  have doms: "dom (map_of rs) = fst ` set ?xs"
    unfolding dom_map_of_conv_image_fst by (metis same_service_keys [OF sc(3)] set_map)
  have dom: "dom (elem_view b') = list_keys li \<inter> (dom ?V \<union> {kv_key it | it. it \<in> set li \<and> ?acc it \<noteq> None})"
  proof -
    show ?thesis
      unfolding b'(2) dom_restrict dom_map_add doms using to_config_dom [of ?V i "b_cluster b" "b_env b" li] by blast
  qed
  have "\<exists>lb'. elem_view b' (kv_key it) = Some lb' \<and> ilb_name i lb' = ilb_name i lb \<and> ilb_cluster i lb' = ilb_cluster i lb"
    if it: "it \<in> set li" "?acc it = Some lb" for it lb
  proof -
    have key: "kv_key it \<in> list_keys li" using it(1) by (simp add: list_keys_def)
    show ?thesis
    proof (cases "?V (kv_key it) = Some lb")
      case True
      have "kv_key it \<notin> fst ` set ?xs"
        using True it(2) by (intro to_config_notin [OF ok(2) it(1)]) simp
      then have "map_of rs (kv_key it) = None" using doms by blast
      with True key show ?thesis by (simp add: b'(2) map_add_def)
    next
      case False
      with it have "(kv_key it, lb) \<in> set ?xs" by (auto simp: to_config_mem)
      then have "map_of ?xs (kv_key it) = Some lb"
        using to_config_distinct [OF ok(2)] by (rule map_of_is_SomeI [rotated])
      from same_service_map_of [OF sc(3) this] key show ?thesis by (auto simp: b'(2) map_add_def)
    qed
  qed
  with frame dom have "event_post i li b b'" unfolding event_post_def by blast
  moreover have "good (b_env b')" using b'(3) \<open>good e2\<close> reload_ok by simp
  ultimately show ?thesis using b'(1) by blast
qed

text \<open>A listed service that is accepted stays as it is or becomes what configuring it made of it.\<close>

lemma spec_config_each:
  assumes "good e" and "\<forall>x \<in> set xs. named (ilb_name i (snd x))"
    and "spec_config i ldr xs need e = Some (n, rs, e')"
  shows "list_all2 (\<lambda>x y. fst x = fst y \<and> (\<exists>e r e'. good e \<and> ilb_config i ldr e (snd x) = Some (r, snd y, e'))) xs rs"
  using assms
proof (induction xs arbitrary: need e rs)
  case Nil
  then show ?case by simp
next
  case (Cons x xs need e rs)
  obtain k lb where x: "x = (k, lb)" by (cases x)
  with Cons.prems(1,2) obtain r lb' e1 where c: "ilb_config i ldr e lb = Some (r, lb', e1)" "good e1"
    using config_ok [of e lb ldr] by auto
  with Cons.prems(3) x obtain rs' where rs: "spec_config i ldr xs (need \<or> r) e1 = Some (n, rs', e')" "rs = (k, lb') # rs'"
    by (auto split: option.splits)
  from Cons.IH [OF c(2) _ rs(1)] Cons.prems(2) have
    "list_all2 (\<lambda>x y. fst x = fst y \<and> (\<exists>e r e'. good e \<and> ilb_config i ldr e (snd x) = Some (r, snd y, e'))) xs rs'" by simp
  with Cons.prems(1) c(1) x rs(2) show ?case by auto
qed

lemma event_entry:
  assumes ok: "base_ok b" "distinct (map kv_key li)" "is_range_order ord" and good: "good (b_env b)"
    and named: "\<forall>it \<in> set li. named (last (split_on CHR ''/'' (kv_key it)))"
    and run: "handler_event ord i li b = Some b'"
    and it: "it \<in> set li" "accepted i (b_cluster b) (b_env b) it = Some lb"
  shows "elem_view b' (kv_key it) = Some lb \<or>
    (\<exists>e r lb' e'. good e \<and> ilb_config i (b_leader b) e lb = Some (r, lb', e') \<and> elem_view b' (kv_key it) = Some lb')"
proof -
  let ?V = "elem_view b" and ?xs = "to_config i (b_cluster b) (b_env b) (elem_view b) li"
  let ?made = "\<lambda>x y. fst x = fst y \<and> (\<exists>e r e'. good e \<and> ilb_config i (b_leader b) e (snd x) = Some (r, snd y, e'))"
  obtain ks where "map_option (\<lambda>b'. (elem_view b', b_env b')) (handler_event ord i li b)
      = sync i li (b_leader b) (b_cluster b) ks ?V (b_env b)"
    using handler_event_cases [OF ok] by blast
  with run obtain n rs e1 where sc: "spec_config i (b_leader b) ?xs False (b_env b) = Some (n, rs, e1)"
    and v: "elem_view b' = (?V ++ map_of rs) |` list_keys li"
    by (auto simp: sync_def split: option.splits prod.splits)
  have "\<forall>x \<in> set ?xs. named (ilb_name i (snd x))"
    using named accepted_name [of i "b_cluster b" "b_env b"] by (auto simp: to_config_mem)
  note each = spec_config_each [OF good this sc]
  have key: "kv_key it \<in> list_keys li" using it(1) by (simp add: list_keys_def)
  show ?thesis
  proof (cases "?V (kv_key it) = Some lb")
    case True
    have "kv_key it \<notin> fst ` set ?xs" using True it(2) by (intro to_config_notin [OF ok(2) it(1)]) simp
    moreover have "map fst rs = map fst ?xs" using each by (induction rule: list_all2_induct) auto
    ultimately have "map_of rs (kv_key it) = None" by (simp add: map_of_eq_None_iff flip: set_map)
    with True key show ?thesis by (simp add: v map_add_def)
  next
    case False
    with it have "(kv_key it, lb) \<in> set ?xs" by (auto simp: to_config_mem)
    then have "map_of ?xs (kv_key it) = Some lb" using to_config_distinct [OF ok(2)] by (rule map_of_is_SomeI [rotated])
    with each have "\<exists>lb'. map_of rs (kv_key it) = Some lb' \<and>
        (\<exists>e r e'. good e \<and> ilb_config i (b_leader b) e lb = Some (r, lb', e'))"
      by (induction rule: list_all2_induct) (fastforce split: if_splits)+
    with key show ?thesis by (auto simp: v map_add_def)
  qed
qed

text \<open>Any number of events.\<close>

lemma events_keep:
  assumes "base_ok b" and "is_range_order ord" and "good (b_env b)"
    and "\<forall>li. Some li \<in> set evs \<longrightarrow> distinct (map kv_key li) \<and> (\<forall>it \<in> set li. named (last (split_on CHR ''/'' (kv_key it))))"
  shows "\<exists>b'. handle_events ord i evs b = Some b' \<and> base_ok b' \<and> good (b_env b') \<and>
    b_leader b' = b_leader b \<and> b_cluster b' = b_cluster b"
  using assms
proof (induction evs arbitrary: b)
  case Nil
  then show ?case by simp
next
  case (Cons ev evs)
  show ?case
  proof (cases ev)
    case None
    with Cons.prems show ?thesis by simp
  next
    case (Some li)
    with event_syncs [of b li ord] Cons.prems obtain b1 where b1: "handler_event ord i li b = Some b1"
      "good (b_env b1)" "event_post i li b b1" by auto
    from b1(3) have "base_ok b1" "b_leader b1 = b_leader b" "b_cluster b1 = b_cluster b"
      by (simp_all add: event_post_def)
    with Cons.IH [of b1] Cons.prems(2,4) b1(1,2) Some show ?thesis by auto
  qed
qed

end

section \<open>Listings that change nothing\<close>

lemma collect_changed_quiet:
  "\<forall>it \<in> set li. accepted i (b_cluster b) (b_env b) it = None \<or>
      elem_view b (kv_key it) = accepted i (b_cluster b) (b_env b) it \<Longrightarrow>
   collect_changed i li lbs b = (lbs, b)"
  by (induction li) (auto simp: collect_changed_cons split: option.splits simp del: collect_changed.simps(2))

lemma handler_event_nothing:
  assumes "base_ok b" and "is_range_order ord" and "dom (elem_view b) \<subseteq> list_keys li"
    and "\<forall>it \<in> set li. accepted i (b_cluster b) (b_env b) it = None \<or>
      elem_view b (kv_key it) = accepted i (b_cluster b) (b_env b) it"
  shows "handler_event ord i li b = Some b"
proof -
  have dk: "distinct (map fst (b_elem b))" using assms(1) by (simp add: base_ok_def)
  have "k \<in> list_keys li" if "(k, a) \<in> set (b_elem b)" for k a
    using that assms(3) map_of_is_SomeI [OF dk that] by (auto simp: elem_view_def dom_def)
  then have none: "filter (\<lambda>(k, a). k \<notin> list_keys li) (ord (b_elem b)) = []"
    using range_order_set [OF assms(2), of "b_elem b"] by (auto simp: filter_empty_conv)
  have "collect_gone i li (ord (b_elem b)) [] b = ([], b)"
    using collect_gone_spec [OF dk, of i li "ord (b_elem b)" "[]"] none by simp
  then have "handler_delete ord i li b = (False, b)" by (simp add: handler_delete_def)
  then show ?thesis
    using collect_changed_quiet [OF assms(4), of "[]"]
    by (simp add: handler_event_def handler_add_or_update_def)
qed

text \<open>An entry whose record is refused keeps its place in the table.\<close>

lemma refused_entry_kept:
  assumes "base_ok b" and "distinct (map kv_key li)" and "is_range_order ord"
    and "it \<in> set li" and "accepted i (b_cluster b) (b_env b) it = None"
    and "handler_event ord i li b = Some b'"
  shows "elem_view b' (kv_key it) = elem_view b (kv_key it)"
proof -
  let ?xs = "to_config i (b_cluster b) (b_env b) (elem_view b) li"
  obtain ks where "map_option (\<lambda>b'. (elem_view b', b_env b')) (handler_event ord i li b)
      = sync i li (b_leader b) (b_cluster b) ks (elem_view b) (b_env b)"
    using handler_event_cases [OF assms(1-3)] by blast
  with assms(6) obtain n rs e1 where sc: "spec_config i (b_leader b) ?xs False (b_env b) = Some (n, rs, e1)"
    and v: "elem_view b' = (elem_view b ++ map_of rs) |` list_keys li"
    by (auto simp: sync_def split: option.splits prod.splits)
  have "kv_key it \<notin> fst ` set ?xs"
    using assms(5) by (intro to_config_notin [OF assms(2,4)]) simp
  then have "map_of rs (kv_key it) = None"
    using spec_config_keys [OF sc] by (simp add: map_of_eq_None_iff flip: set_map)
  moreover have "kv_key it \<in> list_keys li" using assms(4) by (simp add: list_keys_def)
  ultimately show ?thesis by (simp add: v map_add_def)
qed

end
