(* ===== verification/Json.thy ===== *)
theory Json
  imports Prelude
begin

text \<open>
  What the program uses of \<open>encoding/json\<close>: the printer of \<open>Marshal\<close> (compact, with the escapes of
  HTML), the scanner and the unquoting of \<open>Unmarshal\<close>, and the rules for storing a JSON value in a
  string, an integer, a boolean, a slice or a struct.  Text is a list of bytes; bytes above 127 are
  taken to be valid UTF-8.  The parser takes fuel, and the length of the text is enough of it
  (\<open>parse_fuel\<close>).
\<close>

datatype json = Null | Bool bool | Num string | Str string | Arr "json list" | Obj "(string \<times> json) list"

section \<open>Printing\<close>

definition hex_digit :: "nat \<Rightarrow> char" where
  "hex_digit d = (if d < 10 then char_of (48 + d) else char_of (87 + d))"

definition u_escape :: "nat \<Rightarrow> string" where
  "u_escape n = [CHR 92, CHR ''u'', hex_digit (n div 4096), hex_digit (n div 256 mod 16),
     hex_digit (n div 16 mod 16), hex_digit (n mod 16)]"

definition esc_char :: "char \<Rightarrow> string" where
  "esc_char c =
     (if c = CHR 92 \<or> c = CHR 34 then [CHR 92, c]
      else if c = CHR 10 then [CHR 92, CHR ''n'']
      else if c = CHR 13 then [CHR 92, CHR ''r'']
      else if c = CHR 9 then [CHR 92, CHR ''t'']
      else if of_char c < (32 :: nat) \<or> c = CHR ''<'' \<or> c = CHR ''>'' \<or> c = CHR ''&'' then u_escape (of_char c)
      else [c])"

definition line_sep :: string where "line_sep = [CHR 0xE2, CHR 0x80, CHR 0xA8]"
definition par_sep :: string where "par_sep = [CHR 0xE2, CHR 0x80, CHR 0xA9]"

text \<open>U+2028 and U+2029 are escaped too.\<close>

function esc :: "string \<Rightarrow> string" where
  "esc s =
     (if has_prefix s line_sep then u_escape 0x2028 @ esc (drop 3 s)
      else if has_prefix s par_sep then u_escape 0x2029 @ esc (drop 3 s)
      else case s of [] \<Rightarrow> [] | c # cs \<Rightarrow> esc_char c @ esc cs)"
  by pat_completeness auto
termination
  by (relation "measure length") (auto simp: has_prefix_iff line_sep_def par_sep_def)

declare esc.simps [simp del]

definition quote :: "string \<Rightarrow> string" where
  "quote s = CHR 34 # esc s @ [CHR 34]"

fun jprint :: "json \<Rightarrow> string" and jprint_elems :: "json list \<Rightarrow> string"
  and jprint_members :: "(string \<times> json) list \<Rightarrow> string"
where
  "jprint Null = ''null''"
| "jprint (Bool b) = (if b then ''true'' else ''false'')"
| "jprint (Num n) = n"
| "jprint (Str s) = quote s"
| "jprint (Arr vs) = CHR ''['' # jprint_elems vs @ '']''"
| "jprint (Obj ms) = CHR ''{'' # jprint_members ms @ ''}''"
| "jprint_elems [] = []"
| "jprint_elems [v] = jprint v"
| "jprint_elems (v # w # vs) = jprint v @ CHR '','' # jprint_elems (w # vs)"
| "jprint_members [] = []"
| "jprint_members [(k, v)] = quote k @ CHR '':'' # jprint v"
| "jprint_members ((k, v) # m # ms) = quote k @ CHR '':'' # jprint v @ CHR '','' # jprint_members (m # ms)"

section \<open>Parsing\<close>

definition is_ws :: "char \<Rightarrow> bool" where
  "is_ws c \<longleftrightarrow> c = CHR '' '' \<or> c = CHR 9 \<or> c = CHR 10 \<or> c = CHR 13"

definition skip_ws :: "string \<Rightarrow> string" where
  "skip_ws s = dropWhile is_ws s"

definition hex_value :: "char \<Rightarrow> nat option" where
  "hex_value c =
     (let n = of_char c
      in if 48 \<le> n \<and> n \<le> 57 then Some (n - 48)
         else if 97 \<le> n \<and> n \<le> 102 then Some (n - 87)
         else if 65 \<le> n \<and> n \<le> 70 then Some (n - 55)
         else None)"

fun hex4 :: "string \<Rightarrow> (nat \<times> string) option" where
  "hex4 (a # b # c # d # r) =
     (case (hex_value a, hex_value b, hex_value c, hex_value d) of
        (Some w, Some x, Some y, Some z) \<Rightarrow> Some (w * 4096 + x * 256 + y * 16 + z, r)
      | _ \<Rightarrow> None)"
| "hex4 _ = None"

definition utf8 :: "nat \<Rightarrow> string" where
  "utf8 r =
     (if r < 0x80 then [char_of r]
      else if r < 0x800 then [char_of (0xC0 + r div 64), char_of (0x80 + r mod 64)]
      else if r < 0x10000 then
        [char_of (0xE0 + r div 4096), char_of (0x80 + r div 64 mod 64), char_of (0x80 + r mod 64)]
      else [char_of (0xF0 + r div 262144), char_of (0x80 + r div 4096 mod 64),
        char_of (0x80 + r div 64 mod 64), char_of (0x80 + r mod 64)])"

text \<open>The low surrogate that must follow a high one.\<close>

definition low_surrogate :: "string \<Rightarrow> (nat \<times> string) option" where
  "low_surrogate s =
     (if has_prefix s [CHR 92, CHR ''u''] then
        (case hex4 (drop 2 s) of
           Some (n, r) \<Rightarrow> if 0xDC00 \<le> n \<and> n < 0xE000 then Some (n, r) else None
         | None \<Rightarrow> None)
      else None)"

definition unicode_escape :: "nat \<Rightarrow> string \<Rightarrow> string \<times> string" where
  "unicode_escape n r =
     (if 0xD800 \<le> n \<and> n < 0xE000 then
        (case low_surrogate r of
           Some (m, r') \<Rightarrow>
             if n < 0xDC00 then (utf8 ((n - 0xD800) * 1024 + (m - 0xDC00) + 0x10000), r') else (utf8 0xFFFD, r)
         | None \<Rightarrow> (utf8 0xFFFD, r))
      else (utf8 n, r))"

fun unescape :: "string \<Rightarrow> (string \<times> string) option" where
  "unescape [] = None"
| "unescape (c # r) =
     (if c = CHR 34 \<or> c = CHR 92 \<or> c = CHR ''/'' then Some ([c], r)
      else if c = CHR ''b'' then Some ([CHR 8], r)
      else if c = CHR ''f'' then Some ([CHR 12], r)
      else if c = CHR ''n'' then Some ([CHR 10], r)
      else if c = CHR ''r'' then Some ([CHR 13], r)
      else if c = CHR ''t'' then Some ([CHR 9], r)
      else if c = CHR ''u'' then map_option (\<lambda>(n, r'). unicode_escape n r') (hex4 r)
      else None)"

lemma hex4_shorter: "hex4 s = Some (n, r) \<Longrightarrow> length r < length s"
  by (induction s rule: hex4.induct) (auto split: option.splits)

lemma unicode_escape_shorter: "length (snd (unicode_escape n r)) \<le> length r"
proof (cases "low_surrogate r")
  case None
  then show ?thesis by (simp add: unicode_escape_def)
next
  case (Some y)
  then obtain m r' where "hex4 (drop 2 r) = Some (m, r')" "y = (m, r')"
    by (auto simp: low_surrogate_def split: if_splits option.splits)
  with Some hex4_shorter [of "drop 2 r" m r'] show ?thesis by (auto simp: unicode_escape_def)
qed

lemma unescape_shorter: "unescape s = Some (x, r) \<Longrightarrow> length r < length s"
proof (cases s)
  case Nil
  then show "unescape s = Some (x, r) \<Longrightarrow> length r < length s" by simp
next
  case (Cons c cs)
  have "length (snd (unicode_escape n r')) < Suc (length cs)" if "hex4 cs = Some (n, r')" for n r'
    using hex4_shorter [OF that] unicode_escape_shorter [of n r'] by simp
  then show "unescape s = Some (x, r) \<Longrightarrow> length r < length s"
    using Cons by (auto split: if_splits)
qed

text \<open>A string, after the opening quote.\<close>

function parse_str :: "string \<Rightarrow> (string \<times> string) option" where
  "parse_str [] = None"
| "parse_str (c # cs) =
     (if c = CHR 34 then Some ([], cs)
      else if c = CHR 92 then
        (case unescape cs of
           None \<Rightarrow> None
         | Some (x, r) \<Rightarrow> map_option (\<lambda>(s, r'). (x @ s, r')) (parse_str r))
      else if of_char c < (32 :: nat) then None
      else map_option (\<lambda>(s, r'). (c # s, r')) (parse_str cs))"
  by pat_completeness auto
termination
  by (relation "measure length") (auto dest: unescape_shorter)

definition span_digits :: "string \<Rightarrow> string \<times> string" where
  "span_digits s = (takeWhile is_digit s, dropWhile is_digit s)"

definition parse_frac :: "string \<Rightarrow> (string \<times> string) option" where
  "parse_frac s =
     (if s \<noteq> [] \<and> hd s = CHR ''.'' then
        (let (ds, r) = span_digits (tl s) in if ds = [] then None else Some (CHR ''.'' # ds, r))
      else Some ([], s))"

definition parse_exp :: "string \<Rightarrow> (string \<times> string) option" where
  "parse_exp s =
     (if s \<noteq> [] \<and> (hd s = CHR ''e'' \<or> hd s = CHR ''E'') then
        (let sg = (if tl s \<noteq> [] \<and> (hd (tl s) = CHR ''+'' \<or> hd (tl s) = CHR ''-'') then [hd (tl s)] else []);
             (ds, r) = span_digits (drop (length sg) (tl s))
         in if ds = [] then None else Some (hd s # sg @ ds, r))
      else Some ([], s))"

definition parse_num :: "string \<Rightarrow> (json \<times> string) option" where
  "parse_num s =
     (let sg = (if s \<noteq> [] \<and> hd s = CHR ''-'' then ''-'' else []);
          (ds, r) = span_digits (drop (length sg) s)
      in if ds = [] \<or> (hd ds = CHR ''0'' \<and> 1 < length ds) then None
         else case parse_frac r of
                None \<Rightarrow> None
              | Some (fr, r1) \<Rightarrow>
                  (case parse_exp r1 of
                     None \<Rightarrow> None
                   | Some (ex, r2) \<Rightarrow> Some (Num (sg @ ds @ fr @ ex), r2)))"

fun parse_val :: "nat \<Rightarrow> string \<Rightarrow> (json \<times> string) option"
  and parse_elems :: "nat \<Rightarrow> string \<Rightarrow> (json list \<times> string) option"
  and parse_members :: "nat \<Rightarrow> string \<Rightarrow> ((string \<times> json) list \<times> string) option"
where
  "parse_val 0 s = None"
| "parse_val (Suc n) s =
     (case skip_ws s of
        [] \<Rightarrow> None
      | c # cs \<Rightarrow>
          if c = CHR ''{'' then
            (if has_prefix (skip_ws cs) ''}'' then Some (Obj [], tl (skip_ws cs))
             else map_option (\<lambda>(ms, r). (Obj ms, r)) (parse_members n cs))
          else if c = CHR ''['' then
            (if has_prefix (skip_ws cs) '']'' then Some (Arr [], tl (skip_ws cs))
             else map_option (\<lambda>(vs, r). (Arr vs, r)) (parse_elems n cs))
          else if c = CHR 34 then map_option (\<lambda>(x, r). (Str x, r)) (parse_str cs)
          else if has_prefix (c # cs) ''true'' then Some (Bool True, drop 3 cs)
          else if has_prefix (c # cs) ''false'' then Some (Bool False, drop 4 cs)
          else if has_prefix (c # cs) ''null'' then Some (Null, drop 3 cs)
          else parse_num (c # cs))"
| "parse_elems 0 s = None"
| "parse_elems (Suc n) s =
     (case parse_val n s of
        None \<Rightarrow> None
      | Some (v, r) \<Rightarrow>
          (case skip_ws r of
             [] \<Rightarrow> None
           | c # cs \<Rightarrow>
               if c = CHR '']'' then Some ([v], cs)
               else if c = CHR '','' then map_option (\<lambda>(vs, r'). (v # vs, r')) (parse_elems n cs)
               else None))"
| "parse_members 0 s = None"
| "parse_members (Suc n) s =
     (case skip_ws s of
        [] \<Rightarrow> None
      | q # qs \<Rightarrow>
          if q \<noteq> CHR 34 then None
          else case parse_str qs of
            None \<Rightarrow> None
          | Some (k, r) \<Rightarrow>
              (case skip_ws r of
                 [] \<Rightarrow> None
               | d # ds \<Rightarrow>
                   if d \<noteq> CHR '':'' then None
                   else case parse_val n ds of
                     None \<Rightarrow> None
                   | Some (v, r1) \<Rightarrow>
                       (case skip_ws r1 of
                          [] \<Rightarrow> None
                        | c # cs \<Rightarrow>
                            if c = CHR ''}'' then Some ([(k, v)], cs)
                            else if c = CHR '','' then
                              map_option (\<lambda>(ms, r'). ((k, v) # ms, r')) (parse_members n cs)
                            else None)))"

definition json_parse :: "string \<Rightarrow> json option" where
  "json_parse s =
     (case parse_val (2 * length s + 2) s of
        None \<Rightarrow> None
      | Some (v, r) \<Rightarrow> if skip_ws r = [] then Some v else None)"

section \<open>The fuel is enough\<close>

lemma skip_ws_length: "length (skip_ws s) \<le> length s"
  by (simp add: skip_ws_def length_dropWhile_le)

lemma skip_ws_Cons: "skip_ws s = c # cs \<Longrightarrow> length cs < length s"
  using skip_ws_length [of s] by simp

lemma parse_str_shorter: "parse_str s = Some (x, r) \<Longrightarrow> length r < length s"
proof (induction s arbitrary: x r rule: parse_str.induct)
  case 1
  then show ?case by simp
next
  case (2 c cs)
  then show ?case
    by (fastforce split: if_splits option.splits dest: unescape_shorter)
qed

lemma span_digits_length: "span_digits s = (a, b) \<Longrightarrow> length a + length b = length s"
  by (auto simp: span_digits_def simp flip: length_append)

lemma parse_frac_length: "parse_frac s = Some (a, r) \<Longrightarrow> length r \<le> length s"
  using span_digits_length [of "tl s"]
  by (cases s) (fastforce simp: parse_frac_def split: if_splits prod.splits)+

lemma parse_exp_length: "parse_exp s = Some (a, r) \<Longrightarrow> length r \<le> length s"
proof -
  assume p: "parse_exp s = Some (a, r)"
  show ?thesis
  proof (cases "s \<noteq> [] \<and> (hd s = CHR ''e'' \<or> hd s = CHR ''E'')")
    case False
    with p show ?thesis by (auto simp: parse_exp_def split: if_splits)
  next
    case True
    define sg where "sg = (if tl s \<noteq> [] \<and> (hd (tl s) = CHR ''+'' \<or> hd (tl s) = CHR ''-'') then [hd (tl s)] else [])"
    obtain ds q where d: "span_digits (drop (length sg) (tl s)) = (ds, q)" by fastforce
    have "parse_exp s = (if ds = [] then None else Some (hd s # sg @ ds, q))"
      unfolding parse_exp_def sg_def [symmetric] using True d by (simp add: Let_def)
    with p have "q = r" by (auto split: if_splits)
    with span_digits_length [OF d] show ?thesis by simp
  qed
qed

lemma parse_num_shorter:
  assumes "parse_num s = Some (v, r)"
  shows "length r < length s"
proof -
  let ?k = "if s \<noteq> [] \<and> hd s = CHR ''-'' then 1 else (0 :: nat)"
  obtain ds r0 where d: "span_digits (drop ?k s) = (ds, r0)" by fastforce
  with assms obtain fr r1 ex where f: "ds \<noteq> []" "parse_frac r0 = Some (fr, r1)" "parse_exp r1 = Some (ex, r)"
    by (auto simp: parse_num_def Let_def split: if_splits option.splits)
  from span_digits_length [OF d] f(1) have "length r0 < length s"
    by (cases ds) (auto split: if_splits)
  with parse_frac_length [OF f(2)] parse_exp_length [OF f(3)] show ?thesis by simp
qed

lemma parse_shorter:
  "parse_val n s = Some (v, r) \<Longrightarrow> length r < length s"
  "parse_elems n s = Some (vs, r) \<Longrightarrow> length r < length s"
  "parse_members n s = Some (ms, r) \<Longrightarrow> length r < length s"
proof (induction n s and n s and n s arbitrary: v r and vs r and ms r
    rule: parse_val_parse_elems_parse_members.induct)
  case (2 n s)
  show ?case
  proof (cases "skip_ws s")
    case Nil
    with 2 show ?thesis by simp
  next
    case (Cons c cs)
    have l: "length cs < length s" using Cons by (rule skip_ws_Cons)
    have t: "length (tl (skip_ws cs)) \<le> length cs" using skip_ws_length [of cs] by simp
    have q: "length q < length s" if "parse_str cs = Some (x, q)" for x q
      using parse_str_shorter [OF that] l by simp
    have m: "length q < length s" if "parse_num (c # cs) = Some (x, q)" for x q
      using parse_num_shorter [OF that] l by simp
    from 2 Cons l t q m show ?thesis by (force split: if_splits)
  qed
next
  case (4 n s)
  then obtain w q where w: "parse_val n s = Some (w, q)" by (auto split: option.splits)
  with 4(1) have q: "length q < length s" by simp
  from 4(3) w obtain c cs where c: "skip_ws q = c # cs" by (auto split: list.splits)
  have cs: "length cs < length s" using skip_ws_Cons [OF c] q by simp
  have el: "length z < length s" if "parse_elems n cs = Some (y, z)" "c = CHR '',''" for y z
    using 4(2) [OF w refl c] that cs by fastforce
  from 4(3) w c cs el show ?case by (auto split: if_splits)
next
  case (6 n s)
  then obtain q qs where q: "skip_ws s = q # qs" "q = CHR 34" by (auto split: list.splits if_splits)
  have qs: "length qs < length s" using q(1) by (rule skip_ws_Cons)
  from 6(3) q obtain k r0 where k: "parse_str qs = Some (k, r0)" by (auto split: option.splits)
  from 6(3) q k obtain d ds where d: "skip_ws r0 = d # ds" "d = CHR '':''" by (auto split: list.splits if_splits)
  have ds: "length ds < length s"
    using skip_ws_Cons [OF d(1)] parse_str_shorter [OF k] qs by simp
  from 6(3) q k d obtain w r1 where w: "parse_val n ds = Some (w, r1)" by (auto split: option.splits)
  from 6(3) q k d w obtain c cs where c: "skip_ws r1 = c # cs" by (auto split: list.splits)
  have "length r1 < length ds" using 6(1) q k d w by simp
  then have cs: "length cs < length s" using skip_ws_Cons [OF c] ds by simp
  have me: "length z < length s" if "parse_members n cs = Some (y, z)" "c = CHR '',''" for y z
    using 6(2) q k d w c that cs by fastforce
  from 6(3) q k d w c cs me show ?case by (auto split: if_splits)
qed simp_all

definition fuel_enough :: "string \<Rightarrow> bool" where
  "fuel_enough s \<longleftrightarrow>
     (\<forall>n m. 2 * length s < n \<longrightarrow> 2 * length s < m \<longrightarrow> parse_val n s = parse_val m s) \<and>
     (\<forall>n m. 2 * length s + 1 < n \<longrightarrow> 2 * length s + 1 < m \<longrightarrow> parse_elems n s = parse_elems m s) \<and>
     (\<forall>n m. 2 * length s < n \<longrightarrow> 2 * length s < m \<longrightarrow> parse_members n s = parse_members m s)"

lemma fuel_enough: "fuel_enough s"
proof (induction "length s" arbitrary: s rule: less_induct)
  case less
  have shorter: "parse_val n ds = parse_val m ds" "parse_members n ds = parse_members m ds"
    "parse_elems n ds = parse_elems m ds"
    if "length ds < length s" "2 * length s \<le> n" "2 * length s \<le> m" for ds n m
    using less [OF that(1)] that by (simp_all add: fuel_enough_def)
  have V: "parse_val n s = parse_val m s" if nm: "2 * length s < n" "2 * length s < m" for n m
  proof -
    from nm obtain n' m' where s: "n = Suc n'" "m = Suc m'" by (metis not_less_zero old.nat.exhaust)
    have "parse_members n' cs = parse_members m' cs \<and> parse_elems n' cs = parse_elems m' cs"
      if "skip_ws s = c # cs" for c cs
    proof -
      from that have l: "length cs < length s" by (rule skip_ws_Cons)
      from nm s have "2 * length s \<le> n'" "2 * length s \<le> m'" by simp_all
      from shorter [OF l this] show ?thesis by simp
    qed
    then show "parse_val n s = parse_val m s"
      unfolding s by (auto split: list.splits)
  qed
  have E: "parse_elems n s = parse_elems m s" if nm: "2 * length s + 1 < n" "2 * length s + 1 < m" for n m
  proof -
    from nm obtain n' m' where s: "n = Suc n'" "m = Suc m'" by (metis not_less_zero old.nat.exhaust)
    have v: "parse_val n' s = parse_val m' s" using nm s by (intro V) simp_all
    have "parse_elems n' cs = parse_elems m' cs"
      if "parse_val m' s = Some (w, r)" "skip_ws r = c # cs" for w r c cs
    proof -
      have l: "length cs < length s" using parse_shorter(1) [OF that(1)] skip_ws_Cons [OF that(2)] by simp
      from nm s have "2 * length s \<le> n'" "2 * length s \<le> m'" by simp_all
      from shorter [OF l this] show ?thesis by simp
    qed
    then show ?thesis unfolding s by (simp add: v split: option.splits list.splits)
  qed
  have M: "parse_members n s = parse_members m s" if nm: "2 * length s < n" "2 * length s < m" for n m
  proof -
    from nm obtain n' m' where s: "n = Suc n'" "m = Suc m'" by (metis not_less_zero old.nat.exhaust)
    then have b: "2 * length s \<le> n'" "2 * length s \<le> m'" using nm by simp_all
    consider (empty) "skip_ws s = []" | (bad) q qs where "skip_ws s = q # qs" "parse_str qs = None"
      | (short) q qs k r where "skip_ws s = q # qs" "parse_str qs = Some (k, r)" "skip_ws r = []"
      | (full) q qs k r d ds where "skip_ws s = q # qs" "parse_str qs = Some (k, r)" "skip_ws r = d # ds"
    proof (cases "skip_ws s")
      case Nil
      then show thesis by (rule empty)
    next
      case (Cons q qs)
      show thesis
      proof (cases "parse_str qs")
        case None
        with Cons show thesis by (rule bad)
      next
        case (Some y)
        obtain k r where "y = (k, r)" by (cases y)
        with Cons Some show thesis by (cases "skip_ws r") (auto intro: short full)
      qed
    qed
    then show ?thesis
    proof cases
      case empty
      then show ?thesis by (simp add: s)
    next
      case bad
      then show ?thesis by (simp add: s)
    next
      case short
      then show ?thesis by (simp add: s)
    next
      case p: full
      have l: "length ds < length s"
        using skip_ws_Cons [OF p(1)] parse_str_shorter [OF p(2)] skip_ws_Cons [OF p(3)] by simp
      have v: "parse_val n' ds = parse_val m' ds" using shorter(1) [OF l b] .
      show ?thesis
      proof (cases "parse_val m' ds")
        case None
        then show ?thesis by (simp add: s p v)
      next
        case (Some y)
        obtain w r1 where y: "y = (w, r1)" by (cases y)
        show ?thesis
        proof (cases "skip_ws r1")
          case Nil
          with Some y show ?thesis by (simp add: s p v)
        next
          case (Cons c cs)
          have "length cs < length s"
            using l parse_shorter(1) [OF Some [unfolded y]] skip_ws_Cons [OF Cons] by simp
          from shorter(2) [OF this b] have "parse_members n' cs = parse_members m' cs" .
          with Some y Cons show ?thesis by (simp add: s p v)
        qed
      qed
    qed
  qed
  show ?case unfolding fuel_enough_def using V E M by blast
qed

text \<open>More fuel than \<open>json_parse\<close> takes changes nothing.\<close>

lemma json_parse_fuel:
  assumes "2 * length s < n"
  shows "json_parse s =
    (case parse_val n s of None \<Rightarrow> None | Some (v, r) \<Rightarrow> if skip_ws r = [] then Some v else None)"
proof -
  from fuel_enough [of s] have "\<forall>n m. 2 * length s < n \<longrightarrow> 2 * length s < m \<longrightarrow> parse_val n s = parse_val m s"
    unfolding fuel_enough_def by (rule conjunct1)
  then have "parse_val (2 * length s + 2) s = parse_val n s"
    using assms by (elim allE [of _ "2 * length s + 2"] allE [of _ n]) simp
  then show ?thesis by (simp only: json_parse_def)
qed

section \<open>What is printed is parsed back\<close>

lemma of_char_hex_digit:
  assumes "d < 16"
  shows "hex_value (hex_digit d) = Some d"
proof (cases "d < 10")
  case True
  then have "(of_char (char_of (48 + d) :: char) :: nat) = 48 + d" by (simp add: of_char_mod_256)
  with True show ?thesis by (simp add: hex_digit_def hex_value_def Let_def)
next
  case False
  with assms have "(of_char (char_of (87 + d) :: char) :: nat) = 87 + d" by (simp add: of_char_mod_256)
  with False assms show ?thesis by (simp add: hex_digit_def hex_value_def Let_def)
qed

lemma hex4_u_escape:
  assumes "n < 65536"
  shows "hex4 (hex_digit (n div 4096) # hex_digit (n div 256 mod 16) # hex_digit (n div 16 mod 16) #
    hex_digit (n mod 16) # r) = Some (n, r)"
proof -
  have "n div 4096 < 16" using assms by simp
  moreover have "n div 4096 * 4096 + n div 256 mod 16 * 256 + n div 16 mod 16 * 16 + n mod 16 = n"
  proof -
    have "n div 16 * 16 + n mod 16 = n" by (rule div_mult_mod_eq)
    moreover have "n div 256 * 16 + n div 16 mod 16 = n div 16"
      using div_mult_mod_eq [of "n div 16" 16] by (simp add: div_mult2_eq [symmetric])
    moreover have "n div 4096 * 16 + n div 256 mod 16 = n div 256"
      using div_mult_mod_eq [of "n div 256" 16] by (simp add: div_mult2_eq [symmetric])
    ultimately show ?thesis by linarith
  qed
  ultimately show ?thesis by (simp add: of_char_hex_digit)
qed

lemma parse_u_escape:
  assumes "n < 0xD800"
  shows "parse_str (u_escape n @ s) = map_option (\<lambda>(x, r). (utf8 n @ x, r)) (parse_str s)"
  using assms by (simp add: u_escape_def hex4_u_escape unicode_escape_def del: hex4.simps)

lemma utf8_char: "of_char c < (128 :: nat) \<Longrightarrow> utf8 (of_char c) = [c]"
  by (simp add: utf8_def)

lemma parse_esc_char:
  "parse_str (esc_char c @ s) = map_option (\<lambda>(x, r). (c # x, r)) (parse_str s)"
proof -
  have u: "parse_str (u_escape (of_char c) @ s) = map_option (\<lambda>(x, r). (c # x, r)) (parse_str s)"
    if "of_char c < (128 :: nat)"
    using that by (subst parse_u_escape) (simp_all add: utf8_char)
  show ?thesis
  proof (cases "of_char c < (32 :: nat) \<or> c = CHR ''<'' \<or> c = CHR ''>'' \<or> c = CHR ''&''")
    case True
    then have "of_char c < (128 :: nat)" by auto
    from u [OF this] True show ?thesis by (auto simp: esc_char_def)
  next
    case False
    then show ?thesis by (auto simp: esc_char_def)
  qed
qed

lemma parse_esc: "parse_str (esc s @ CHR 34 # r) = Some (s, r)"
proof (induction s rule: esc.induct)
  case (1 s)
  have l: "utf8 0x2028 = line_sep" "utf8 0x2029 = par_sep"
    by (simp_all add: utf8_def line_sep_def par_sep_def char_of_def bit_0)
  consider (line) t where "s = line_sep @ t" | (par) t where "s = par_sep @ t" "\<not> has_prefix s line_sep"
    | (nil) "s = []" | (char) c cs where "s = c # cs" "\<not> has_prefix s line_sep" "\<not> has_prefix s par_sep"
    by (metis has_prefix_iff neq_Nil_conv)
  then show ?case
  proof cases
    case line
    then have e: "esc s = u_escape 0x2028 @ esc t" by (subst esc.simps) (simp add: line_sep_def)
    have "parse_str (esc t @ CHR 34 # r) = Some (t, r)"
      using 1(1) line by (simp add: line_sep_def)
    then show ?thesis unfolding e using line l by (simp add: parse_u_escape)
  next
    case par
    then have e: "esc s = u_escape 0x2029 @ esc t" by (subst esc.simps) (simp add: par_sep_def)
    have "parse_str (esc t @ CHR 34 # r) = Some (t, r)"
      using 1(2) par by (simp add: par_sep_def)
    then show ?thesis unfolding e using par l by (simp add: parse_u_escape)
  next
    case nil
    then have "esc s = []" by (subst esc.simps) (simp add: line_sep_def par_sep_def)
    with nil show ?thesis by simp
  next
    case char
    then have e: "esc s = esc_char c @ esc cs" by (subst esc.simps) simp
    have "parse_str (esc cs @ CHR 34 # r) = Some (cs, r)" using 1(3) char by simp
    then show ?thesis unfolding e using char by (simp add: parse_esc_char)
  qed
qed

definition ends_value :: "string \<Rightarrow> bool" where
  "ends_value r \<longleftrightarrow> r = [] \<or> hd r \<in> {CHR '','', CHR ''}'', CHR '']''}"

text \<open>A literal of a number: what is printed of an integer.\<close>

definition int_literal :: "string \<Rightarrow> bool" where
  "int_literal n \<longleftrightarrow> (\<exists>i. n = itoa i)"

fun plain_json :: "json \<Rightarrow> bool" where
  "plain_json (Num n) \<longleftrightarrow> int_literal n"
| "plain_json (Arr vs) \<longleftrightarrow> list_all plain_json vs"
| "plain_json (Obj ms) \<longleftrightarrow> list_all (\<lambda>(k, v). plain_json v) ms"
| "plain_json _ \<longleftrightarrow> True"

fun jdepth :: "json \<Rightarrow> nat" where
  "jdepth (Arr vs) = Suc (sum_list (map (\<lambda>v. Suc (jdepth v)) vs))"
| "jdepth (Obj ms) = Suc (sum_list (map (\<lambda>(k, v). Suc (jdepth v)) ms))"
| "jdepth _ = 1"

lemma itoa_nat_head:
  "itoa_nat n = d # ds \<Longrightarrow> is_digit d \<and> (d = CHR ''0'' \<longrightarrow> ds = [])"
proof (induction n arbitrary: d ds rule: itoa_nat.induct)
  case (1 n)
  show ?case
  proof (cases "n < 10")
    case True
    with 1(2) show ?thesis by (subst (asm) itoa_nat.simps) auto
  next
    case False
    obtain e es where e: "itoa_nat (n div 10) = e # es" by (cases "itoa_nat (n div 10)") simp_all
    from 1(2) False have "d # ds = itoa_nat (n div 10) @ [digit_char (n mod 10)]"
      by (subst (asm) itoa_nat.simps) simp
    with e have d: "d = e" by simp
    have "e \<noteq> CHR ''0''"
    proof
      assume "e = CHR ''0''"
      with 1(1) [OF False e] e have "itoa_nat (n div 10) = [CHR ''0'']" by simp
      moreover have "dec_val (itoa_nat (n div 10)) = n div 10" by simp
      ultimately have "n div 10 = 0" by (simp add: dec_val_def digit_val_def)
      with False show False by simp
    qed
    with 1(1) [OF False e] d show ?thesis by simp
  qed
qed

lemma parse_num_itoa:
  assumes "ends_value r"
  shows "parse_num (itoa i @ r) = Some (Num (itoa i), r)"
proof -
  have nd: "r = [] \<or> \<not> is_digit (hd r) \<and> hd r \<noteq> CHR ''.'' \<and> hd r \<noteq> CHR ''e'' \<and> hd r \<noteq> CHR ''E''"
    using assms by (auto simp: ends_value_def is_digit_def)
  have span: "span_digits (itoa_nat n @ r) = (itoa_nat n, r)" for n
  proof -
    have "\<forall>c \<in> set (itoa_nat n). is_digit c" using itoa_nat_digits by blast
    with nd show ?thesis
      by (cases r) (auto simp: span_digits_def takeWhile_append dropWhile_append)
  qed
  have fr: "parse_frac r = Some ([], r)" "parse_exp r = Some ([], r)"
    using nd by (auto simp: parse_frac_def parse_exp_def)
  have no_zero: "\<not> (hd (itoa_nat n) = CHR ''0'' \<and> 1 < length (itoa_nat n))" for n
    using itoa_nat_head by (cases "itoa_nat n") fastforce+
  have no_minus: "hd (itoa_nat n @ r) \<noteq> CHR ''-''" for n
    using itoa_nat_head by (cases "itoa_nat n") (fastforce simp: is_digit_def)+
  show ?thesis
  proof (cases "i < 0")
    case True
    then show ?thesis using span no_zero fr by (simp add: itoa_def parse_num_def Let_def)
  next
    case False
    then show ?thesis using span no_zero no_minus fr by (simp add: itoa_def parse_num_def Let_def)
  qed
qed

lemma itoa_head: "\<exists>c cs. itoa i = c # cs \<and> (is_digit c \<or> c = CHR ''-'')"
proof -
  obtain d ds where "itoa_nat (nat \<bar>i\<bar>) = d # ds" by (cases "itoa_nat (nat \<bar>i\<bar>)") simp_all
  with itoa_nat_head [OF this] show ?thesis by (cases "i < 0") (auto simp: itoa_def)
qed

lemma jprint_head:
  assumes "plain_json v"
  shows "\<exists>c cs. jprint v = c # cs \<and> \<not> is_ws c \<and> c \<noteq> CHR ''}'' \<and> c \<noteq> CHR '']''"
proof (cases v)
  case (Num n)
  with assms obtain i where "n = itoa i" by (auto simp: int_literal_def)
  with Num itoa_head [of i] show ?thesis by (auto simp: is_digit_def is_ws_def)
qed (auto simp: is_ws_def quote_def)

lemma skip_ws_cons [simp]: "\<not> is_ws c \<Longrightarrow> skip_ws (c # cs) = c # cs"
  by (simp add: skip_ws_def)

lemma ws_cases [simp]:
  "\<not> is_ws CHR '',''" "\<not> is_ws CHR '']''" "\<not> is_ws CHR ''}''" "\<not> is_ws CHR ''{''" "\<not> is_ws CHR ''[''"
  "\<not> is_ws CHR '':''" "\<not> is_ws CHR 34" "\<not> is_ws CHR ''t''" "\<not> is_ws CHR ''f''" "\<not> is_ws CHR ''n''"
  by (simp_all add: is_ws_def)

lemma ends_value_simps [simp]:
  "ends_value []" "ends_value (CHR '','' # r)" "ends_value (CHR '']'' # r)" "ends_value (CHR ''}'' # r)"
  by (simp_all add: ends_value_def)

lemma parse_elems_print:
  assumes "vs \<noteq> []" and "sum_list (map (\<lambda>v. Suc (jdepth v)) vs) \<le> n"
    and "\<And>v m r. v \<in> set vs \<Longrightarrow> jdepth v \<le> m \<Longrightarrow> ends_value r \<Longrightarrow> parse_val m (jprint v @ r) = Some (v, r)"
  shows "parse_elems n (jprint_elems vs @ CHR '']'' # r) = Some (vs, r)"
  using assms
proof (induction vs arbitrary: n rule: list_nonempty_induct)
  case (single v)
  then obtain m where "n = Suc m" "jdepth v \<le> m" by (cases n) auto
  with single(2) [of v m "CHR '']'' # r"] show ?case by simp
next
  case (cons v ws)
  then obtain w vs where ws: "ws = w # vs" by (cases ws) auto
  from cons(3) obtain m where m: "n = Suc m" "jdepth v \<le> m" "sum_list (map (\<lambda>v. Suc (jdepth v)) ws) \<le> m"
    by (cases n) auto
  have "parse_elems m (jprint_elems ws @ CHR '']'' # r) = Some (ws, r)"
    using cons(2) [OF m(3)] cons(4) by simp
  with cons(4) [of v m "CHR '','' # jprint_elems ws @ CHR '']'' # r"] m ws show ?case by simp
qed

lemma parse_members_print:
  assumes "ms \<noteq> []" and "sum_list (map (\<lambda>(k, v). Suc (jdepth v)) ms) \<le> n"
    and "\<And>k v m r. (k, v) \<in> set ms \<Longrightarrow> jdepth v \<le> m \<Longrightarrow> ends_value r \<Longrightarrow> parse_val m (jprint v @ r) = Some (v, r)"
  shows "parse_members n (jprint_members ms @ CHR ''}'' # r) = Some (ms, r)"
  using assms
proof (induction ms arbitrary: n rule: list_nonempty_induct)
  case (single p)
  obtain k v where p: "p = (k, v)" by (cases p)
  from single p obtain m where "n = Suc m" "jdepth v \<le> m" by (cases n) auto
  with single(2) [of k v m "CHR ''}'' # r"] p show ?case by (simp add: quote_def parse_esc)
next
  case (cons p ws)
  then obtain w ms where ws: "ws = w # ms" by (cases ws) auto
  obtain k v where p: "p = (k, v)" by (cases p)
  from cons(3) p obtain m where m: "n = Suc m" "jdepth v \<le> m" "sum_list (map (\<lambda>(k, v). Suc (jdepth v)) ws) \<le> m"
    by (cases n) auto
  have "parse_members m (jprint_members ws @ CHR ''}'' # r) = Some (ws, r)"
    using cons(2) [OF m(3)] cons(4) by auto
  with cons(4) [of k v m "CHR '','' # jprint_members ws @ CHR ''}'' # r"] m p ws show ?case
    by (simp add: quote_def parse_esc)
qed

lemma parse_val_print:
  "plain_json v \<Longrightarrow> jdepth v \<le> n \<Longrightarrow> ends_value r \<Longrightarrow> parse_val n (jprint v @ r) = Some (v, r)"
proof (induction v arbitrary: n r)
  case Null
  then show ?case by (cases n) auto
next
  case (Bool b)
  then show ?case by (cases n) auto
next
  case (Num l)
  then obtain i m where l: "l = itoa i" "n = Suc m" by (cases n) (auto simp: int_literal_def)
  obtain c cs where c: "itoa i = c # cs" "is_digit c \<or> c = CHR ''-''" using itoa_head by blast
  then have "\<not> is_ws c" "c \<noteq> CHR ''{''" "c \<noteq> CHR ''[''" "c \<noteq> CHR 34" "c \<noteq> CHR ''t''" "c \<noteq> CHR ''f''"
    "c \<noteq> CHR ''n''" by (auto simp: is_ws_def is_digit_def)
  moreover have "parse_num (c # cs @ r) = Some (Num l, r)"
    using parse_num_itoa [OF Num(3), of i] c l by simp
  ultimately show ?case using c l by simp
next
  case (Str x)
  then show ?case by (cases n) (auto simp: quote_def parse_esc)
next
  case (Arr vs)
  then obtain m where m: "n = Suc m" "sum_list (map (\<lambda>v. Suc (jdepth v)) vs) \<le> m" by (cases n) auto
  show ?case
  proof (cases vs)
    case Nil
    with m show ?thesis by simp
  next
    case (Cons v ws)
    have "parse_elems m (jprint_elems vs @ CHR '']'' # r) = Some (vs, r)"
      using Arr Cons m by (intro parse_elems_print) (auto simp: list_all_iff)
    moreover obtain c cs where "jprint v = c # cs" "\<not> is_ws c" "c \<noteq> CHR '']''"
      using jprint_head [of v] Arr(2) Cons by auto
    then have "\<not> has_prefix (skip_ws (jprint_elems vs @ CHR '']'' # r)) '']''"
      using Cons by (cases ws) simp_all
    ultimately show ?thesis using m by simp
  qed
next
  case (Obj ms)
  then obtain m where m: "n = Suc m" "sum_list (map (\<lambda>(k, v). Suc (jdepth v)) ms) \<le> m" by (cases n) auto
  show ?case
  proof (cases ms)
    case Nil
    with m show ?thesis by simp
  next
    case (Cons p ws)
    have "parse_members m (jprint_members ms @ CHR ''}'' # r) = Some (ms, r)"
      using Obj Cons m by (intro parse_members_print) (fastforce simp: list_all_iff)+
    moreover have "\<not> has_prefix (skip_ws (jprint_members ms @ CHR ''}'' # r)) ''}''"
      using Cons by (cases p; cases ws) (simp_all add: quote_def)
    ultimately show ?thesis using m by simp
  qed
qed

text \<open>Printing and parsing are inverse.\<close>

lemma json_parse_print: "plain_json v \<Longrightarrow> json_parse (jprint v) = Some v"
  using parse_val_print [of v "max (jdepth v) (2 * length (jprint v) + 1)" "[]"]
    json_parse_fuel [of "jprint v" "max (jdepth v) (2 * length (jprint v) + 1)"]
  by (simp add: skip_ws_def)

end
