(* ===== verification/Lbjson.thy ===== *)
theory Lbjson
  imports Json Lbtypes
begin

text \<open>
  The JSON forms of the services and of the configuration: the fields of the struct tags of
  \<open>pkg/lbm/types.go\<close>, \<open>pkg/lbm/lvsconf.go\<close> and \<open>pkg/conf/conf.go\<close>, with \<open>omitempty\<close> on output, and
  decoding over a value that is already there on input.  A member whose value has the wrong type
  makes the whole call fail, \<open>null\<close> leaves a field as it is, a name matches a field exactly or
  without regard to case, and an unknown name is skipped.
\<close>

section \<open>Decoding\<close>

definition lower :: "char \<Rightarrow> char" where
  "lower c = (if 65 \<le> (of_char c :: nat) \<and> (of_char c :: nat) \<le> 90 then char_of (of_char c + 32 :: nat) else c)"

type_synonym 'a fields = "(string \<times> (json \<Rightarrow> 'a \<Rightarrow> 'a option)) list"

definition find_field :: "'a fields \<Rightarrow> string \<Rightarrow> (json \<Rightarrow> 'a \<Rightarrow> 'a option) option" where
  "find_field fs k =
     (case map_of fs k of
        Some f \<Rightarrow> Some f
      | None \<Rightarrow> map_option snd (List.find (\<lambda>(n, f). map lower n = map lower k) fs))"

fun decode_members :: "'a fields \<Rightarrow> (string \<times> json) list \<Rightarrow> 'a \<Rightarrow> 'a option" where
  "decode_members fs [] x = Some x"
| "decode_members fs ((k, v) # ms) x =
     (case find_field fs k of
        None \<Rightarrow> decode_members fs ms x
      | Some f \<Rightarrow> (case f v x of None \<Rightarrow> None | Some y \<Rightarrow> decode_members fs ms y))"

definition decode_struct :: "'a fields \<Rightarrow> json \<Rightarrow> 'a \<Rightarrow> 'a option" where
  "decode_struct fs v x =
     (case v of Null \<Rightarrow> Some x | Obj ms \<Rightarrow> decode_members fs ms x | _ \<Rightarrow> None)"

definition parse_int64 :: "string \<Rightarrow> int option" where
  "parse_int64 l =
     (let neg = (l \<noteq> [] \<and> hd l = CHR ''-''); ds = (if neg then tl l else l); n = int (dec_val ds)
      in if ds = [] \<or> \<not> list_all is_digit ds then None
         else if neg then (if n \<le> 2 ^ 63 then Some (- n) else None)
         else if n < 2 ^ 63 then Some n else None)"

definition parse_uint64 :: "string \<Rightarrow> nat option" where
  "parse_uint64 l =
     (if l = [] \<or> \<not> list_all is_digit l \<or> 2 ^ 64 \<le> dec_val l then None else Some (dec_val l))"

definition fld_str :: "((string \<Rightarrow> string) \<Rightarrow> 'a \<Rightarrow> 'a) \<Rightarrow> json \<Rightarrow> 'a \<Rightarrow> 'a option" where
  "fld_str upd v x = (case v of Null \<Rightarrow> Some x | Str s \<Rightarrow> Some (upd (\<lambda>_. s) x) | _ \<Rightarrow> None)"

definition fld_int :: "((int \<Rightarrow> int) \<Rightarrow> 'a \<Rightarrow> 'a) \<Rightarrow> json \<Rightarrow> 'a \<Rightarrow> 'a option" where
  "fld_int upd v x =
     (case v of
        Null \<Rightarrow> Some x
      | Num l \<Rightarrow> (case parse_int64 l of None \<Rightarrow> None | Some i \<Rightarrow> Some (upd (\<lambda>_. i) x))
      | _ \<Rightarrow> None)"

definition fld_uint :: "((nat \<Rightarrow> nat) \<Rightarrow> 'a \<Rightarrow> 'a) \<Rightarrow> json \<Rightarrow> 'a \<Rightarrow> 'a option" where
  "fld_uint upd v x =
     (case v of
        Null \<Rightarrow> Some x
      | Num l \<Rightarrow> (case parse_uint64 l of None \<Rightarrow> None | Some n \<Rightarrow> Some (upd (\<lambda>_. n) x))
      | _ \<Rightarrow> None)"

definition fld_bool :: "((bool \<Rightarrow> bool) \<Rightarrow> 'a \<Rightarrow> 'a) \<Rightarrow> json \<Rightarrow> 'a \<Rightarrow> 'a option" where
  "fld_bool upd v x = (case v of Null \<Rightarrow> Some x | Bool b \<Rightarrow> Some (upd (\<lambda>_. b) x) | _ \<Rightarrow> None)"

definition fld_struct ::
  "('b fields) \<Rightarrow> ('a \<Rightarrow> 'b) \<Rightarrow> (('b \<Rightarrow> 'b) \<Rightarrow> 'a \<Rightarrow> 'a) \<Rightarrow> json \<Rightarrow> 'a \<Rightarrow> 'a option" where
  "fld_struct fs get upd v x =
     (case decode_struct fs v (get x) of None \<Rightarrow> None | Some y \<Rightarrow> Some (upd (\<lambda>_. y) x))"

text \<open>A slice keeps its memory: element \<open>i\<close> is decoded over the element \<open>i\<close> that was there.\<close>

fun decode_elems :: "'b fields \<Rightarrow> 'b \<Rightarrow> json list \<Rightarrow> 'b list \<Rightarrow> 'b list option" where
  "decode_elems fs zero [] olds = Some []"
| "decode_elems fs zero (v # vs) olds =
     (case decode_struct fs v (case olds of [] \<Rightarrow> zero | y # ys \<Rightarrow> y) of
        None \<Rightarrow> None
      | Some x \<Rightarrow> map_option (\<lambda>xs. x # xs) (decode_elems fs zero vs (tl olds)))"

definition fld_list ::
  "'b fields \<Rightarrow> 'b \<Rightarrow> ('a \<Rightarrow> 'b list) \<Rightarrow> (('b list \<Rightarrow> 'b list) \<Rightarrow> 'a \<Rightarrow> 'a) \<Rightarrow> json \<Rightarrow> 'a \<Rightarrow> 'a option" where
  "fld_list fs zero get upd v x =
     (case v of
        Null \<Rightarrow> Some (upd (\<lambda>_. []) x)
      | Arr vs \<Rightarrow> map_option (\<lambda>ys. upd (\<lambda>_. ys) x) (decode_elems fs zero vs (get x))
      | _ \<Rightarrow> None)"

section \<open>Encoding\<close>

definition enc_str :: "string \<Rightarrow> string \<Rightarrow> (string \<times> json) list" where
  "enc_str n s = (if s = [] then [] else [(n, Str s)])"

definition enc_int :: "string \<Rightarrow> int \<Rightarrow> (string \<times> json) list" where
  "enc_int n i = (if i = 0 then [] else [(n, Num (itoa i))])"

definition enc_uint :: "string \<Rightarrow> nat \<Rightarrow> (string \<times> json) list" where
  "enc_uint n i = (if i = 0 then [] else [(n, Num (itoa (int i)))])"

definition enc_bool :: "string \<Rightarrow> bool \<Rightarrow> (string \<times> json) list" where
  "enc_bool n b = (if b then [(n, Bool True)] else [])"

definition enc_struct :: "string \<Rightarrow> (string \<times> json) list \<Rightarrow> (string \<times> json) list" where
  "enc_struct n ms = [(n, Obj ms)]"

definition enc_list :: "string \<Rightarrow> ('b \<Rightarrow> (string \<times> json) list) \<Rightarrow> 'b list \<Rightarrow> (string \<times> json) list" where
  "enc_list n f xs = (if xs = [] then [] else [(n, Arr (map (\<lambda>x. Obj (f x)) xs))])"

section \<open>The services\<close>

definition backend_fields :: "backend fields" where
  "backend_fields = [(''ip'', fld_str be_ip_update), (''port'', fld_int be_port_update),
     (''weight'', fld_int be_weight_update)]"

definition backend_zero :: backend where
  "backend_zero = \<lparr>be_ip = [], be_port = 0, be_weight = 0\<rparr>"

definition backend_members :: "backend \<Rightarrow> (string \<times> json) list" where
  "backend_members b = enc_str ''ip'' (be_ip b) @ enc_int ''port'' (be_port b) @ enc_int ''weight'' (be_weight b)"

definition health_fields :: "health_check fields" where
  "health_fields = [(''type'', fld_str hc_type_update), (''path'', fld_str hc_url_path_update),
     (''expectCode'', fld_int hc_status_code_update), (''interval'', fld_int hc_interval_update),
     (''rise'', fld_int hc_rise_update), (''timeout'', fld_int hc_timeout_update),
     (''retrys'', fld_int hc_max_retries_update), (''delay'', fld_int hc_delay_update),
     (''enable'', fld_bool hc_enable_update)]"

definition health_members :: "health_check \<Rightarrow> (string \<times> json) list" where
  "health_members h = enc_str ''type'' (hc_type h) @ enc_str ''path'' (hc_url_path h) @
     enc_int ''expectCode'' (hc_status_code h) @ enc_int ''interval'' (hc_interval h) @
     enc_int ''rise'' (hc_rise h) @ enc_int ''timeout'' (hc_timeout h) @
     enc_int ''retrys'' (hc_max_retries h) @ enc_int ''delay'' (hc_delay h) @
     enc_bool ''enable'' (hc_enable h)"

definition status_fields :: "lb_status fields" where
  "status_fields = [(''status'', fld_str ls_status_update), (''msg'', fld_str ls_msg_update),
     (''ip'', fld_str ls_ip_update), (''hostname'', fld_str ls_host_name_update)]"

definition status_members :: "lb_status \<Rightarrow> (string \<times> json) list" where
  "status_members s = enc_str ''status'' (ls_status s) @ enc_str ''msg'' (ls_msg s) @
     enc_str ''ip'' (ls_ip s) @ enc_str ''hostname'' (ls_host_name s)"

text \<open>The fields of the embedded \<open>LBCommon\<close> are fields of the service.\<close>

definition common_fields ::
  "('a \<Rightarrow> lb_common) \<Rightarrow> ((lb_common \<Rightarrow> lb_common) \<Rightarrow> 'a \<Rightarrow> 'a) \<Rightarrow> 'a fields" where
  "common_fields get upd = [(''id'', fld_str (\<lambda>f. upd (lb_id_update f))),
     (''name'', fld_str (\<lambda>f. upd (lb_name_update f))),
     (''type'', fld_str (\<lambda>f. upd (lb_kind_update f))),
     (''cluster'', fld_str (\<lambda>f. upd (lb_cluster_update f))),
     (''protocol'', fld_str (\<lambda>f. upd (lb_protocol_update f))),
     (''result'', fld_struct status_fields (\<lambda>x. lb_result (get x)) (\<lambda>f. upd (lb_result_update f)))]"

definition common_members :: "lb_common \<Rightarrow> (string \<times> json) list" where
  "common_members c = enc_str ''id'' (lb_id c) @ enc_str ''name'' (lb_name c) @
     enc_str ''type'' (lb_kind c) @ enc_str ''cluster'' (lb_cluster c) @
     enc_str ''protocol'' (lb_protocol c) @ enc_struct ''result'' (status_members (lb_result c))"

definition conf_fields :: "lvs_conf fields" where
  "conf_fields = [(''algo'', fld_str lv_strategy_update),
     (''persistenceTimeout'', fld_uint lv_persistence_timeout_update),
     (''synProxy'', fld_bool lv_syn_proxy_update), (''kind'', fld_str lv_kind_update),
     (''bpsLimit'', fld_uint lv_bps_limit_update), (''cpsLimit'', fld_uint lv_cps_limit_update)]"

definition conf_members :: "lvs_conf \<Rightarrow> (string \<times> json) list" where
  "conf_members c = enc_str ''algo'' (lv_strategy c) @
     enc_uint ''persistenceTimeout'' (lv_persistence_timeout c) @
     enc_bool ''synProxy'' (lv_syn_proxy c) @ enc_str ''kind'' (lv_kind c) @
     enc_uint ''bpsLimit'' (lv_bps_limit c) @ enc_uint ''cpsLimit'' (lv_cps_limit c)"

definition lvs_fields :: "lvs fields" where
  "lvs_fields = common_fields lvs_common lvs_common_update @
     [(''vip'', fld_str lvs_vip_update), (''port'', fld_int lvs_port_update),
      (''conf'', fld_struct conf_fields lvs_conf lvs_conf_update),
      (''monitor'', fld_struct health_fields lvs_monitor lvs_monitor_update),
      (''servers'', fld_list backend_fields backend_zero lvs_servers lvs_servers_update)]"

definition lvs_members :: "lvs \<Rightarrow> (string \<times> json) list" where
  "lvs_members l = common_members (lvs_common l) @ enc_str ''vip'' (lvs_vip l) @
     enc_int ''port'' (lvs_port l) @ enc_struct ''conf'' (conf_members (lvs_conf l)) @
     enc_struct ''monitor'' (health_members (lvs_monitor l)) @
     enc_list ''servers'' backend_members (lvs_servers l)"

definition lvs_marshal :: "lvs \<Rightarrow> string" where
  "lvs_marshal l = jprint (Obj (lvs_members l))"

definition lvs_unmarshal :: "string \<Rightarrow> lvs \<Rightarrow> lvs option" where
  "lvs_unmarshal data l =
     (case json_parse data of None \<Rightarrow> None | Some v \<Rightarrow> decode_struct lvs_fields v l)"

definition session_fields :: "session_persistence fields" where
  "session_fields = [(''name'', fld_str sp_name_update), (''domain'', fld_str sp_domain_update),
     (''path'', fld_str sp_path_update), (''expire'', fld_int sp_expires_update),
     (''enable'', fld_bool sp_enable_update)]"

definition pool_fields :: "pool fields" where
  "pool_fields = [(''name'', fld_str po_name_update), (''algo'', fld_str po_strategy_update),
     (''session'', fld_struct session_fields po_session po_session_update),
     (''servers'', fld_list backend_fields backend_zero po_servers po_servers_update)]"

definition pool_zero :: pool where
  "pool_zero = \<lparr>po_name = [], po_strategy = [],
     po_session = \<lparr>sp_name = [], sp_domain = [], sp_path = [], sp_expires = 0, sp_enable = False\<rparr>,
     po_servers = []\<rparr>"

definition location_fields :: "location fields" where
  "location_fields = [(''path'', fld_str loc_uri_path_update), (''pool'', fld_str loc_pool_name_update)]"

definition location_zero :: location where
  "location_zero = \<lparr>loc_uri_path = [], loc_pool_name = []\<rparr>"

definition rule_fields :: "l7_rule fields" where
  "rule_fields = [(''type'', fld_str lr_type_update), (''compare'', fld_str lr_compare_type_update),
     (''key'', fld_str lr_key_update), (''value'', fld_str lr_value_update),
     (''invert'', fld_bool lr_invert_update)]"

definition rule_zero :: l7_rule where
  "rule_zero = \<lparr>lr_type = [], lr_compare_type = [], lr_key = [], lr_value = [], lr_invert = False\<rparr>"

definition policy_fields :: "l7_policy fields" where
  "policy_fields = [(''name'', fld_str lp_name_update), (''action'', fld_str lp_action_update),
     (''redirectPool'', fld_str lp_redirect_pool_update), (''redirectURL'', fld_str lp_redirect_url_update),
     (''rules'', fld_list rule_fields rule_zero lp_rules lp_rules_update)]"

definition policy_zero :: l7_policy where
  "policy_zero = \<lparr>lp_name = [], lp_action = [], lp_redirect_pool = [], lp_redirect_url = [], lp_rules = []\<rparr>"

definition nginx_fields :: "nginx fields" where
  "nginx_fields = common_fields ng_common ng_common_update @
     [(''vip'', fld_str ng_vip_update), (''port'', fld_int ng_port_update),
      (''monitor'', fld_struct health_fields ng_monitor ng_monitor_update),
      (''pools'', fld_list pool_fields pool_zero ng_pools ng_pools_update),
      (''locations'', fld_list location_fields location_zero ng_locations ng_locations_update),
      (''policy'', fld_list policy_fields policy_zero ng_policy ng_policy_update)]"

definition nginx_unmarshal :: "string \<Rightarrow> nginx \<Rightarrow> nginx option" where
  "nginx_unmarshal data n =
     (case json_parse data of None \<Rightarrow> None | Some v \<Rightarrow> decode_struct nginx_fields v n)"

section \<open>The configuration\<close>

definition keepalived_fields :: "keepalived_conf fields" where
  "keepalived_fields = [(''confPath'', fld_str kc_conf_dir_update),
     (''reloadPeriod'', fld_int kc_reload_time_update), (''miscScript'', fld_str kc_misc_script_update)]"

definition stats_fields :: "lvs_stats_conf fields" where
  "stats_fields = [(''path'', fld_str sc_result_path_update), (''listen'', fld_int sc_port_update)]"

definition laddr_fields :: "local_addr_conf fields" where
  "laddr_fields = [(''name'', fld_str la_name_update), (''dest'', fld_str la_dest_cidr_update)]"

definition laddr_zero :: local_addr_conf where
  "laddr_zero = \<lparr>la_name = [], la_dest_cidr = []\<rparr>"

definition l4_fields :: "l4_conf fields" where
  "l4_fields = [(''subnet'', fld_str l4_subnet_name_update), (''subnetCIDR'', fld_str l4_subnet_cidr_update),
     (''portBase'', fld_int l4_port_base_update),
     (''keepalived'', fld_struct keepalived_fields l4_kconf l4_kconf_update),
     (''stats'', fld_struct stats_fields l4_stats l4_stats_update),
     (''laddr'', fld_list laddr_fields laddr_zero l4_laddr l4_laddr_update)]"

definition lb_conf_fields :: "lb_conf fields" where
  "lb_conf_fields = [(''type'', fld_str lc_type_update), (''store'', fld_str lc_store_prefix_update),
     (''cluster'', fld_str lc_cluster_name_update), (''catalog'', fld_str lc_catalog_update),
     (''confPath'', fld_str lc_conf_dir_update), (''l4'', fld_struct l4_fields lc_l4 lc_l4_update)]"

definition conf_path :: string where
  "conf_path = ''/etc/lb/lb.conf''"

text \<open>\<open>conf.Init\<close>: the configuration and the local address groups, or \<open>None\<close> where the code ends the
  process.\<close>

definition conf_init :: "os \<Rightarrow> (lb_conf \<times> laddr_map) option" where
  "conf_init w =
     (case os_read_file w conf_path of
        Inl e \<Rightarrow> None
      | Inr data \<Rightarrow>
          (case json_parse data of
             None \<Rightarrow> None
           | Some v \<Rightarrow>
               (case decode_struct lb_conf_fields v conf_defaults of
                  None \<Rightarrow> None
                | Some c \<Rightarrow>
                    (case lb_conf_check w c [] of
                       (Some e, m) \<Rightarrow> None
                     | (None, m) \<Rightarrow> Some (c, m)))))"

section \<open>What is written is read back, over the defaults\<close>

lemma decode_members_append:
  "decode_members fs (xs @ ys) d =
     (case decode_members fs xs d of None \<Rightarrow> None | Some d' \<Rightarrow> decode_members fs ys d')"
proof (induction xs arbitrary: d)
  case Nil
  then show ?case by simp
next
  case (Cons x xs)
  then show ?case by (cases x) (auto split: option.splits)
qed

definition int64 :: "int \<Rightarrow> bool" where
  "int64 i \<longleftrightarrow> - (2 ^ 63) \<le> i \<and> i < 2 ^ 63"

lemma digits_itoa_nat: "list_all is_digit (itoa_nat n)"
  using itoa_nat_digits by (auto simp: list_all_iff)

lemma parse_int64_itoa: "int64 i \<Longrightarrow> parse_int64 (itoa i) = Some i"
proof (cases "i < 0")
  case True
  moreover assume "int64 i"
  ultimately show ?thesis
    by (simp add: parse_int64_def itoa_def digits_itoa_nat Let_def int64_def)
next
  case False
  moreover assume "int64 i"
  moreover have "hd (itoa_nat (nat i)) \<noteq> CHR ''-''"
    using itoa_nat_head by (cases "itoa_nat (nat i)") (fastforce simp: is_digit_def)+
  ultimately show ?thesis
    by (simp add: parse_int64_def itoa_def digits_itoa_nat Let_def int64_def)
qed

lemma parse_uint64_itoa: "n < 2 ^ 64 \<Longrightarrow> parse_uint64 (itoa (int n)) = Some n"
  by (simp add: parse_uint64_def itoa_def digits_itoa_nat)

text \<open>A field written with \<open>omitempty\<close> and read back over a value keeps that value when it is zero.\<close>

definition over :: "'b \<Rightarrow> 'b \<Rightarrow> 'b \<Rightarrow> 'b" where
  "over zero new old = (if new = zero then old else new)"

lemma over_fun [simp]: "over z z = (\<lambda>y. y)" "x \<noteq> z \<Longrightarrow> over z x = (\<lambda>_. x)"
  by (simp_all add: over_def fun_eq_iff)

lemma over_zero [simp]: "over z x z = x"
  by (simp add: over_def)

lemma decode_enc_str:
  "find_field fs n = Some (fld_str upd) \<Longrightarrow> (\<And>x. upd (\<lambda>y. y) x = x) \<Longrightarrow>
     decode_members fs (enc_str n s) d = Some (upd (over [] s) d)"
  by (cases "s = []") (simp_all add: enc_str_def fld_str_def)

lemma decode_enc_int:
  "find_field fs n = Some (fld_int upd) \<Longrightarrow> (\<And>x. upd (\<lambda>y. y) x = x) \<Longrightarrow> int64 i \<Longrightarrow>
     decode_members fs (enc_int n i) d = Some (upd (over 0 i) d)"
  by (cases "i = 0") (simp_all add: enc_int_def fld_int_def parse_int64_itoa)

lemma decode_enc_uint:
  "find_field fs n = Some (fld_uint upd) \<Longrightarrow> (\<And>x. upd (\<lambda>y. y) x = x) \<Longrightarrow> i < 2 ^ 64 \<Longrightarrow>
     decode_members fs (enc_uint n i) d = Some (upd (over 0 i) d)"
  by (cases "i = 0") (simp_all add: enc_uint_def fld_uint_def parse_uint64_itoa)

lemma decode_enc_bool:
  "find_field fs n = Some (fld_bool upd) \<Longrightarrow> (\<And>x. upd (\<lambda>y. y) x = x) \<Longrightarrow>
     decode_members fs (enc_bool n b) d = Some (upd (over False b) d)"
  by (cases b) (simp_all add: enc_bool_def fld_bool_def)

lemma decode_enc_struct:
  "find_field fs n = Some (fld_struct fs' get upd) \<Longrightarrow> decode_members fs' ms (get d) = Some y \<Longrightarrow>
     decode_members fs (enc_struct n ms) d = Some (upd (\<lambda>_. y) d)"
  by (simp add: enc_struct_def fld_struct_def decode_struct_def)

lemma decode_elems_map:
  "(\<And>x. x \<in> set xs \<Longrightarrow> decode_members fs (f x) zero = Some x) \<Longrightarrow>
     decode_elems fs zero (map (\<lambda>x. Obj (f x)) xs) [] = Some xs"
  by (induction xs) (auto simp: decode_struct_def)

lemma decode_enc_list:
  "find_field fs n = Some (fld_list fs' zero get upd) \<Longrightarrow> get d = [] \<Longrightarrow> (\<And>x. upd (\<lambda>y. y) x = x) \<Longrightarrow>
     (\<And>x. x \<in> set xs \<Longrightarrow> decode_members fs' (f x) zero = Some x) \<Longrightarrow>
     decode_members fs (enc_list n f xs) d = Some (upd (over [] xs) d)"
  by (cases "xs = []") (simp_all add: enc_list_def fld_list_def decode_elems_map)

definition backend_wf :: "backend \<Rightarrow> bool" where
  "backend_wf b \<longleftrightarrow> int64 (be_port b) \<and> int64 (be_weight b)"

definition health_wf :: "health_check \<Rightarrow> bool" where
  "health_wf h \<longleftrightarrow> int64 (hc_status_code h) \<and> int64 (hc_interval h) \<and> int64 (hc_rise h) \<and>
     int64 (hc_timeout h) \<and> int64 (hc_max_retries h) \<and> int64 (hc_delay h)"

definition conf_wf :: "lvs_conf \<Rightarrow> bool" where
  "conf_wf c \<longleftrightarrow> lv_persistence_timeout c < 2 ^ 64 \<and> lv_bps_limit c < 2 ^ 64 \<and> lv_cps_limit c < 2 ^ 64"

text \<open>The integers of a service are those of the machine.\<close>

definition lvs_wf :: "lvs \<Rightarrow> bool" where
  "lvs_wf l \<longleftrightarrow> int64 (lvs_port l) \<and> health_wf (lvs_monitor l) \<and> conf_wf (lvs_conf l) \<and>
     (\<forall>b \<in> set (lvs_servers l). backend_wf b)"

lemmas decode_enc = decode_members_append decode_enc_str decode_enc_int decode_enc_uint decode_enc_bool

lemma decode_backend: "backend_wf b \<Longrightarrow> decode_members backend_fields (backend_members b) backend_zero = Some b"
  unfolding backend_members_def backend_wf_def
  by (simp add: decode_enc decode_enc_int [where upd = be_port_update]
      decode_enc_int [where upd = be_weight_update] decode_enc_str [where upd = be_ip_update]
      backend_fields_def find_field_def backend_zero_def)

lemma decode_status:
  "decode_members status_fields (status_members s) no_status = Some s"
  unfolding status_members_def
  by (simp add: decode_enc status_fields_def find_field_def no_status_def
      decode_enc_str [where upd = ls_status_update] decode_enc_str [where upd = ls_msg_update]
      decode_enc_str [where upd = ls_ip_update] decode_enc_str [where upd = ls_host_name_update])

lemma decode_health:
  assumes "health_wf h"
  shows "decode_members health_fields (health_members h) d =
    Some \<lparr>hc_type = over [] (hc_type h) (hc_type d), hc_url_path = over [] (hc_url_path h) (hc_url_path d),
      hc_status_code = over 0 (hc_status_code h) (hc_status_code d),
      hc_interval = over 0 (hc_interval h) (hc_interval d), hc_rise = over 0 (hc_rise h) (hc_rise d),
      hc_timeout = over 0 (hc_timeout h) (hc_timeout d),
      hc_max_retries = over 0 (hc_max_retries h) (hc_max_retries d),
      hc_delay = over 0 (hc_delay h) (hc_delay d), hc_enable = over False (hc_enable h) (hc_enable d)\<rparr>"
  using assms unfolding health_members_def health_wf_def
  by (simp add: decode_members_append health_fields_def find_field_def
      decode_enc_str [where upd = hc_type_update] decode_enc_str [where upd = hc_url_path_update]
      decode_enc_int [where upd = hc_status_code_update] decode_enc_int [where upd = hc_interval_update]
      decode_enc_int [where upd = hc_rise_update] decode_enc_int [where upd = hc_timeout_update]
      decode_enc_int [where upd = hc_max_retries_update] decode_enc_int [where upd = hc_delay_update]
      decode_enc_bool [where upd = hc_enable_update])

lemma decode_conf:
  assumes "conf_wf c"
  shows "decode_members conf_fields (conf_members c) d =
    Some \<lparr>lv_strategy = over [] (lv_strategy c) (lv_strategy d),
      lv_persistence_timeout = over 0 (lv_persistence_timeout c) (lv_persistence_timeout d),
      lv_syn_proxy = over False (lv_syn_proxy c) (lv_syn_proxy d),
      lv_kind = over [] (lv_kind c) (lv_kind d),
      lv_bps_limit = over 0 (lv_bps_limit c) (lv_bps_limit d),
      lv_cps_limit = over 0 (lv_cps_limit c) (lv_cps_limit d)\<rparr>"
  using assms unfolding conf_members_def conf_wf_def
  by (simp add: decode_members_append conf_fields_def find_field_def
      decode_enc_str [where upd = lv_strategy_update] decode_enc_str [where upd = lv_kind_update]
      decode_enc_uint [where upd = lv_persistence_timeout_update]
      decode_enc_uint [where upd = lv_bps_limit_update] decode_enc_uint [where upd = lv_cps_limit_update]
      decode_enc_bool [where upd = lv_syn_proxy_update])

lemma common_find:
  assumes "fs = common_fields get upd @ gs"
  shows "find_field fs ''id'' = Some (fld_str (\<lambda>f. upd (lb_id_update f)))"
    and "find_field fs ''name'' = Some (fld_str (\<lambda>f. upd (lb_name_update f)))"
    and "find_field fs ''type'' = Some (fld_str (\<lambda>f. upd (lb_kind_update f)))"
    and "find_field fs ''cluster'' = Some (fld_str (\<lambda>f. upd (lb_cluster_update f)))"
    and "find_field fs ''protocol'' = Some (fld_str (\<lambda>f. upd (lb_protocol_update f)))"
    and "find_field fs ''result''
      = Some (fld_struct status_fields (\<lambda>x. lb_result (get x)) (\<lambda>f. upd (lb_result_update f)))"
  unfolding assms by (simp_all add: find_field_def common_fields_def)

text \<open>A service over the defaults of \<open>NewLVS\<close>.\<close>

definition common_over :: "lb_common \<Rightarrow> lb_common" where
  "common_over c = \<lparr>lb_id = lb_id c, lb_name = lb_name c, lb_kind = over [] (lb_kind c) ''l4'',
     lb_cluster = lb_cluster c, lb_protocol = over [] (lb_protocol c) ''TCP'', lb_result = lb_result c\<rparr>"

definition lvs_over :: "lvs \<Rightarrow> lvs" where
  "lvs_over l =
     \<lparr>lvs_common = common_over (lvs_common l), lvs_vip = lvs_vip l, lvs_port = lvs_port l,
      lvs_conf = (lvs_conf l)\<lparr>lv_strategy := over [] (lv_strategy (lvs_conf l)) ''rr'',
        lv_kind := over [] (lv_kind (lvs_conf l)) ''FNAT''\<rparr>,
      lvs_monitor = \<lparr>hc_type = over [] (hc_type (lvs_monitor l)) ''TCP'',
        hc_url_path = over [] (hc_url_path (lvs_monitor l)) ''/'',
        hc_status_code = over 0 (hc_status_code (lvs_monitor l)) 200,
        hc_interval = over 0 (hc_interval (lvs_monitor l)) 7, hc_rise = hc_rise (lvs_monitor l),
        hc_timeout = over 0 (hc_timeout (lvs_monitor l)) 10,
        hc_max_retries = over 0 (hc_max_retries (lvs_monitor l)) 2,
        hc_delay = over 0 (hc_delay (lvs_monitor l)) 5, hc_enable = hc_enable (lvs_monitor l)\<rparr>,
      lvs_servers = lvs_servers l\<rparr>"

lemma decode_common:
  "decode_members lvs_fields (common_members c) new_lvs = Some (new_lvs\<lparr>lvs_common := common_over c\<rparr>)"
  unfolding common_members_def
  using common_find [OF lvs_fields_def]
  by (simp add: decode_members_append
      decode_enc_str [where upd = "\<lambda>f. lvs_common_update (lb_id_update f)"]
      decode_enc_str [where upd = "\<lambda>f. lvs_common_update (lb_name_update f)"]
      decode_enc_str [where upd = "\<lambda>f. lvs_common_update (lb_kind_update f)"]
      decode_enc_str [where upd = "\<lambda>f. lvs_common_update (lb_cluster_update f)"]
      decode_enc_str [where upd = "\<lambda>f. lvs_common_update (lb_protocol_update f)"])
    (simp add: decode_enc_struct [where y = "lb_result c"] decode_status new_lvs_def common_over_def lvs_type_def)

lemma lvs_find:
  "find_field lvs_fields ''vip'' = Some (fld_str lvs_vip_update)"
  "find_field lvs_fields ''port'' = Some (fld_int lvs_port_update)"
  "find_field lvs_fields ''conf'' = Some (fld_struct conf_fields lvs_conf lvs_conf_update)"
  "find_field lvs_fields ''monitor'' = Some (fld_struct health_fields lvs_monitor lvs_monitor_update)"
  "find_field lvs_fields ''servers'' = Some (fld_list backend_fields backend_zero lvs_servers lvs_servers_update)"
  by (simp_all add: find_field_def lvs_fields_def common_fields_def)

lemma decode_lvs:
  assumes "lvs_wf l"
  shows "decode_members lvs_fields (lvs_members l) new_lvs = Some (lvs_over l)"
proof -
  have w: "int64 (lvs_port l)" "health_wf (lvs_monitor l)" "conf_wf (lvs_conf l)"
    "\<And>b. b \<in> set (lvs_servers l) \<Longrightarrow> decode_members backend_fields (backend_members b) backend_zero = Some b"
    using assms decode_backend by (auto simp: lvs_wf_def)
  have d: "lvs_servers new_lvs = []" "lvs_vip new_lvs = []" "lvs_port new_lvs = 0"
    by (simp_all add: new_lvs_def)
  show ?thesis
    unfolding lvs_members_def
    by (simp add: decode_members_append decode_common lvs_find w d decode_conf [OF w(3)] decode_health [OF w(2)]
        decode_enc_str [where upd = lvs_vip_update] decode_enc_int [where upd = lvs_port_update]
        decode_enc_struct [OF lvs_find(3)] decode_enc_struct [OF lvs_find(4)]
        decode_enc_list [OF lvs_find(5)])
      (simp add: lvs_over_def new_lvs_def)
qed

lemma plain_enc [simp]:
  "list_all (\<lambda>(k, v). plain_json v) (enc_str n s)" "list_all (\<lambda>(k, v). plain_json v) (enc_int n i)"
  "list_all (\<lambda>(k, v). plain_json v) (enc_uint n u)" "list_all (\<lambda>(k, v). plain_json v) (enc_bool n b)"
  by (auto simp: enc_str_def enc_int_def enc_uint_def enc_bool_def int_literal_def)

lemma plain_lvs: "plain_json (Obj (lvs_members l))"
proof -
  have "list_all (\<lambda>(k, v). plain_json v) (backend_members b)" for b
    by (simp add: backend_members_def)
  then have "list_all (\<lambda>(k, v). plain_json v) (enc_list ''servers'' backend_members (lvs_servers l))"
    by (simp add: enc_list_def list_all_iff)
  then show ?thesis
    by (simp add: lvs_members_def common_members_def enc_struct_def status_members_def conf_members_def
        health_members_def)
qed

text \<open>Reading back what was written.\<close>

lemma lvs_unmarshal_marshal:
  assumes "lvs_wf l"
  shows "lvs_unmarshal (lvs_marshal l) new_lvs = Some (lvs_over l)"
  using decode_lvs [OF assms] json_parse_print [OF plain_lvs [of l]]
  by (simp add: lvs_unmarshal_def lvs_marshal_def decode_struct_def)

text \<open>C24: what \<open>LVS.Update\<close> writes, read over the defaults of \<open>NewLVS\<close> as \<open>Parse\<close> does, is the service
  with every zero field that has a default replaced by it; quotes, control characters and the
  characters HTML reserves survive in its strings.\<close>

theorem lvs_json_roundtrip:
  assumes "lvs_wf l"
  shows "lvs_unmarshal (lvs_marshal l) new_lvs = Some (lvs_over l)"
  by (rule lvs_unmarshal_marshal [OF assms])

lemma lvs_json_roundtrip_witness:
  "lvs_unmarshal (lvs_marshal demo_svc) new_lvs = Some demo_svc"
proof -
  have "lvs_wf demo_svc"
    by (simp add: lvs_wf_def demo_svc_def new_lvs_def int64_def health_wf_def conf_wf_def backend_wf_def)
  from lvs_json_roundtrip [OF this] show ?thesis
    by (simp add: lvs_over_def common_over_def over_def demo_svc_def new_lvs_def lvs_type_def)
qed

end
