(* ===== verification/Tmpl.thy ===== *)
theory Tmpl
  imports Lbtypes
begin

text \<open>
  The two templates of \<open>pkg/lbm/tmpl.go\<close>, as the text that \<open>text/template\<close> makes of them.  An action
  leaves nothing behind but the line it stands on, strings are inserted as they are and numbers in
  decimal.
\<close>

section \<open>Lines\<close>

definition nl :: string where
  "nl = [CHR 10]"

definition ln :: "nat \<Rightarrow> string \<Rightarrow> string" where
  "ln tabs s = replicate tabs (CHR 9) @ s @ nl"

definition dq :: string where
  "dq = [CHR 34]"

text \<open>\<open>{{if x}}s{{end}}\<close>\<close>

definition opt_text :: "bool \<Rightarrow> string \<Rightarrow> string" where
  "opt_text b s = (if b then s else [])"

definition itoa_uint :: "nat \<Rightarrow> string" where
  "itoa_uint n = itoa (int n)"

section \<open>keepalived\<close>

text \<open>\<open>LVSInner\<close>: what the template of an LVS service is filled with.\<close>

record lvs_inner =
  in_lvs :: lvs
  in_laddr_group :: string
  in_kconf :: keepalived_conf

definition lvs_check_tmpl :: "lvs_inner \<Rightarrow> backend \<Rightarrow> string" where
  "lvs_check_tmpl x b =
     (let m = lvs_monitor (in_lvs x)
      in if hc_type m = ''MISC'' then
           nl @ ln 2 ''MISC_CHECK {'' @
           ln 3 (''misc_path '' @ dq @ kc_misc_script (in_kconf x) @ '' '' @ be_ip b @ '' '' @ itoa (be_port b) @ dq) @
           ln 3 (''misc_timeout '' @ itoa (hc_timeout m)) @ ln 2 ''}'' @ [CHR 9, CHR 9]
         else if hc_type m = ''HTTP'' then
           nl @ ln 2 ''HTTP_GET {'' @ ln 3 ''url {'' @ ln 4 (''path '' @ hc_url_path m) @
           ln 4 (''status_code '' @ itoa (hc_status_code m)) @ ln 3 ''}'' @
           ln 3 (''connect_timeout '' @ itoa (hc_timeout m)) @
           ln 3 (''nb_get_retry '' @ itoa (hc_max_retries m)) @
           ln 3 ''delay_before_retry {$monitor.Delay}}'' @ ln 2 ''}'' @ [CHR 9, CHR 9]
         else
           nl @ ln 2 ''TCP_CHECK {'' @ ln 3 (''connect_timeout '' @ itoa (hc_timeout m)) @
           ln 3 (''retry '' @ itoa (hc_max_retries m)) @
           ln 3 (''delay_before_retry '' @ itoa (hc_delay m)) @ ln 2 ''}'' @ [CHR 9, CHR 9])"

definition lvs_server_tmpl :: "lvs_inner \<Rightarrow> backend \<Rightarrow> string" where
  "lvs_server_tmpl x b =
     nl @ ln 1 (''real_server '' @ be_ip b @ '' '' @ itoa (be_port b) @ '' {'') @
     ln 2 (''weight '' @ itoa (be_weight b)) @ ln 2 ''inhibit_on_failure'' @
     ln 2 (lvs_check_tmpl x b) @ ln 1 ''}''"

definition lvs_tmpl :: "lvs_inner \<Rightarrow> string" where
  "lvs_tmpl x =
     (let l = in_lvs x; o' = lvs_conf l; m = lvs_monitor l; vip = lvs_vip l; port = itoa (lvs_port l);
          prot = lb_protocol (lvs_common l)
      in concat (replicate 8 nl) @
         ln 0 (''virtual_server_group '' @ vip @ '':'' @ port @ '' {'') @
         ln 1 (vip @ '' '' @ port) @ ln 0 ''}'' @ nl @
         ln 0 (''virtual_server group '' @ vip @ '':'' @ port @ '' {'') @
         ln 1 (''delay_loop '' @ itoa (hc_interval m)) @
         ln 1 (''lb_algo '' @ (if lv_strategy o' \<noteq> [] then lv_strategy o' else ''rr'')) @
         ln 1 (''lb_kind '' @ (if lv_kind o' \<noteq> [] then lv_kind o' else ''FNAT'')) @
         ln 1 (''protocol '' @ (if prot \<noteq> ''UDP'' then ''TCP'' else ''UDP'')) @
         ln 1 (opt_text (lv_persistence_timeout o' \<noteq> 0)
           (''persistence_timeout '' @ itoa_uint (lv_persistence_timeout o'))) @
         ln 1 (opt_text (lv_syn_proxy o') ''syn_proxy'') @
         ln 1 (opt_text (lv_bps_limit o' \<noteq> 0) (''bps_limit '' @ itoa_uint (lv_bps_limit o'))) @
         ln 1 (opt_text (lv_cps_limit o' \<noteq> 0) (''cps_limit '' @ itoa_uint (lv_cps_limit o'))) @
         nl @
         ln 1 (opt_text (in_laddr_group x \<noteq> []) (''laddr_group_name '' @ in_laddr_group x)) @
         nl @ ln 1 ''alpha'' @ ln 1 ''omega'' @ ln 1 ''quorum 1'' @ ln 1 ''hysteresis 0'' @
         ln 1 (''quorum_up '' @ dq @ ''ip addr add '' @ vip @ ''/32 dev lo'' @ dq) @
         ln 1 (''quorum_down '' @ dq @ ''ip addr del '' @ vip @ ''/32 dev lo'' @ dq) @
         nl @ concat (map (lvs_server_tmpl x) (lvs_servers l)) @ nl @ ln 0 ''}'')"

section \<open>nginx\<close>

definition upstream_server_tmpl :: "health_check \<Rightarrow> backend \<Rightarrow> string" where
  "upstream_server_tmpl m b =
     nl @ ln 1 (''server '' @ be_ip b @ '':'' @ itoa (be_port b) @ '' '' @
       opt_text (be_weight b \<noteq> 0) (''weight='' @ itoa (be_weight b)) @ '' '' @
       opt_text (hc_max_retries m \<noteq> 0) (''max_fails='' @ itoa (hc_max_retries m)) @ '' '' @
       opt_text (hc_timeout m \<noteq> 0) (''fail_timeout='' @ itoa (hc_timeout m)) @ '';'') @ [CHR 9]"

definition upstream_tmpl :: "string \<Rightarrow> health_check \<Rightarrow> pool \<Rightarrow> string" where
  "upstream_tmpl prot m p =
     nl @ ln 0 (''upstream '' @ po_name p @ '' {'') @
     ln 1 (opt_text (po_strategy p \<noteq> ''round_robin'') (po_strategy p)) @
     ln 1 (opt_text (sp_enable (po_session p) \<and> prot = ''HTTP'')
       (nl @ ln 1 [] @
        ln 1 (''sticky '' @ opt_text (sp_name (po_session p) \<noteq> []) (''name='' @ sp_name (po_session p)) @ '';'') @
        [CHR 9])) @
     ln 1 (concat (map (upstream_server_tmpl m) (po_servers p))) @ ln 0 ''}''"

definition http_location_tmpl :: "location \<Rightarrow> string" where
  "http_location_tmpl l =
     nl @ ln 1 (''location '' @ loc_uri_path l @ '' {'') @
     ln 2 (''proxy_pass http://'' @ loc_pool_name l @ '';'') @
     ln 2 ''proxy_set_header X-Real-IP $remote_addr;'' @
     ln 2 ''proxy_set_header X-Forwarded-For  $proxy_add_x_forwarded_for;'' @
     ln 2 ''proxy_set_header Host $http_host;'' @ nl @ ln 1 ''}'' @ [CHR 9]"

definition stream_location_tmpl :: "location \<Rightarrow> string" where
  "stream_location_tmpl l = nl @ ln 1 (''proxy_pass '' @ loc_pool_name l @ '';'') @ [CHR 9]"

definition nginx_tmpl :: "nginx \<Rightarrow> string" where
  "nginx_tmpl n =
     (let prot = lb_protocol (ng_common n); port = itoa (ng_port n)
      in nl @ nl @ nl @ concat (map (upstream_tmpl prot (ng_monitor n)) (ng_pools n)) @ nl @
         nl @ nl @ nl @ nl @
         ln 0 ''server {'' @
         ln 1 (''listen '' @ opt_text (ng_vip n \<noteq> []) (ng_vip n @ '':'') @ port @ '' '' @
           opt_text (prot = ''UDP'') ''udp'' @ '' reuseport;'') @
         nl @
         ln 1 (if prot = ''HTTP'' then
           nl @ ln 1 (''access_log /var/log/nginx/'' @ lb_name (ng_common n) @ ''-'' @ port @
             ''.log  main buffer=32k flush=5s;'') @
           ln 1 ''root /usr/share/nginx/html;'' @
           ln 1 (concat (map http_location_tmpl (ng_locations n))) @
           ln 1 ''error_page 404 /404.html;'' @ ln 2 ''location = /40x.html {'' @ ln 1 ''}'' @ nl @
           ln 1 ''error_page 500 502 503 504 /50x.html;'' @ ln 2 ''location = /50x.html {'' @ ln 1 ''}'' @
           [CHR 9]
         else
           nl @ ln 1 (concat (map stream_location_tmpl (ng_locations n))) @ [CHR 9]) @
         ln 0 ''}'')"

section \<open>Braces\<close>

text \<open>The depth of braces after a text, starting from a depth: \<open>None\<close> when a closing brace has no
  opening one.\<close>

fun brace_depth :: "nat \<Rightarrow> string \<Rightarrow> nat option" where
  "brace_depth d [] = Some d"
| "brace_depth d (c # cs) =
     (if c = CHR ''{'' then brace_depth (Suc d) cs
      else if c = CHR ''}'' then (case d of 0 \<Rightarrow> None | Suc d' \<Rightarrow> brace_depth d' cs)
      else brace_depth d cs)"

definition no_braces :: "string \<Rightarrow> bool" where
  "no_braces s \<longleftrightarrow> CHR ''{'' \<notin> set s \<and> CHR ''}'' \<notin> set s"

lemma brace_depth_append:
  "brace_depth d (xs @ ys) = (case brace_depth d xs of None \<Rightarrow> None | Some d' \<Rightarrow> brace_depth d' ys)"
  by (induction xs arbitrary: d) (auto split: nat.splits)

lemma brace_depth_plain: "no_braces s \<Longrightarrow> brace_depth d s = Some d"
  by (induction s) (auto simp: no_braces_def)

lemma no_braces_itoa [simp]: "no_braces (itoa i)"
  using itoa_nat_digits by (fastforce simp: no_braces_def itoa_def is_digit_def)

lemma brace_depth_ln: "brace_depth d (ln t s) = brace_depth d s"
proof -
  have "no_braces (replicate t (CHR 9))" "no_braces nl" by (auto simp: no_braces_def nl_def)
  then show ?thesis
    by (simp add: ln_def brace_depth_append brace_depth_plain split: option.splits)
qed

lemma no_braces_append [simp]: "no_braces (a @ b) \<longleftrightarrow> no_braces a \<and> no_braces b"
  by (auto simp: no_braces_def)

lemma no_braces_Cons [simp]: "no_braces (c # s) \<longleftrightarrow> c \<noteq> CHR ''{'' \<and> c \<noteq> CHR ''}'' \<and> no_braces s"
  by (auto simp: no_braces_def)

lemma no_braces_Nil [simp]: "no_braces []"
  by (simp add: no_braces_def)

lemma no_braces_text [simp]: "no_braces nl" "no_braces dq" "no_braces (itoa_uint n)"
  by (simp_all add: nl_def dq_def itoa_uint_def)

lemma no_braces_opt [simp]: "no_braces (opt_text b s) \<longleftrightarrow> b \<longrightarrow> no_braces s"
  by (simp add: opt_text_def)

text \<open>A line that opens a block, one that closes it, and one that does neither.\<close>

lemma brace_open: "no_braces s \<Longrightarrow> brace_depth d (ln t (s @ '' {'')) = Some (Suc d)"
  by (simp add: brace_depth_ln brace_depth_append brace_depth_plain)

lemma brace_close: "brace_depth d (ln t ''}'') = (case d of 0 \<Rightarrow> None | Suc d' \<Rightarrow> Some d')"
  by (simp add: brace_depth_ln split: nat.splits)

lemma brace_flat: "no_braces s \<Longrightarrow> brace_depth d (ln t s) = Some d"
  by (simp add: brace_depth_ln brace_depth_plain)

lemma brace_nl: "brace_depth d nl = Some d"
  by (rule brace_depth_plain) simp

text \<open>The texts inserted into the template hold no braces.\<close>

definition inner_plain :: "lvs_inner \<Rightarrow> bool" where
  "inner_plain x \<longleftrightarrow>
     no_braces (lvs_vip (in_lvs x)) \<and> no_braces (lv_strategy (lvs_conf (in_lvs x))) \<and>
     no_braces (lv_kind (lvs_conf (in_lvs x))) \<and> no_braces (in_laddr_group x) \<and>
     no_braces (hc_url_path (lvs_monitor (in_lvs x))) \<and> no_braces (kc_misc_script (in_kconf x)) \<and>
     (\<forall>b \<in> set (lvs_servers (in_lvs x)). no_braces (be_ip b))"

lemma no_braces_literals:
  "no_braces ''misc_path ''" "no_braces ''misc_timeout ''" "no_braces ''path ''" "no_braces ''status_code ''"
  "no_braces ''connect_timeout ''" "no_braces ''nb_get_retry ''" "no_braces ''retry ''"
  "no_braces ''delay_before_retry ''" "no_braces ''real_server ''" "no_braces ''weight ''"
  "no_braces ''inhibit_on_failure''" "no_braces '' ''" "no_braces [CHR 9, CHR 9]"
  by simp_all

lemma brace_tabs: "brace_depth d [CHR 9, CHR 9] = Some d"
  by simp

lemma brace_check:
  assumes "inner_plain x" and "b \<in> set (lvs_servers (in_lvs x))"
  shows "brace_depth (Suc d) (lvs_check_tmpl x b) =
    Some (if hc_type (lvs_monitor (in_lvs x)) = ''HTTP'' then d else Suc d)"
proof -
  have w: "no_braces (be_ip b)" "no_braces (hc_url_path (lvs_monitor (in_lvs x)))"
    "no_braces (kc_misc_script (in_kconf x))"
    using assms by (simp_all add: inner_plain_def)
  have o: "brace_depth e (ln t ''MISC_CHECK {'') = Some (Suc e)" "brace_depth e (ln t ''HTTP_GET {'') = Some (Suc e)"
    "brace_depth e (ln t ''url {'') = Some (Suc e)" "brace_depth e (ln t ''TCP_CHECK {'') = Some (Suc e)" for e t
    by (simp_all add: brace_depth_ln)
  have typo: "brace_depth (Suc e) (ln t ''delay_before_retry {$monitor.Delay}}'') = Some e" for e t
    by (simp add: brace_depth_ln)
  show ?thesis
    using w by (simp add: lvs_check_tmpl_def Let_def brace_depth_append brace_nl o typo brace_close brace_flat
        del: replicate.simps)
qed

lemma brace_server:
  assumes "inner_plain x" and "b \<in> set (lvs_servers (in_lvs x))"
  shows "brace_depth d (lvs_server_tmpl x b) =
    (if hc_type (lvs_monitor (in_lvs x)) = ''HTTP'' then (case d of 0 \<Rightarrow> None | Suc d' \<Rightarrow> Some d') else Some d)"
proof -
  have w: "no_braces (be_ip b)" using assms by (simp add: inner_plain_def)
  have o: "brace_depth e (ln 1 (''real_server '' @ be_ip b @ '' '' @ itoa (be_port b) @ '' {'')) = Some (Suc e)" for e
    using brace_open [of "''real_server '' @ be_ip b @ '' '' @ itoa (be_port b)" e 1] w by simp
  show ?thesis
    unfolding lvs_server_tmpl_def brace_depth_append brace_nl o
    by (simp add: o brace_flat brace_depth_ln [of _ 2 "lvs_check_tmpl x b"] brace_check [OF assms] brace_close
        brace_depth_append del: append_Cons append_Nil)
qed

lemma brace_servers:
  assumes "inner_plain x" and "set bs \<subseteq> set (lvs_servers (in_lvs x))"
  shows "brace_depth d (concat (map (lvs_server_tmpl x) bs)) =
    (if hc_type (lvs_monitor (in_lvs x)) = ''HTTP'' then
       (if length bs \<le> d then Some (d - length bs) else None)
     else Some d)"
  using assms(2)
proof (induction bs arbitrary: d)
  case Nil
  then show ?case by simp
next
  case (Cons b bs)
  then have b: "b \<in> set (lvs_servers (in_lvs x))" and bs: "set bs \<subseteq> set (lvs_servers (in_lvs x))" by auto
  show ?case
    using Cons.IH [OF bs]
    by (cases d) (simp_all add: brace_depth_append brace_server [OF assms(1) b])
qed

text \<open>the configuration written for an LVS service has balanced braces, except when its health
  check is HTTP and it has a server: the template then closes a block that is not open, because the
  line \<open>delay_before_retry\<close> lacks a brace.\<close>

theorem lvs_tmpl_braces:
  assumes "inner_plain x"
  shows "brace_depth 0 (lvs_tmpl x) =
    (if hc_type (lvs_monitor (in_lvs x)) = ''HTTP'' \<and> lvs_servers (in_lvs x) \<noteq> [] then None else Some 0)"
proof -
  let ?l = "in_lvs x"
  let ?servers = "concat (map (lvs_server_tmpl x) (lvs_servers ?l))"
  have w: "no_braces (lvs_vip ?l)" "no_braces (lv_strategy (lvs_conf ?l))" "no_braces (lv_kind (lvs_conf ?l))"
    "no_braces (in_laddr_group x)"
    using assms by (simp_all add: inner_plain_def)
  have o: "brace_depth e (ln 0 (''virtual_server_group '' @ lvs_vip ?l @ '':'' @ itoa (lvs_port ?l) @ '' {'')) = Some (Suc e)"
    "brace_depth e (ln 0 (''virtual_server group '' @ lvs_vip ?l @ '':'' @ itoa (lvs_port ?l) @ '' {'')) = Some (Suc e)" for e
    using brace_open [of "''virtual_server_group '' @ lvs_vip ?l @ '':'' @ itoa (lvs_port ?l)" e 0]
      brace_open [of "''virtual_server group '' @ lvs_vip ?l @ '':'' @ itoa (lvs_port ?l)" e 0] w by simp_all
  have nls: "brace_depth e (concat (replicate n nl)) = Some e" for n e
    by (induction n) (simp_all add: brace_depth_append brace_nl)
  have servers: "(case brace_depth 1 ?servers of None \<Rightarrow> None
      | Some d \<Rightarrow> brace_depth d (nl @ ln 0 ''}'')) =
      (if hc_type (lvs_monitor ?l) = ''HTTP'' \<and> lvs_servers ?l \<noteq> [] then None else Some 0)"
    unfolding brace_servers [OF assms subset_refl]
    by (cases "length (lvs_servers ?l) \<le> 1"; cases "lvs_servers ?l")
      (auto simp: brace_depth_append brace_nl brace_close)
  show ?thesis
    unfolding lvs_tmpl_def Let_def brace_depth_append nls o brace_nl brace_close servers [symmetric]
    using w by (simp add: o brace_flat brace_nl brace_close del: append_Cons append_Nil)
qed

lemma lvs_tmpl_braces_witness:
  "brace_depth 0 (lvs_tmpl
      \<lparr>in_lvs = new_lvs\<lparr>lvs_vip := ''10.0.0.1'', lvs_servers := [\<lparr>be_ip = ''10.1.0.5'', be_port = 80, be_weight = 100\<rparr>],
         lvs_monitor := (lvs_monitor new_lvs)\<lparr>hc_type := ''HTTP''\<rparr>\<rparr>,
       in_laddr_group = ''g1'',
       in_kconf = \<lparr>kc_conf_dir = [], kc_reload_time = 5, kc_misc_script = ''/etc/lb/check.sh''\<rparr>\<rparr>) = None"
  by (subst lvs_tmpl_braces) (simp_all add: inner_plain_def new_lvs_def)

end
