(* ===== verification/Render.thy ===== *)
theory Render
  imports Tmpl
begin

text \<open>
  \<open>LBBase.Render\<close> and \<open>GetConfigFilePath\<close> of \<open>pkg/lbm/lbm.go\<close>, with \<open>path.Join\<close> and \<open>path.Clean\<close> of
  the standard library.  The template buffer is empty between two calls (every path through
  \<open>Render\<close> resets it), so the text of a call is the text of its template alone.
\<close>

section \<open>Paths\<close>

fun clean_comps :: "bool \<Rightarrow> string list \<Rightarrow> string list \<Rightarrow> string list" where
  "clean_comps rooted acc [] = acc"
| "clean_comps rooted acc (c # cs) =
     (if c = [] \<or> c = ''.'' then clean_comps rooted acc cs
      else if c = ''..'' then
        (if acc \<noteq> [] \<and> last acc \<noteq> ''..'' then clean_comps rooted (butlast acc) cs
         else if rooted then clean_comps rooted acc cs
         else clean_comps rooted (acc @ [c]) cs)
      else clean_comps rooted (acc @ [c]) cs)"

definition path_clean :: "string \<Rightarrow> string" where
  "path_clean p =
     (let rooted = has_prefix p ''/''; body = join_with CHR ''/'' (clean_comps rooted [] (split_on CHR ''/'' p))
      in if rooted then CHR ''/'' # body else if body = [] then ''.'' else body)"

definition path_join :: "string list \<Rightarrow> string" where
  "path_join ps =
     (let qs = filter (\<lambda>p. p \<noteq> []) ps
      in if qs = [] then [] else path_clean (join_with CHR ''/'' qs))"

definition config_file_path :: "string \<Rightarrow> string \<Rightarrow> string" where
  "config_file_path dir name = path_join [dir, name @ ''.conf'']"

section \<open>Render\<close>

definition write_content :: "os \<Rightarrow> string \<Rightarrow> string \<Rightarrow> bool \<times> os" where
  "write_content w svc_path content =
     (case os_write_file w svc_path content of
        (None, w') \<Rightarrow> (True, w')
      | (Some e, w') \<Rightarrow> (False, w'))"

definition lb_render :: "os \<Rightarrow> string \<Rightarrow> string \<Rightarrow> bool \<times> os" where
  "lb_render w svc_path content =
     (case os_read_file w svc_path of
        Inr src \<Rightarrow> if src = content then (False, w) else write_content w svc_path content
      | Inl e \<Rightarrow> if e = NotExist then write_content w svc_path content else (False, w))"

section \<open>Deleting a file\<close>

text \<open>What the two \<open>DeleteService\<close> do with a file name.\<close>

definition delete_file :: "os \<Rightarrow> string \<Rightarrow> bool \<times> os" where
  "delete_file w name =
     (if fst (is_file_exist w name) then
        (case os_remove w name of (Some err, w') \<Rightarrow> (False, w') | (None, w') \<Rightarrow> (True, w'))
      else (False, w))"

section \<open>Lemmas\<close>

lemma stat_ok_denied: "os_stat w p = None \<Longrightarrow> \<not> os_denied w p \<and> os_fs w p \<noteq> None"
  by (auto simp: os_stat_def max_links_def eval_nat_numeral split: if_splits option.splits)

lemma delete_file_eq:
  "delete_file w p =
     (if os_stat w p = None \<and> os_fs w p \<noteq> Some Folder then (True, w\<lparr>os_fs := (os_fs w)(p := None)\<rparr>) else (False, w))"
proof (cases "os_stat w p")
  case None
  with stat_ok_denied [OF None] show ?thesis
    by (auto simp: delete_file_def is_file_exist_def os_remove_def split: option.splits fnode.splits)
next
  case (Some e)
  then show ?thesis by (simp add: delete_file_def is_file_exist_def)
qed

text \<open>A first rendering makes the file.\<close>

lemma lb_render_new:
  assumes "os_fs w p = None" and "lb_render w p c = (True, w')"
  shows "w' = w\<lparr>os_fs := (os_fs w)(p \<mapsto> Regular c)\<rparr> \<and> \<not> os_denied w p"
proof (cases "os_denied w p")
  case True
  then have "os_read_file w p = Inl Denied" by (simp add: os_read_file_def max_links_def eval_nat_numeral)
  with assms(2) show ?thesis by (simp add: lb_render_def)
next
  case False
  with assms(1) have r: "resolve max_links w p = Inl NotExist" by (simp add: max_links_def eval_nat_numeral)
  with assms False show ?thesis
    by (auto simp: lb_render_def os_read_file_def write_content_def os_write_file_def split: if_splits)
qed

lemma stat_regular: "os_fs w p = Some (Regular c) \<Longrightarrow> \<not> os_denied w p \<Longrightarrow> os_stat w p = None"
  by (simp add: os_stat_def max_links_def eval_nat_numeral)

lemma resolve_links_fs: "resolve n w p = Inr (q, nd) \<Longrightarrow> os_fs w q = Some nd \<and> \<not> os_denied w q \<and> (\<forall>t. nd \<noteq> Link t)"
  by (induction n arbitrary: p) (auto split: if_splits option.splits fnode.splits)

lemma resolve_write:
  assumes "resolve n w p = Inr (q, Regular c)"
  shows "resolve n (w\<lparr>os_fs := (os_fs w)(q \<mapsto> Regular d)\<rparr>) p = Inr (q, Regular d)"
  using assms
proof (induction n arbitrary: p)
  case 0
  then show ?case by simp
next
  case (Suc n)
  show ?case
  proof (cases "os_fs w p")
    case None
    with Suc.prems show ?thesis by (simp split: if_splits)
  next
    case (Some nd)
    show ?thesis
    proof (cases nd)
      case (Link t)
      with Suc.prems Some have r: "resolve n w t = Inr (q, Regular c)" "\<not> os_denied w p"
        by (auto split: if_splits)
      have "p \<noteq> q" using resolve_links_fs [OF r(1)] Some Link by auto
      with r Some Link Suc.IH show ?thesis by simp
    qed (use Suc.prems Some in \<open>auto split: if_splits\<close>)
  qed
qed

lemma write_content_read:
  assumes "write_content w p c = (True, w')"
  shows "os_read_file w' p = Inr c"
proof -
  from assms consider (old) q d where "resolve max_links w p = Inr (q, Regular d)"
      "w' = w\<lparr>os_fs := (os_fs w)(q \<mapsto> Regular c)\<rparr>"
    | (new) "resolve max_links w p = Inl NotExist" "os_fs w p = None"
      "w' = w\<lparr>os_fs := (os_fs w)(p \<mapsto> Regular c)\<rparr>"
    by (auto simp: write_content_def os_write_file_def
        split: sum.splits prod.splits fnode.splits os_error.splits if_splits)
  then show ?thesis
  proof cases
    case old
    from resolve_write [OF old(1), of c] show ?thesis by (simp add: os_read_file_def old(2))
  next
    case new
    then have "\<not> os_denied w p" by (auto simp: max_links_def eval_nat_numeral split: if_splits)
    with new show ?thesis by (simp add: os_read_file_def max_links_def eval_nat_numeral)
  qed
qed

text \<open>After a rendering that reports a change the file has the new text; one that reports no change
  leaves the system as it was when the file already had it, and failed otherwise.\<close>

lemma lb_render_spec:
  assumes "lb_render w p c = (r, w')"
  shows "r \<Longrightarrow> os_read_file w' p = Inr c" and "\<not> r \<Longrightarrow> w' = w"
    and "os_read_file w p = Inr c \<Longrightarrow> \<not> r"
proof -
  show "r \<Longrightarrow> os_read_file w' p = Inr c"
    using assms write_content_read [of w p c w']
    by (auto simp: lb_render_def split: sum.splits if_splits)
  show "\<not> r \<Longrightarrow> w' = w"
    using assms by (auto simp: lb_render_def write_content_def os_write_file_def
        split: sum.splits if_splits prod.splits fnode.splits os_error.splits)
  show "os_read_file w p = Inr c \<Longrightarrow> \<not> r"
    using assms by (auto simp: lb_render_def)
qed

text \<open>rendering twice writes once: after a rendering that wrote, the same text at the same path is
  found in place and nothing is reloaded or written again.\<close>

theorem lb_render_idempotent:
  assumes "lb_render w p c = (True, w')"
  shows "os_read_file w' p = Inr c \<and> lb_render w' p c = (False, w')"
  using lb_render_spec(1) [OF assms] by (simp add: lb_render_def)

lemma lb_render_idempotent_witness:
  "\<exists>w'. lb_render demo_os ''/etc/lb/conf.d/a.conf'' ''x'' = (True, w') \<and>
     lb_render w' ''/etc/lb/conf.d/a.conf'' ''x'' = (False, w')"
proof -
  have "\<exists>w'. lb_render demo_os ''/etc/lb/conf.d/a.conf'' ''x'' = (True, w')"
    by (simp add: lb_render_def write_content_def os_write_file_def os_read_file_def max_links_def
        eval_nat_numeral demo_os_def parent_path_def)
  then show ?thesis using lb_render_idempotent [of demo_os "''/etc/lb/conf.d/a.conf''" "''x''"] by blast
qed

text \<open>A name without a slash stays in the directory.\<close>

lemma clean_comps_plain:
  "\<forall>c \<in> set cs. c \<noteq> [] \<and> c \<noteq> ''.'' \<and> c \<noteq> ''..'' \<Longrightarrow> clean_comps rooted acc cs = acc @ cs"
  by (induction cs arbitrary: acc) auto

definition clean_dir :: "string \<Rightarrow> bool" where
  "clean_dir d \<longleftrightarrow> (\<exists>cs. cs \<noteq> [] \<and> (\<forall>c \<in> set cs. c \<noteq> [] \<and> c \<noteq> ''.'' \<and> c \<noteq> ''..'' \<and> CHR ''/'' \<notin> set c) \<and>
     d = CHR ''/'' # join_with CHR ''/'' cs)"

lemma join_snoc: "cs \<noteq> [] \<Longrightarrow> join_with ch (cs @ [c]) = join_with ch cs @ ch # c"
proof (induction cs)
  case Nil
  then show ?case by simp
next
  case (Cons d cs)
  then show ?case by (cases cs) simp_all
qed

lemma config_file_path_plain:
  assumes "clean_dir d" and "CHR ''/'' \<notin> set name"
  shows "config_file_path d name = d @ CHR ''/'' # name @ ''.conf''"
proof -
  from assms(1) obtain cs where cs: "cs \<noteq> []"
    "\<forall>c \<in> set cs. c \<noteq> [] \<and> c \<noteq> ''.'' \<and> c \<noteq> ''..'' \<and> CHR ''/'' \<notin> set c" "d = CHR ''/'' # join_with CHR ''/'' cs"
    by (auto simp: clean_dir_def)
  let ?n = "name @ ''.conf''"
  have n: "?n \<noteq> []" "?n \<noteq> ''.''" "?n \<noteq> ''..''" "CHR ''/'' \<notin> set ?n"
    using assms(2) by (auto simp: append_eq_Cons_conv)
  have p: "join_with CHR ''/'' [d, ?n] = CHR ''/'' # join_with CHR ''/'' (cs @ [?n])"
    using join_snoc [OF cs(1), of "CHR ''/''" ?n] cs(3) by simp
  have "split_on CHR ''/'' (CHR ''/'' # join_with CHR ''/'' (cs @ [?n])) = [] # cs @ [?n]"
    using split_on_append_sep [of "CHR ''/''" "[]" "join_with CHR ''/'' (cs @ [?n])"]
      split_join [of "cs @ [?n]" "CHR ''/''"] cs(2) n(4) by (simp add: go_string_simps)
  moreover have "clean_comps True [] ([] # cs @ [?n]) = cs @ [?n]"
    using clean_comps_plain [of "cs @ [?n]" True "[]"] cs(2) n by simp
  ultimately have "path_clean (CHR ''/'' # join_with CHR ''/'' (cs @ [?n])) = CHR ''/'' # join_with CHR ''/'' (cs @ [?n])"
    by (simp add: path_clean_def has_prefix_iff)
  moreover have "d \<noteq> []" using cs(3) by simp
  ultimately show ?thesis
    using join_snoc [OF cs(1), of "CHR ''/''" ?n] cs(3) p n(1)
    by (simp add: config_file_path_def path_join_def Let_def)
qed

lemma config_file_path_inj:
  assumes "clean_dir d" and "CHR ''/'' \<notin> set a" and "CHR ''/'' \<notin> set b"
    and "config_file_path d a = config_file_path d b"
  shows "a = b"
  using assms by (simp add: config_file_path_plain)

end
