(* ===== verification/Gotemplate.thy ===== *)
theory Gotemplate
  imports Prelude
begin

text \<open>
  The part of Go's package \<open>text/template\<close> that the program's templates are written in: the lexer, the
  parser and the execution of fields, variables, string constants, parentheses, declarations, \<open>if\<close> with
  \<open>else\<close> and \<open>else if\<close>, \<open>range\<close> with a variable, and the functions \<open>eq\<close>, \<open>ne\<close> and \<open>and\<close>.  Everything
  else the package accepts (pipes, assignments, numbers, comments, trim markers, escapes in strings,
  \<open>with\<close>, \<open>template\<close>, methods, structs printed whole) is \<open>None\<close> here, as a template the package
  rejects.
\<close>

section \<open>Values\<close>

text \<open>What reflection shows of the data: a struct is the list of its fields in their order, each with
  its name and whether it is embedded.\<close>

datatype gval =
    GStr string
  | GInt int
  | GUint nat
  | GBool bool
  | GStruct "(string \<times> bool \<times> gval) list"
  | GList "gval list"

fun gtruth :: "gval \<Rightarrow> bool" where
  "gtruth (GStr s) = (s \<noteq> [])"
| "gtruth (GInt i) = (i \<noteq> 0)"
| "gtruth (GUint n) = (n \<noteq> 0)"
| "gtruth (GBool b) = b"
| "gtruth (GStruct fs) = True"
| "gtruth (GList vs) = (vs \<noteq> [])"

text \<open>\<open>fmt.Fprint\<close> of one value.\<close>

fun gprint :: "gval \<Rightarrow> string option" where
  "gprint (GStr s) = Some s"
| "gprint (GInt i) = Some (itoa i)"
| "gprint (GUint n) = Some (itoa (int n))"
| "gprint (GBool b) = Some (if b then ''true'' else ''false'')"
| "gprint (GStruct fs) = None"
| "gprint (GList vs) = None"

text \<open>\<open>FieldByName\<close>: the fields of the struct itself first, then those of the structs embedded in it,
  level by level.  A name found twice on one level is ambiguous, and found nowhere else.\<close>

fun embedded :: "gval \<Rightarrow> gval list" where
  "embedded (GStruct fs) = [v. (n, e, v) \<leftarrow> fs, e]"
| "embedded _ = []"

fun own_fields :: "string \<Rightarrow> gval \<Rightarrow> gval list" where
  "own_fields f (GStruct fs) = [v. (n, e, v) \<leftarrow> fs, n = f]"
| "own_fields f _ = []"

text \<open>Every level holds less than the one above it.\<close>

definition gweight :: "gval list \<Rightarrow> nat" where
  "gweight vs = sum_list (map (\<lambda>v. Suc (size v)) vs)"

lemma gweight_simps [simp]:
  "gweight [] = 0" "gweight (v # vs) = Suc (size v) + gweight vs" "gweight (vs @ ws) = gweight vs + gweight ws"
  by (simp_all add: gweight_def)

lemma gweight_embedded: "gweight (embedded v) \<le> size v"
proof (cases v)
  case (GStruct fs)
  have "gweight [v. (n, e, v) \<leftarrow> fs, e] \<le> size_list (size_prod (\<lambda>_. 0) (size_prod (\<lambda>_. 0) size)) fs"
    by (induction fs) auto
  with GStruct show ?thesis by simp
qed simp_all

lemma gweight_level: "vs \<noteq> [] \<Longrightarrow> gweight (concat (map embedded vs)) < gweight vs"
proof (induction vs)
  case Nil
  then show ?case by simp
next
  case (Cons v vs)
  with gweight_embedded [of v] show ?case by (cases "vs = []") (simp_all add: add_le_less_mono less_Suc_eq_le)
qed

function find_level :: "string \<Rightarrow> gval list \<Rightarrow> gval option" where
  "find_level f vs =
     (if vs = [] then None
      else case concat (map (own_fields f) vs) of
          [] \<Rightarrow> find_level f (concat (map embedded vs))
        | [v] \<Rightarrow> Some v
        | _ \<Rightarrow> None)"
  by pat_completeness auto
termination
  by (relation "measure (\<lambda>(f, vs). gweight vs)") (use gweight_level in auto)

declare find_level.simps [simp del]

definition gfield :: "gval \<Rightarrow> string \<Rightarrow> gval option" where
  "gfield v f = find_level f [v]"

fun gfields :: "gval \<Rightarrow> string list \<Rightarrow> gval option" where
  "gfields v [] = Some v"
| "gfields v (f # fs) = (case gfield v f of None \<Rightarrow> None | Some v' \<Rightarrow> gfields v' fs)"

text \<open>The functions.  Two values of different basic kinds do not compare, except signed and unsigned
  integers.\<close>

fun basic_eq :: "gval \<Rightarrow> gval \<Rightarrow> bool option" where
  "basic_eq (GStr a) (GStr b) = Some (a = b)"
| "basic_eq (GInt a) (GInt b) = Some (a = b)"
| "basic_eq (GUint a) (GUint b) = Some (a = b)"
| "basic_eq (GInt a) (GUint b) = Some (a = int b)"
| "basic_eq (GUint a) (GInt b) = Some (int a = b)"
| "basic_eq (GBool a) (GBool b) = Some (a = b)"
| "basic_eq _ _ = None"

fun and_val :: "gval list \<Rightarrow> gval option" where
  "and_val [] = None"
| "and_val [v] = Some v"
| "and_val (v # w # ws) = (if gtruth v then and_val (w # ws) else Some v)"

definition gcall :: "string \<Rightarrow> gval list \<Rightarrow> gval option" where
  "gcall f vs =
     (if f = ''eq'' then (case vs of [a, b] \<Rightarrow> map_option GBool (basic_eq a b) | _ \<Rightarrow> None)
      else if f = ''ne'' then (case vs of [a, b] \<Rightarrow> map_option (\<lambda>r. GBool (\<not> r)) (basic_eq a b) | _ \<Rightarrow> None)
      else if f = ''and'' then and_val vs
      else None)"

section \<open>Lexer\<close>

datatype tok =
    TText string
  | TLeft
  | TRight
  | TSpace
  | TDeclare
  | TLpar
  | TRpar
  | TIdent string
  | TField string
  | TVar string
  | TStr string

definition alpha_num :: "char \<Rightarrow> bool" where
  "alpha_num c \<longleftrightarrow>
     (let n = of_char c :: nat in n = 95 \<or> 48 \<le> n \<and> n \<le> 57 \<or> 65 \<le> n \<and> n \<le> 90 \<or> 97 \<le> n \<and> n \<le> 122)"

definition space_char :: "char \<Rightarrow> bool" where
  "space_char c \<longleftrightarrow> c = CHR '' '' \<or> c = CHR 9 \<or> c = CHR 10 \<or> c = CHR 13"

fun word_ends :: "string \<Rightarrow> bool" where
  "word_ends [] = True"
| "word_ends (c # cs) = (space_char c \<or> c \<in> set ''.,|:()'' \<or> has_prefix (c # cs) ''}}'')"

definition text_tok :: "string \<Rightarrow> tok list" where
  "text_tok s = (if s = [] then [] else [TText s])"

text \<open>The word at the start of the text, if it ends where a word may end.\<close>

definition lex_word :: "string \<Rightarrow> (string \<times> string) option" where
  "lex_word s = (let rest = dropWhile alpha_num s in if word_ends rest then Some (takeWhile alpha_num s, rest) else None)"

definition lex_quote :: "string \<Rightarrow> (string \<times> string) option" where
  "lex_quote s =
     (let body = takeWhile (\<lambda>c. c \<noteq> CHR 34 \<and> c \<noteq> CHR 92 \<and> c \<noteq> CHR 10) s; rest = drop (length body) s
      in case rest of c # cs \<Rightarrow> if c = CHR 34 then Some (body, cs) else None | [] \<Rightarrow> None)"

text \<open>One token inside an action, and the text behind it; the closing delimiter is not one of them.\<close>

definition lex_inside :: "string \<Rightarrow> (tok \<times> string) option" where
  "lex_inside s =
     (case s of
        [] \<Rightarrow> None
      | c # cs \<Rightarrow>
          if space_char c then Some (TSpace, dropWhile space_char cs)
          else if c = CHR '':'' then (if has_prefix cs ''='' then Some (TDeclare, drop 1 cs) else None)
          else if c = CHR 34 then map_option (apfst TStr) (lex_quote cs)
          else if c = CHR ''$'' then map_option (apfst (\<lambda>w. TVar (c # w))) (lex_word cs)
          else if c = CHR ''.'' then
            (case lex_word cs of Some (w, rest) \<Rightarrow> if w = [] then None else Some (TField w, rest) | None \<Rightarrow> None)
          else if c = CHR ''('' then Some (TLpar, cs)
          else if c = CHR '')'' then Some (TRpar, cs)
          else if alpha_num c then map_option (apfst TIdent) (lex_word (c # cs))
          else None)"

lemma lex_word_length: "lex_word s = Some (w, rest) \<Longrightarrow> length rest \<le> length s"
  by (auto simp: lex_word_def Let_def length_dropWhile_le split: if_splits)

lemma lex_quote_length: "lex_quote s = Some (w, rest) \<Longrightarrow> length rest < length s"
proof -
  assume a: "lex_quote s = Some (w, rest)"
  let ?b = "takeWhile (\<lambda>c. c \<noteq> CHR 34 \<and> c \<noteq> CHR 92 \<and> c \<noteq> CHR 10) s"
  from a obtain c where "drop (length ?b) s = c # rest"
    by (auto simp: lex_quote_def Let_def split: list.splits if_splits)
  then have "length (c # rest) \<le> length s" by (metis length_drop diff_le_self)
  then show ?thesis by simp
qed

lemma lex_inside_length:
  assumes "lex_inside s = Some (t, rest)"
  shows "length rest < length s"
proof (cases s)
  case Nil
  with assms show ?thesis by (simp add: lex_inside_def)
next
  case (Cons c cs)
  have w: "lex_word (c # cs) = Some (v, r) \<Longrightarrow> alpha_num c \<Longrightarrow> length r < length (c # cs)" for v r
    using length_dropWhile_le [of alpha_num cs] by (auto simp: lex_word_def Let_def split: if_splits)
  show ?thesis
    using assms w lex_word_length [of cs] lex_quote_length [of cs] length_dropWhile_le [of space_char cs]
    by (fastforce simp: lex_inside_def Cons less_Suc_eq_le split: if_splits option.splits)
qed

function (sequential) lex_text :: "string \<Rightarrow> string \<Rightarrow> tok list option" and lex_action :: "string \<Rightarrow> tok list option" where
  "lex_text acc [] = Some (text_tok (rev acc))"
| "lex_text acc (c # cs) =
     (if has_prefix (c # cs) ''{{'' then map_option (\<lambda>ts. text_tok (rev acc) @ TLeft # ts) (lex_action (drop 1 cs))
      else lex_text (c # acc) cs)"
| "lex_action s =
     (if has_prefix s ''}}'' then map_option (\<lambda>ts. TRight # ts) (lex_text [] (drop 2 s))
      else case lex_inside s of
          None \<Rightarrow> None
        | Some (t, rest) \<Rightarrow> map_option (\<lambda>ts. t # ts) (lex_action rest))"
  by pat_completeness auto
termination
  by (relation "measure (\<lambda>x. case x of Inl (acc, s) \<Rightarrow> length s | Inr s \<Rightarrow> length s)")
    (auto simp: has_prefix_iff lex_inside_length)

section \<open>Parser\<close>

datatype expr =
    EField "string list"
  | EVar string "string list"
  | EStr string
  | ECall string "expr list"

datatype node =
    NText string
  | NAction "string option" expr
  | NIf expr "node list" "node list"
  | NRange "string option" expr "node list"

fun skip_space :: "tok list \<Rightarrow> tok list" where
  "skip_space (TSpace # ts) = skip_space ts"
| "skip_space ts = ts"

fun fields_of :: "tok list \<Rightarrow> string list \<times> tok list" where
  "fields_of (TField f # ts) = (let (fs, rest) = fields_of ts in (f # fs, rest))"
| "fields_of ts = ([], ts)"

text \<open>\<open>operand\<close> and \<open>command\<close>: a command that starts with a name is a call, any other is one operand.
  The operands of a command are separated by spaces, and the command ends before a closing parenthesis
  or delimiter.  The fuel bounds the number of steps; a text of \<open>n\<close> tokens needs at most \<open>2 n\<close>.\<close>

definition command_end :: "tok list \<Rightarrow> bool" where
  "command_end ts \<longleftrightarrow> (case ts of TRight # _ \<Rightarrow> True | TRpar # _ \<Rightarrow> True | _ \<Rightarrow> False)"

fun operand :: "nat \<Rightarrow> tok list \<Rightarrow> (expr \<times> tok list) option"
  and operands :: "nat \<Rightarrow> tok list \<Rightarrow> (expr list \<times> tok list) option"
  and command :: "nat \<Rightarrow> tok list \<Rightarrow> (expr \<times> tok list) option" where
  "operand 0 ts = None"
| "operand (Suc k) ts =
     (case ts of
        TStr s # rest \<Rightarrow> Some (EStr s, rest)
      | TVar v # rest \<Rightarrow> (let (fs, rest') = fields_of rest in Some (EVar v fs, rest'))
      | TField f # rest \<Rightarrow> (let (fs, rest') = fields_of (TField f # rest) in Some (EField fs, rest'))
      | TLpar # rest \<Rightarrow>
          (case command k (skip_space rest) of Some (e, TRpar # rest') \<Rightarrow> Some (e, rest') | _ \<Rightarrow> None)
      | _ \<Rightarrow> None)"
| "operands 0 ts = None"
| "operands (Suc k) ts =
     (if command_end ts then Some ([], ts)
      else case ts of
        TSpace # rest \<Rightarrow>
          (if command_end (skip_space rest) then Some ([], skip_space rest)
           else case operand k (skip_space rest) of
               None \<Rightarrow> None
             | Some (e, rest') \<Rightarrow>
                 (case operands k rest' of None \<Rightarrow> None | Some (es, rest'') \<Rightarrow> Some (e # es, rest'')))
      | _ \<Rightarrow> None)"
| "command 0 ts = None"
| "command (Suc k) ts =
     (case ts of
        TIdent f # rest \<Rightarrow>
          (if f \<in> {''eq'', ''ne'', ''and''} then
             (case operands k rest of Some (es, rest') \<Rightarrow> Some (ECall f es, rest') | None \<Rightarrow> None)
           else None)
      | _ \<Rightarrow>
          (case operand k ts of
             Some (e, rest) \<Rightarrow> if command_end (skip_space rest) then Some (e, skip_space rest) else None
           | None \<Rightarrow> None))"

text \<open>\<open>pipeline\<close> up to the closing delimiter, with its declaration.\<close>

definition pipeline :: "nat \<Rightarrow> tok list \<Rightarrow> (string option \<times> expr \<times> tok list) option" where
  "pipeline k ts =
     (let ts = skip_space ts;
          (d, body) = (case ts of TVar v # rest \<Rightarrow>
             (case skip_space rest of TDeclare # rest' \<Rightarrow> (Some v, skip_space rest') | _ \<Rightarrow> (None, ts)) | _ \<Rightarrow> (None, ts))
      in case command k body of Some (e, TRight # rest) \<Rightarrow> Some (d, e, rest) | _ \<Rightarrow> None)"

text \<open>How a list of nodes ends: at the end of the text, at \<open>end\<close>, at \<open>else\<close>, or at the \<open>if\<close> of an
  \<open>else if\<close>, whose pipeline comes next.\<close>

datatype list_end = AtEOF | AtEnd | AtElse | AtElseIf

fun item_list :: "nat \<Rightarrow> tok list \<Rightarrow> (node list \<times> list_end \<times> tok list) option"
  and if_control :: "nat \<Rightarrow> tok list \<Rightarrow> (node \<times> tok list) option" where
  "item_list 0 ts = None"
| "item_list (Suc k) ts =
     (case ts of
        [] \<Rightarrow> Some ([], AtEOF, [])
      | TText s # rest \<Rightarrow>
          (case item_list k rest of Some (ns, e, rest') \<Rightarrow> Some (NText s # ns, e, rest') | None \<Rightarrow> None)
      | TLeft # rest \<Rightarrow>
          (case skip_space rest of
             TIdent w # body \<Rightarrow>
               (if w = ''end'' then
                  (case skip_space body of TRight # rest' \<Rightarrow> Some ([], AtEnd, rest') | _ \<Rightarrow> None)
                else if w = ''else'' then
                  (case skip_space body of
                     TRight # rest' \<Rightarrow> Some ([], AtElse, rest')
                   | TIdent w' # rest' \<Rightarrow> if w' = ''if'' then Some ([], AtElseIf, rest') else None
                   | _ \<Rightarrow> None)
                else if w = ''if'' then
                  (case if_control k body of
                     Some (n, rest') \<Rightarrow>
                       (case item_list k rest' of Some (ns, e, rest'') \<Rightarrow> Some (n # ns, e, rest'') | None \<Rightarrow> None)
                   | None \<Rightarrow> None)
                else if w = ''range'' then
                  (case pipeline k body of
                     Some (d, e, rest') \<Rightarrow>
                       (case item_list k rest' of
                          Some (ns, AtEnd, rest'') \<Rightarrow>
                            (case item_list k rest'' of
                               Some (ns', e', r) \<Rightarrow> Some (NRange d e ns # ns', e', r) | None \<Rightarrow> None)
                        | _ \<Rightarrow> None)
                   | None \<Rightarrow> None)
                else
                  (case pipeline k (TIdent w # body) of
                     Some (d, e, rest') \<Rightarrow>
                       (case item_list k rest' of Some (ns, e', r) \<Rightarrow> Some (NAction d e # ns, e', r) | None \<Rightarrow> None)
                   | None \<Rightarrow> None))
           | _ \<Rightarrow>
               (case pipeline k rest of
                  Some (d, e, rest') \<Rightarrow>
                    (case item_list k rest' of Some (ns, e', r) \<Rightarrow> Some (NAction d e # ns, e', r) | None \<Rightarrow> None)
                | None \<Rightarrow> None))
      | _ \<Rightarrow> None)"
| "if_control 0 ts = None"
| "if_control (Suc k) ts =
     (case pipeline k ts of
        Some (None, e, rest) \<Rightarrow>
          (case item_list k rest of
             Some (ns, AtEnd, rest') \<Rightarrow> Some (NIf e ns [], rest')
           | Some (ns, AtElse, rest') \<Rightarrow>
               (case item_list k rest' of Some (ns', AtEnd, r) \<Rightarrow> Some (NIf e ns ns', r) | _ \<Rightarrow> None)
           | Some (ns, AtElseIf, rest') \<Rightarrow>
               (case if_control k rest' of Some (n, r) \<Rightarrow> Some (NIf e ns [n], r) | None \<Rightarrow> None)
           | _ \<Rightarrow> None)
      | _ \<Rightarrow> None)"

text \<open>The parser also refuses a variable that no declaration before it, in its own block or one around
  it, brings into scope.\<close>

fun expr_scoped :: "string list \<Rightarrow> expr \<Rightarrow> bool" where
  "expr_scoped vs (EField fs) = True"
| "expr_scoped vs (EVar v fs) = (v \<in> set vs)"
| "expr_scoped vs (EStr s) = True"
| "expr_scoped vs (ECall f es) = list_all (expr_scoped vs) es"

definition decl_var :: "string option \<Rightarrow> 'a \<Rightarrow> (string \<times> 'a) list" where
  "decl_var d x = (case d of None \<Rightarrow> [] | Some v \<Rightarrow> [(v, x)])"

fun node_scoped :: "string list \<Rightarrow> node \<Rightarrow> bool"
  and list_scoped :: "string list \<Rightarrow> node list \<Rightarrow> bool" where
  "node_scoped vs (NText s) = True"
| "node_scoped vs (NAction d e) = expr_scoped vs e"
| "node_scoped vs (NIf e ns ns') = (expr_scoped vs e \<and> list_scoped vs ns \<and> list_scoped vs ns')"
| "node_scoped vs (NRange d e ns) = (expr_scoped vs e \<and> list_scoped (map fst (decl_var d ()) @ vs) ns)"
| "list_scoped vs [] = True"
| "list_scoped vs (n # ns) =
     (node_scoped vs n \<and>
      list_scoped ((case n of NAction d e \<Rightarrow> map fst (decl_var d ()) | _ \<Rightarrow> []) @ vs) ns)"

definition parse_template :: "string \<Rightarrow> node list option" where
  "parse_template s =
     (case lex_text [] s of
        None \<Rightarrow> None
      | Some ts \<Rightarrow>
          (case item_list (2 * length ts + 1) ts of
             Some (ns, AtEOF, _) \<Rightarrow> if list_scoped [''$''] ns then Some ns else None
           | _ \<Rightarrow> None))"

section \<open>Execution\<close>

text \<open>The variables are a stack, the latest declaration first.  A control structure drops what was
  declared inside it.\<close>

type_synonym scope = "(string \<times> gval) list"

fun all_some :: "'a option list \<Rightarrow> 'a list option" where
  "all_some [] = Some []"
| "all_some (x # xs) = (case x of None \<Rightarrow> None | Some y \<Rightarrow> map_option ((#) y) (all_some xs))"

fun eval_expr :: "scope \<Rightarrow> gval \<Rightarrow> expr \<Rightarrow> gval option" where
  "eval_expr env dot (EField fs) = gfields dot fs"
| "eval_expr env dot (EVar v fs) = (case map_of env v of None \<Rightarrow> None | Some x \<Rightarrow> gfields x fs)"
| "eval_expr env dot (EStr s) = Some (GStr s)"
| "eval_expr env dot (ECall f es) =
     (case all_some (map (eval_expr env dot) es) of None \<Rightarrow> None | Some vs \<Rightarrow> gcall f vs)"

fun each_text :: "('a \<Rightarrow> string option) \<Rightarrow> 'a list \<Rightarrow> string option" where
  "each_text f [] = Some []"
| "each_text f (x # xs) =
     (case f x of None \<Rightarrow> None | Some s \<Rightarrow> map_option (\<lambda>t. s @ t) (each_text f xs))"

fun walk :: "scope \<Rightarrow> gval \<Rightarrow> node \<Rightarrow> (scope \<times> string) option"
  and walk_list :: "scope \<Rightarrow> gval \<Rightarrow> node list \<Rightarrow> string option" where
  "walk env dot (NText s) = Some (env, s)"
| "walk env dot (NAction d e) =
     (case eval_expr env dot e of
        None \<Rightarrow> None
      | Some v \<Rightarrow>
          (case d of
             Some x \<Rightarrow> Some ((x, v) # env, [])
           | None \<Rightarrow> map_option (\<lambda>s. (env, s)) (gprint v)))"
| "walk env dot (NIf e ns ns') =
     (case eval_expr env dot e of
        None \<Rightarrow> None
      | Some v \<Rightarrow> map_option (\<lambda>s. (env, s)) (if gtruth v then walk_list env dot ns else walk_list env dot ns'))"
| "walk env dot (NRange d e ns) =
     (case eval_expr env dot e of
        Some (GList vs) \<Rightarrow>
          map_option (\<lambda>s. (env, s)) (each_text (\<lambda>v. walk_list (decl_var d v @ env) v ns) vs)
      | _ \<Rightarrow> None)"
| "walk_list env dot [] = Some []"
| "walk_list env dot (n # ns) =
     (case walk env dot n of
        None \<Rightarrow> None
      | Some (env', s) \<Rightarrow> map_option (\<lambda>t. s @ t) (walk_list env' dot ns))"

text \<open>\<open>Execute\<close>: the data is the dot and the variable \<open>$\<close>.\<close>

definition execute_template :: "node list \<Rightarrow> gval \<Rightarrow> string option" where
  "execute_template ns v = walk_list [(''$'', v)] v ns"

section \<open>Lemmas\<close>

lemma each_text_Some: "(\<And>x. x \<in> set xs \<Longrightarrow> f x = Some (g x)) \<Longrightarrow> each_text f xs = Some (concat (map g xs))"
  by (induction xs) auto

lemma each_text_map: "(\<And>x. f (h x) = Some (g x)) \<Longrightarrow> each_text f (map h xs) = Some (concat (map g xs))"
  by (induction xs) auto

lemma walk_list_append:
  "walk_list env dot (NText s # ns) = map_option (\<lambda>t. s @ t) (walk_list env dot ns)"
  by simp

end
