(* ===== verification/Gotmplprint.thy ===== *)
theory Gotmplprint
  imports Gotemplate
begin

text \<open>
  The templates read back: a list of nodes has a text, and the parser of theory \<open>Gotemplate\<close> gives
  the nodes back for it.  The program's two templates are texts of this form, so that they are parsed
  by this theorem and not by running the lexer over them.
\<close>

section \<open>The text of tokens\<close>

fun tok_text :: "tok \<Rightarrow> string" where
  "tok_text (TText s) = s"
| "tok_text TLeft = ''{{''"
| "tok_text TRight = ''}}''"
| "tok_text TSpace = '' ''"
| "tok_text TDeclare = '':=''"
| "tok_text TLpar = ''(''"
| "tok_text TRpar = '')''"
| "tok_text (TIdent w) = w"
| "tok_text (TField f) = CHR ''.'' # f"
| "tok_text (TVar v) = v"
| "tok_text (TStr s) = CHR 34 # s @ [CHR 34]"

definition toks_text :: "tok list \<Rightarrow> string" where
  "toks_text ts = concat (map tok_text ts)"

lemma toks_text_simps [simp]:
  "toks_text [] = []" "toks_text (t # ts) = tok_text t @ toks_text ts"
  by (simp_all add: toks_text_def)

text \<open>A text that the lexer does not cut, even before an action.\<close>

fun plain_text :: "string \<Rightarrow> bool" where
  "plain_text [] = True"
| "plain_text (c # cs) = ((c = CHR ''{'' \<longrightarrow> cs \<noteq> [] \<and> hd cs \<noteq> CHR ''{'') \<and> plain_text cs)"

definition quotable :: "string \<Rightarrow> bool" where
  "quotable s \<longleftrightarrow> list_all (\<lambda>c. c \<noteq> CHR 34 \<and> c \<noteq> CHR 92 \<and> c \<noteq> CHR 10) s"

definition word_ok :: "string \<Rightarrow> bool" where
  "word_ok w \<longleftrightarrow> w \<noteq> [] \<and> list_all alpha_num w"

definition var_ok :: "string \<Rightarrow> bool" where
  "var_ok v \<longleftrightarrow> v \<noteq> [] \<and> hd v = CHR ''$'' \<and> list_all alpha_num (tl v)"

fun tok_ok :: "tok \<Rightarrow> bool" where
  "tok_ok (TIdent w) = word_ok w"
| "tok_ok (TField f) = word_ok f"
| "tok_ok (TVar v) = var_ok v"
| "tok_ok (TStr s) = quotable s"
| "tok_ok (TText s) = False"
| "tok_ok TLeft = False"
| "tok_ok TRight = False"
| "tok_ok _ = True"

text \<open>What may stand behind a name, and behind a space.\<close>

fun sep_tok :: "tok \<Rightarrow> bool" where
  "sep_tok TSpace = True"
| "sep_tok (TField f) = True"
| "sep_tok TRpar = True"
| "sep_tok TRight = True"
| "sep_tok TDeclare = True"
| "sep_tok _ = False"

definition follows :: "tok \<Rightarrow> tok \<Rightarrow> bool" where
  "follows t u = (case t of TIdent w \<Rightarrow> sep_tok u | TField f \<Rightarrow> sep_tok u | TVar v \<Rightarrow> sep_tok u
     | TSpace \<Rightarrow> u \<noteq> TSpace | _ \<Rightarrow> True)"

fun text_ok :: "tok list \<Rightarrow> bool" and act_ok :: "tok list \<Rightarrow> bool" where
  "text_ok [] = True"
| "text_ok (t # ts) =
     (case t of TText s \<Rightarrow> s \<noteq> [] \<and> plain_text s \<and> (ts = [] \<or> hd ts = TLeft) \<and> text_ok ts
      | TLeft \<Rightarrow> act_ok ts
      | _ \<Rightarrow> False)"
| "act_ok [] = False"
| "act_ok (t # ts) = (if t = TRight then text_ok ts else tok_ok t \<and> ts \<noteq> [] \<and> follows t (hd ts) \<and> act_ok ts)"

section \<open>Lexing the text\<close>

lemma alpha_num_cases: "alpha_num c \<Longrightarrow> \<not> space_char c \<and> c \<notin> set '':$.(){},|'' \<and> c \<noteq> CHR 34"
  by (auto simp: alpha_num_def space_char_def)

lemma word_ends_stop: "word_ends rest \<Longrightarrow> rest = [] \<or> \<not> alpha_num (hd rest)"
  by (cases rest) (auto dest: alpha_num_cases simp: has_prefix_iff)

lemma lex_word_append:
  assumes "list_all alpha_num w" and "word_ends rest"
  shows "lex_word (w @ rest) = Some (w, rest)"
proof -
  have "takeWhile alpha_num (w @ rest) = w" "dropWhile alpha_num (w @ rest) = rest"
    using word_ends_stop [OF assms(2)] assms(1)
    by (cases rest; simp add: takeWhile_append dropWhile_append list_all_iff takeWhile_eq_all_conv)+
  with assms(2) show ?thesis by (simp add: lex_word_def)
qed

lemma lex_quote_append: "quotable s \<Longrightarrow> lex_quote (s @ CHR 34 # rest) = Some (s, rest)"
  by (simp add: lex_quote_def quotable_def list_all_iff takeWhile_append takeWhile_eq_all_conv)

lemma sep_tok_text: "sep_tok u \<Longrightarrow> word_ends (tok_text u @ s)"
  by (cases u) (auto simp: space_char_def)

lemma tok_text_start:
  "tok_ok t \<Longrightarrow> t \<noteq> TSpace \<Longrightarrow> \<exists>c cs. tok_text t = c # cs \<and> \<not> space_char c \<and> c \<noteq> CHR ''}''"
  by (cases t) (auto simp: word_ok_def var_ok_def space_char_def neq_Nil_conv alpha_num_def)

lemma lex_inside_tok:
  assumes "tok_ok t" and "follows t u" and "tok_ok u \<or> u = TRight"
  shows "lex_inside (tok_text t @ tok_text u @ s) = Some (t, tok_text u @ s) \<and>
    \<not> has_prefix (tok_text t @ tok_text u @ s) ''}}''"
proof (cases t)
  case TSpace
  with assms(2,3) obtain c cs where "tok_text u = c # cs" "\<not> space_char c"
    using tok_text_start [of u] by (cases "u = TRight") (auto simp: follows_def space_char_def)
  then show ?thesis by (simp add: TSpace lex_inside_def space_char_def)
next
  case (TIdent w)
  with assms obtain c cs where w: "w = c # cs" "alpha_num c" "list_all alpha_num w"
    by (auto simp: word_ok_def neq_Nil_conv)
  have "word_ends (tok_text u @ s)" using assms(2) TIdent sep_tok_text by (simp add: follows_def)
  from lex_word_append [OF w(3) this] alpha_num_cases [OF w(2)] w(1,2) show ?thesis
    by (simp add: TIdent lex_inside_def)
next
  case (TField f)
  with assms have "list_all alpha_num f" "f \<noteq> []" "word_ends (tok_text u @ s)"
    using sep_tok_text by (auto simp: word_ok_def follows_def)
  with lex_word_append [of f "tok_text u @ s"] show ?thesis
    by (simp add: TField lex_inside_def space_char_def)
next
  case (TVar v)
  with assms obtain w where v: "v = CHR ''$'' # w" "list_all alpha_num w"
    by (cases v) (auto simp: var_ok_def)
  have "word_ends (tok_text u @ s)" using assms(2) TVar sep_tok_text by (simp add: follows_def)
  from lex_word_append [OF v(2) this] v(1) show ?thesis
    by (simp add: TVar lex_inside_def space_char_def)
next
  case (TStr q)
  with assms lex_quote_append [of q "tok_text u @ s"] show ?thesis
    by (simp add: lex_inside_def space_char_def)
qed (use assms in \<open>simp_all add: lex_inside_def space_char_def\<close>)

lemma lex_text_plain:
  "plain_text s \<Longrightarrow> rest = [] \<or> (\<exists>r. rest = ''{{'' @ r) \<Longrightarrow>
     lex_text acc (s @ rest) = lex_text (rev s @ acc) rest"
proof (induction s arbitrary: acc)
  case Nil
  then show ?case by simp
next
  case (Cons c cs)
  have "\<not> has_prefix (c # cs @ rest) ''{{''"
    using Cons.prems by (cases cs) auto
  with Cons show ?case by (auto simp del: lex_action.simps)
qed

lemma act_ok_next: "act_ok (t # ts) \<Longrightarrow> t \<noteq> TRight \<Longrightarrow> \<exists>u us. ts = u # us \<and> (tok_ok u \<or> u = TRight) \<and> follows t u"
  by (cases ts) (auto split: if_splits)

theorem lex_toks:
  shows "text_ok ts \<Longrightarrow> lex_text acc (toks_text ts) =
      (case ts of TText s # us \<Rightarrow> Some (TText (rev acc @ s) # us) | _ \<Rightarrow> Some (text_tok (rev acc) @ ts))"
    and "act_ok ts \<Longrightarrow> lex_action (toks_text ts) = Some ts"
proof (induction ts arbitrary: acc and rule: text_ok_act_ok.induct)
  case 1
  then show ?case by simp
next
  case (2 t ts)
  show ?case
  proof (cases t)
    case (TText s)
    with "2.prems" have s: "s \<noteq> []" "plain_text s" "ts = [] \<or> hd ts = TLeft" "text_ok ts" by simp_all
    have r: "toks_text ts = [] \<or> (\<exists>r. toks_text ts = ''{{'' @ r)"
      using s(3) by (cases ts) auto
    have "lex_text (rev s @ acc) (toks_text ts) = Some (TText (rev acc @ s) # ts)"
      using "2.IH"(1) [OF TText s(4), of "rev s @ acc"] s(1,3) by (cases ts) (auto simp: text_tok_def split: tok.splits)
    with lex_text_plain [OF s(2) r, of acc] show ?thesis by (simp add: TText)
  next
    case TLeft
    with "2.prems" have "act_ok ts" by simp
    with "2.IH"(2) [OF TLeft] show ?thesis by (simp add: TLeft)
  qed (use "2.prems" in simp_all)
next
  case 3
  then show ?case by simp
next
  case (4 t ts)
  show ?case
  proof (cases "t = TRight")
    case True
    with "4.prems" have "text_ok ts" by simp
    with "4.IH"(1) [OF True, of "[]"] have "lex_text [] (toks_text ts) = Some ts"
      by (auto simp: text_tok_def split: tok.splits list.splits)
    then show ?thesis by (simp add: True)
  next
    case False
    with "4.prems" have ts: "tok_ok t" "act_ok ts" by simp_all
    from act_ok_next [OF "4.prems" False] obtain u us
      where u: "ts = u # us" "tok_ok u \<or> u = TRight" "follows t u" by blast
    from lex_inside_tok [OF ts(1) u(3,2), of "toks_text us"]
    have "lex_inside (toks_text (t # ts)) = Some (t, toks_text ts)" "\<not> has_prefix (toks_text (t # ts)) ''}}''"
      by (simp_all add: u(1))
    with "4.IH"(2) [OF False ts(2)] show ?thesis by (subst lex_action.simps) simp
  qed
qed

section \<open>The tokens of nodes\<close>

fun operand_toks :: "expr \<Rightarrow> tok list" where
  "operand_toks (EField fs) = map TField fs"
| "operand_toks (EVar v fs) = TVar v # map TField fs"
| "operand_toks (EStr s) = [TStr s]"
| "operand_toks (ECall f es) = TLpar # TIdent f # concat (map (\<lambda>e. TSpace # operand_toks e) es) @ [TRpar]"

definition args_toks :: "expr list \<Rightarrow> tok list" where
  "args_toks es = concat (map (\<lambda>e. TSpace # operand_toks e) es)"

definition command_toks :: "expr \<Rightarrow> tok list" where
  "command_toks e = (case e of ECall f es \<Rightarrow> TIdent f # args_toks es | _ \<Rightarrow> operand_toks e)"

definition pipe_toks :: "string option \<Rightarrow> expr \<Rightarrow> tok list" where
  "pipe_toks d e =
     (case d of None \<Rightarrow> [] | Some v \<Rightarrow> [TVar v, TSpace, TDeclare, TSpace]) @ command_toks e @ [TRight]"

definition end_toks :: "tok list" where
  "end_toks = [TLeft, TIdent ''end'', TRight]"

text \<open>An \<open>else\<close> that holds one \<open>if\<close> and nothing else is printed as \<open>else if\<close>.\<close>

fun single_if :: "node list \<Rightarrow> bool" where
  "single_if [NIf e a b] = True"
| "single_if _ = False"

definition else_toks :: "node list \<Rightarrow> tok list \<Rightarrow> tok list" where
  "else_toks b ts =
     (if b = [] then end_toks
      else if single_if b then [TLeft, TIdent ''else'', TSpace] @ tl ts
      else [TLeft, TIdent ''else'', TRight] @ ts @ end_toks)"

fun node_toks :: "node \<Rightarrow> tok list" where
  "node_toks (NText s) = [TText s]"
| "node_toks (NAction d e) = TLeft # pipe_toks d e"
| "node_toks (NIf e a b) =
     TLeft # TIdent ''if'' # TSpace # pipe_toks None e @ concat (map node_toks a) @
     else_toks b (concat (map node_toks b))"
| "node_toks (NRange d e ns) =
     TLeft # TIdent ''range'' # TSpace # pipe_toks d e @ concat (map node_toks ns) @ end_toks"

definition list_toks :: "node list \<Rightarrow> tok list" where
  "list_toks ns = concat (map node_toks ns)"

lemma list_toks_simps [simp]:
  "list_toks [] = []" "list_toks (n # ns) = node_toks n @ list_toks ns"
  by (simp_all add: list_toks_def)

definition nodes_text :: "node list \<Rightarrow> string" where
  "nodes_text ns = toks_text (list_toks ns)"

fun expr_ok :: "expr \<Rightarrow> bool" where
  "expr_ok (EField fs) = (fs \<noteq> [] \<and> list_all word_ok fs)"
| "expr_ok (EVar v fs) = (var_ok v \<and> list_all word_ok fs)"
| "expr_ok (EStr s) = quotable s"
| "expr_ok (ECall f es) = (f \<in> {''eq'', ''ne'', ''and''} \<and> list_all expr_ok es)"

fun is_text :: "node \<Rightarrow> bool" where
  "is_text (NText s) = True"
| "is_text _ = False"

definition pipe_ok :: "string option \<Rightarrow> expr \<Rightarrow> bool" where
  "pipe_ok d e \<longleftrightarrow> (\<forall>v. d = Some v \<longrightarrow> var_ok v) \<and> expr_ok e"

fun node_ok :: "node \<Rightarrow> bool" and list_ok :: "node list \<Rightarrow> bool" where
  "node_ok (NText s) = (s \<noteq> [] \<and> plain_text s)"
| "node_ok (NAction d e) = pipe_ok d e"
| "node_ok (NIf e a b) = (pipe_ok None e \<and> list_ok a \<and> list_ok b)"
| "node_ok (NRange d e ns) = (pipe_ok d e \<and> list_ok ns)"
| "list_ok [] = True"
| "list_ok (n # ns) = (node_ok n \<and> (is_text n \<longrightarrow> ns = [] \<or> \<not> is_text (hd ns)) \<and> list_ok ns)"

section \<open>The printed text is lexed\<close>

definition sep_first :: "tok list \<Rightarrow> bool" where
  "sep_first ts \<longleftrightarrow> ts \<noteq> [] \<and> sep_tok (hd ts)"

definition left_first :: "tok list \<Rightarrow> bool" where
  "left_first ts \<longleftrightarrow> ts = [] \<or> hd ts = TLeft"

lemma sep_first_simps [simp]:
  "sep_first [] \<longleftrightarrow> False" "sep_first (t # ts) \<longleftrightarrow> sep_tok t"
  by (simp_all add: sep_first_def)

lemma left_first_simps [simp]:
  "left_first []" "left_first (t # ts) \<longleftrightarrow> t = TLeft"
  by (simp_all add: left_first_def)

lemma act_ok_fields:
  "list_all word_ok fs \<Longrightarrow> act_ok rest \<Longrightarrow> sep_first rest \<Longrightarrow>
     act_ok (map TField fs @ rest) \<and> sep_first (map TField fs @ rest)"
  by (induction fs) (auto simp: follows_def sep_first_def)

lemma act_ok_operand:
  "expr_ok e \<Longrightarrow> act_ok rest \<Longrightarrow> sep_first rest \<Longrightarrow>
     act_ok (operand_toks e @ rest) \<and> operand_toks e \<noteq> [] \<and> hd (operand_toks e) \<noteq> TSpace"
proof (induction e arbitrary: rest)
  case (EField fs)
  with act_ok_fields [of fs rest] show ?case by (cases fs) simp_all
next
  case (EVar v fs)
  with act_ok_fields [of fs rest] show ?case by (auto simp: follows_def sep_first_def)
next
  case (EStr s)
  then show ?case by (auto simp: follows_def sep_first_def)
next
  case (ECall f es)
  have close: "act_ok (TRpar # rest)" using ECall.prems by (auto simp: follows_def sep_first_def)
  have args: "set xs \<subseteq> set es \<Longrightarrow>
      act_ok (concat (map (\<lambda>e. TSpace # operand_toks e) xs) @ TRpar # rest) \<and>
      sep_first (concat (map (\<lambda>e. TSpace # operand_toks e) xs) @ TRpar # rest)" for xs
  proof (induction xs)
    case Nil
    with close show ?case by simp
  next
    case (Cons x xs)
    have "expr_ok x" using ECall.prems(1) Cons.prems by (auto simp: list_all_iff)
    with Cons ECall.IH [of x] show ?case by (auto simp: follows_def)
  qed
  have "word_ok f" using ECall.prems(1) by (auto simp: word_ok_def alpha_num_def)
  with args [of es] show ?case by (auto simp: follows_def sep_first_def)
qed

lemma act_ok_args:
  "list_all expr_ok es \<Longrightarrow> act_ok rest \<Longrightarrow> sep_first rest \<Longrightarrow>
     act_ok (args_toks es @ rest) \<and> sep_first (args_toks es @ rest)"
proof (induction es)
  case Nil
  then show ?case by (simp add: args_toks_def)
next
  case (Cons e es)
  then have "act_ok (args_toks es @ rest)" "sep_first (args_toks es @ rest)" by simp_all
  with act_ok_operand [of e "args_toks es @ rest"] Cons.prems(1) show ?case
    by (auto simp: args_toks_def follows_def)
qed

lemma act_ok_pipe:
  assumes "pipe_ok d e" and "text_ok rest"
  shows "act_ok (pipe_toks d e @ rest) \<and> hd (pipe_toks d e) \<noteq> TSpace \<and> pipe_toks d e \<noteq> []"
proof -
  have r: "act_ok (TRight # rest)" "sep_first (TRight # rest)" using assms(2) by simp_all
  have e: "expr_ok e" using assms(1) by (simp add: pipe_ok_def)
  have c: "act_ok (command_toks e @ TRight # rest) \<and> command_toks e \<noteq> [] \<and> hd (command_toks e) \<noteq> TSpace"
  proof (cases e)
    case (ECall f es)
    with e have "word_ok f" "list_all expr_ok es" by (auto simp: word_ok_def alpha_num_def)
    with act_ok_args [OF _ r] show ?thesis by (auto simp: ECall command_toks_def follows_def sep_first_def)
  qed (use act_ok_operand [OF e r] in \<open>simp_all add: command_toks_def\<close>)
  then show ?thesis
    using assms(1) by (cases d) (auto simp: pipe_toks_def pipe_ok_def follows_def)
qed

lemma keywords_ok: "word_ok ''if''" "word_ok ''else''" "word_ok ''end''" "word_ok ''range''"
  by (simp_all add: word_ok_def alpha_num_def)

lemma text_ok_end: "text_ok rest \<Longrightarrow> text_ok (end_toks @ rest) \<and> left_first (end_toks @ rest)"
  by (simp add: end_toks_def keywords_ok follows_def)

lemma not_text_left: "\<not> is_text n \<Longrightarrow> left_first (node_toks n @ ts)"
  by (cases n) simp_all

lemma text_ok_list:
  assumes "\<And>n rest. n \<in> set ns \<Longrightarrow> node_ok n \<Longrightarrow> text_ok rest \<Longrightarrow> is_text n \<longrightarrow> left_first rest \<Longrightarrow>
      text_ok (node_toks n @ rest)"
    and "list_ok ns" and "text_ok rest" and "left_first rest"
  shows "text_ok (list_toks ns @ rest)"
  using assms
proof (induction ns)
  case Nil
  then show ?case by simp
next
  case (Cons n ns)
  then have ns: "text_ok (list_toks ns @ rest)" by simp
  have "is_text n \<longrightarrow> left_first (list_toks ns @ rest)"
    using Cons.prems(2,4) not_text_left by (cases ns) auto
  with Cons.prems(1) [of n "list_toks ns @ rest"] Cons.prems(2) ns show ?case by simp
qed

lemma single_ifE:
  assumes "single_if b"
  obtains e a c where "b = [NIf e a c]"
  using assms by (cases b rule: single_if.cases) simp_all

lemma text_ok_node:
  "node_ok n \<Longrightarrow> text_ok rest \<Longrightarrow> is_text n \<longrightarrow> left_first rest \<Longrightarrow> text_ok (node_toks n @ rest)"
proof (induction n arbitrary: rest)
  case (NText s)
  then show ?case by (simp add: left_first_def)
next
  case (NAction d e)
  with act_ok_pipe [of d e rest] show ?case by simp
next
  case (NIf e a b)
  let ?else = "else_toks b (list_toks b) @ rest"
  have b: "text_ok ?else \<and> left_first ?else"
  proof (cases "single_if b")
    case True
    then obtain e' a' c' where b: "b = [NIf e' a' c']" by (rule single_ifE)
    with NIf.IH(2) [of "NIf e' a' c'" rest] NIf.prems
    have "text_ok (node_toks (NIf e' a' c') @ rest)" by simp
    then show ?thesis by (simp add: b else_toks_def keywords_ok follows_def)
  next
    case False
    have "text_ok (list_toks b @ end_toks @ rest)"
      using NIf text_ok_end [of rest] by (intro text_ok_list) simp_all
    with False text_ok_end [of rest] NIf.prems(2) show ?thesis
      by (simp add: else_toks_def keywords_ok follows_def)
  qed
  then have "text_ok (list_toks a @ ?else)" using NIf by (intro text_ok_list) simp_all
  with act_ok_pipe [of None e "list_toks a @ ?else"] NIf.prems show ?case
    by (simp add: keywords_ok follows_def flip: list_toks_def)
next
  case (NRange d e ns)
  have "text_ok (list_toks ns @ end_toks @ rest)"
    using NRange text_ok_end [of rest] by (intro text_ok_list) simp_all
  with act_ok_pipe [of d e "list_toks ns @ end_toks @ rest"] NRange.prems show ?case
    by (simp add: keywords_ok follows_def flip: list_toks_def)
qed

lemma text_ok_nodes: "list_ok ns \<Longrightarrow> text_ok (list_toks ns)"
  using text_ok_list [of ns "[]"] text_ok_node by simp

section \<open>The tokens are parsed\<close>

definition no_field :: "tok list \<Rightarrow> bool" where
  "no_field ts \<longleftrightarrow> fields_of ts = ([], ts)"

lemma no_field_end: "command_end ts \<Longrightarrow> no_field ts \<and> skip_space ts = ts"
  by (auto simp: command_end_def no_field_def split: list.splits tok.splits)

lemma fields_of_map: "no_field rest \<Longrightarrow> fields_of (map TField fs @ rest) = (fs, rest)"
  by (induction fs) (simp_all add: no_field_def)

lemma no_field_args: "command_end rest \<Longrightarrow> no_field (args_toks es @ rest)"
  using no_field_end by (cases es) (auto simp: args_toks_def no_field_def)

lemma operand_first:
  assumes "expr_ok e"
  obtains t ts where "operand_toks e = t # ts" "t \<noteq> TSpace" "t \<noteq> TRight" "t \<noteq> TRpar" "\<And>w. t \<noteq> TIdent w"
  using assms by (cases e; (cases "case e of EField fs \<Rightarrow> fs | _ \<Rightarrow> []")?) auto

lemma operands_from:
  assumes op: "\<And>e k rest. e \<in> set es \<Longrightarrow> no_field rest \<Longrightarrow> length (operand_toks e) \<le> k \<Longrightarrow>
      operand k (operand_toks e @ rest) = Some (e, rest)"
    and "list_all expr_ok es" and "command_end rest" and "length (args_toks es) < k"
  shows "operands k (args_toks es @ rest) = Some (es, rest)"
  using assms
proof (induction es arbitrary: k)
  case Nil
  then show ?case by (cases k) (simp_all add: args_toks_def)
next
  case (Cons e es)
  from Cons.prems(2) have e: "expr_ok e" "list_all expr_ok es" by simp_all
  have split: "args_toks (e # es) = TSpace # operand_toks e @ args_toks es" by (simp add: args_toks_def)
  from Cons.prems(4) split obtain j where k: "k = Suc j" "length (operand_toks e) + length (args_toks es) < j"
    by (cases k) simp_all
  from operand_first [OF e(1)] obtain t ts
    where t: "operand_toks e = t # ts" "t \<noteq> TSpace" "t \<noteq> TRight" "t \<noteq> TRpar" by metis
  have skip: "skip_space (operand_toks e @ us) = operand_toks e @ us" for us
    using t by (cases t) simp_all
  have go: "\<not> command_end (operand_toks e @ us)" "\<not> command_end (TSpace # us)" for us
    using t by (cases t; simp add: command_end_def)+
  have "operand j (operand_toks e @ args_toks es @ rest) = Some (e, args_toks es @ rest)"
    using Cons.prems(1) [of e] no_field_args [OF Cons.prems(3)] k(2) by simp
  moreover have "operands j (args_toks es @ rest) = Some (es, rest)"
    using Cons.IH [OF Cons.prems(1) e(2) Cons.prems(3)] k(2) by simp
  ultimately show ?case by (simp add: k(1) split skip go)
qed

lemma operand_toks_parse:
  "expr_ok e \<Longrightarrow> no_field rest \<Longrightarrow> length (operand_toks e) \<le> k \<Longrightarrow>
     operand k (operand_toks e @ rest) = Some (e, rest)"
proof (induction e arbitrary: k rest)
  case (EField fs)
  then obtain f gs j where "fs = f # gs" "k = Suc j" by (cases fs; cases k) simp_all
  with EField fields_of_map [of rest gs] show ?case by simp
next
  case (EVar v fs)
  then obtain j where "k = Suc j" by (cases k) simp_all
  with EVar fields_of_map [of rest fs] show ?case by simp
next
  case (EStr s)
  then obtain j where "k = Suc j" by (cases k) simp_all
  then show ?case by simp
next
  case (ECall f es)
  let ?a = "args_toks es"
  have toks: "operand_toks (ECall f es) = TLpar # TIdent f # ?a @ [TRpar]" by (simp add: args_toks_def)
  from ECall.prems(3) toks obtain j where k: "k = Suc (Suc j)" "length ?a < j"
    by (cases k; cases "k - 1") simp_all
  have es: "list_all expr_ok es" "f \<in> {''eq'', ''ne'', ''and''}" using ECall.prems(1) by simp_all
  have "operands j (?a @ TRpar # rest) = Some (es, TRpar # rest)"
    using ECall.IH es(1) k(2) by (intro operands_from) (auto simp: list_all_iff command_end_def)
  with es(2) show ?case by (simp only: toks) (simp add: k(1))
qed

lemma command_toks_parse:
  assumes "expr_ok e" and "command_end rest" and "length (command_toks e) < k"
  shows "command k (command_toks e @ rest) = Some (e, rest)"
proof -
  from assms(3) obtain j where k: "k = Suc j" "length (command_toks e) \<le> j" by (cases k) simp_all
  show ?thesis
  proof (cases "\<exists>f es. e = ECall f es")
    case True
    then obtain f es where e: "e = ECall f es" by blast
    with assms(1) k(2) have "operands j (args_toks es @ rest) = Some (es, rest)"
      by (intro operands_from operand_toks_parse assms(2)) (auto simp: list_all_iff command_toks_def)
    with assms(1) show ?thesis by (auto simp: e k(1) command_toks_def)
  next
    case False
    then have toks: "command_toks e = operand_toks e" by (auto simp: command_toks_def split: expr.splits)
    have r: "no_field rest" "skip_space rest = rest" using no_field_end [OF assms(2)] by simp_all
    have op: "operand j (operand_toks e @ rest) = Some (e, rest)"
      using operand_toks_parse [OF assms(1) r(1)] k(2) toks by simp
    from assms(1) obtain t ts where t: "operand_toks e = t # ts" "\<forall>w. t \<noteq> TIdent w"
      by (rule operand_first) blast
    have "command (Suc j) (operand_toks e @ rest) =
        (case operand j (operand_toks e @ rest) of
           Some (e, rest) \<Rightarrow> if command_end (skip_space rest) then Some (e, skip_space rest) else None
         | None \<Rightarrow> None)"
      using t by (cases t) simp_all
    with op r(2) assms(2) show ?thesis by (simp add: toks k(1))
  qed
qed

lemma command_start:
  "expr_ok e \<Longrightarrow> skip_space (command_toks e @ rest) = command_toks e @ rest"
proof -
  assume e: "expr_ok e"
  from operand_first [OF e] obtain t ts where "operand_toks e = t # ts" "t \<noteq> TSpace" by metis
  then show ?thesis by (cases e; cases t) (simp_all add: command_toks_def)
qed

lemma command_no_decl:
  assumes "expr_ok e"
  shows "(case command_toks e @ TRight # rest of TVar v # rest \<Rightarrow>
      (case skip_space rest of TDeclare # rest' \<Rightarrow> (Some v, skip_space rest')
       | _ \<Rightarrow> (None, command_toks e @ TRight # rest0)) | _ \<Rightarrow> (None, command_toks e @ TRight # rest0)) =
     (None, command_toks e @ TRight # rest0)"
proof (cases e)
  case (EField fs)
  with assms show ?thesis by (cases fs) (simp_all add: command_toks_def)
next
  case (EVar v fs)
  then show ?thesis by (cases fs) (simp_all add: command_toks_def)
qed (simp_all add: command_toks_def)

lemma pipe_toks_parse:
  assumes "pipe_ok d e" and "length (pipe_toks d e) \<le> k"
  shows "pipeline k (pipe_toks d e @ rest) = Some (d, e, rest)"
    and "pipeline k (TSpace # pipe_toks d e @ rest) = Some (d, e, rest)"
proof -
  have e: "expr_ok e" using assms(1) by (simp add: pipe_ok_def)
  have "length (command_toks e) < k" using assms(2) by (simp add: pipe_toks_def)
  then have c: "command k (command_toks e @ TRight # rest) = Some (e, TRight # rest)"
    by (intro command_toks_parse e) (simp_all add: command_end_def)
  show p: "pipeline k (pipe_toks d e @ rest) = Some (d, e, rest)"
  proof (cases d)
    case None
    show ?thesis
      using c command_no_decl [OF e, of rest rest] command_start [OF e]
      by (simp add: pipeline_def pipe_toks_def None)
  next
    case (Some v)
    with c command_start [OF e] show ?thesis by (simp add: pipeline_def pipe_toks_def)
  qed
  then show "pipeline k (TSpace # pipe_toks d e @ rest) = Some (d, e, rest)"
    by (simp add: pipeline_def)
qed

text \<open>A list of tokens that is read with any fuel above its length.\<close>

definition reads :: "tok list \<Rightarrow> node list \<times> list_end \<times> tok list \<Rightarrow> bool" where
  "reads ts res \<longleftrightarrow> (\<forall>k. length ts < k \<longrightarrow> item_list k ts = Some res)"

lemma readsI:
  assumes "\<And>k. length ts \<le> k \<Longrightarrow> item_list (Suc k) ts = Some res"
  shows "reads ts res"
  unfolding reads_def
proof (intro allI impI)
  fix k
  assume "length ts < k"
  then obtain j where "k = Suc j" "length ts \<le> j" by (cases k) simp_all
  with assms show "item_list k ts = Some res" by (simp only:)
qed

lemma readsD: "reads ts res \<Longrightarrow> length ts < k \<Longrightarrow> item_list k ts = Some res"
  by (simp add: reads_def)

lemma reads_ends:
  "reads [] ([], AtEOF, [])"
  "reads (end_toks @ rest) ([], AtEnd, rest)"
  "reads (TLeft # TIdent ''else'' # TRight # rest) ([], AtElse, rest)"
  "reads (TLeft # TIdent ''else'' # TSpace # TIdent ''if'' # rest) ([], AtElseIf, rest)"
  by (rule readsI; simp add: end_toks_def)+

fun is_if :: "node \<Rightarrow> bool" where
  "is_if (NIf e a b) = True"
| "is_if _ = False"

definition node_parses :: "node \<Rightarrow> bool" where
  "node_parses n \<longleftrightarrow>
     (\<forall>rest ns e r. reads rest (ns, e, r) \<longrightarrow> reads (node_toks n @ rest) (n # ns, e, r)) \<and>
     (is_if n \<longrightarrow> (\<forall>k rest. length (node_toks n @ rest) \<le> Suc k \<longrightarrow>
        if_control k (drop 2 (node_toks n) @ rest) = Some (n, rest)))"

lemma list_reads:
  assumes "\<forall>n \<in> set ns. node_parses n" and "reads rest (ns', e, r)"
  shows "reads (list_toks ns @ rest) (ns @ ns', e, r)"
  using assms(1) by (induction ns) (auto simp: node_parses_def assms(2))

lemma list_okD: "list_ok ns \<Longrightarrow> n \<in> set ns \<Longrightarrow> node_ok n"
  by (induction ns) auto

lemma pipe_first:
  assumes "pipe_ok d e"
  obtains t ts where "pipe_toks d e = t # ts" "t \<noteq> TSpace"
    "\<And>w. t = TIdent w \<Longrightarrow> w \<noteq> ''end'' \<and> w \<noteq> ''else'' \<and> w \<noteq> ''if'' \<and> w \<noteq> ''range''"
proof -
  have e: "expr_ok e" using assms by (simp add: pipe_ok_def)
  show ?thesis
  proof (cases "d = None \<and> (\<exists>f es. e = ECall f es)")
    case True
    then obtain f es where "e = ECall f es" by blast
    with True e that show ?thesis by (auto simp: pipe_toks_def command_toks_def)
  next
    case False
    from e obtain t ts where "operand_toks e = t # ts" "t \<noteq> TSpace" "\<And>w. t \<noteq> TIdent w" by (rule operand_first) blast
    with False that show ?thesis
      by (cases d; cases e) (auto simp: pipe_toks_def command_toks_def)
  qed
qed

lemma if_reads:
  assumes "pipe_ok None e" and "\<forall>n \<in> set a. node_parses n" and "\<forall>n \<in> set b. node_parses n"
    and "length (node_toks (NIf e a b) @ rest) \<le> Suc k"
  shows "if_control k (drop 2 (node_toks (NIf e a b)) @ rest) = Some (NIf e a b, rest)"
proof -
  let ?else = "else_toks b (list_toks b) @ rest"
  have toks: "drop 2 (node_toks (NIf e a b)) @ rest = TSpace # pipe_toks None e @ list_toks a @ ?else"
    by (simp add: list_toks_def)
  from assms(4) obtain j where k: "k = Suc j" "length (pipe_toks None e @ list_toks a @ ?else) \<le> j"
    by (cases k) (simp_all add: list_toks_def)
  have p: "pipeline j (TSpace # pipe_toks None e @ list_toks a @ ?else) = Some (None, e, list_toks a @ ?else)"
    using k(2) by (intro pipe_toks_parse assms(1)) simp
  from assms(1) obtain t ts where "pipe_toks None e = t # ts" by (rule pipe_first) blast
  then have len: "length (list_toks a @ ?else) < j" using k(2) by simp
  note steps = if_control.simps p option.case prod.case list_end.case
  consider (none) "b = []" | (one) e' a' c' where "b = [NIf e' a' c']" | (more) "b \<noteq> []" "\<not> single_if b"
    using single_ifE by metis
  then show ?thesis
  proof cases
    case none
    have "reads (list_toks a @ ?else) (a, AtEnd, rest)"
      using list_reads [OF assms(2) reads_ends(2)] by (simp add: none else_toks_def)
    from readsD [OF this len] show ?thesis
      unfolding toks k(1) by (simp only: steps) (simp add: none)
  next
    case one
    let ?n = "NIf e' a' c'"
    have t: "tl (node_toks ?n) = TIdent ''if'' # drop 2 (node_toks ?n)" by simp
    have el: "?else = TLeft # TIdent ''else'' # TSpace # TIdent ''if'' # drop 2 (node_toks ?n) @ rest"
      by (simp add: one else_toks_def t del: node_toks.simps)
    have "reads (list_toks a @ ?else) (a, AtElseIf, drop 2 (node_toks ?n) @ rest)"
      using list_reads [OF assms(2) reads_ends(4)] by (simp only: el append_Nil2)
    moreover have "if_control j (drop 2 (node_toks ?n) @ rest) = Some (?n, rest)"
      using assms(3) len by (auto simp: one node_parses_def else_toks_def)
    moreover note readsD [OF calculation(1) len]
    ultimately show ?thesis unfolding toks k(1) by (simp only: steps) (simp add: one)
  next
    case more
    have el: "?else = TLeft # TIdent ''else'' # TRight # list_toks b @ end_toks @ rest"
      using more by (simp add: else_toks_def)
    have "reads (list_toks a @ ?else) (a, AtElse, list_toks b @ end_toks @ rest)"
      using list_reads [OF assms(2) reads_ends(3)] by (simp only: el append_Nil2)
    moreover have "reads (list_toks b @ end_toks @ rest) (b, AtEnd, rest)"
      using list_reads [OF assms(3) reads_ends(2)] by simp
    moreover have "length (list_toks b @ end_toks @ rest) < j" using len by (simp add: el)
    ultimately have "item_list j (list_toks a @ ?else) = Some (a, AtElse, list_toks b @ end_toks @ rest)"
      "item_list j (list_toks b @ end_toks @ rest) = Some (b, AtEnd, rest)"
      using readsD len by blast+
    then show ?thesis unfolding toks k(1) by (simp only: steps)
  qed
qed

lemma node_ok_reads: "node_ok n \<Longrightarrow> node_parses n"
proof (induction n)
  case (NText s)
  have "item_list (Suc k) (TText s # rest) = Some (NText s # ns, en, r)"
    if "reads rest (ns, en, r)" "length (TText s # rest) \<le> k" for rest ns en r k
    using readsD [OF that(1), of k] that(2) by simp
  then show ?case by (auto simp: node_parses_def intro!: readsI)
next
  case (NAction d e)
  then have ok: "pipe_ok d e" by simp
  then obtain t ts where t: "pipe_toks d e = t # ts" "t \<noteq> TSpace"
    "\<And>w. t = TIdent w \<Longrightarrow> w \<noteq> ''end'' \<and> w \<noteq> ''else'' \<and> w \<noteq> ''if'' \<and> w \<noteq> ''range''" by (rule pipe_first) blast
  have "item_list (Suc k) (TLeft # pipe_toks d e @ rest) = Some (NAction d e # ns, en, r)"
    if "reads rest (ns, en, r)" "length (TLeft # pipe_toks d e @ rest) \<le> k" for rest ns en r k
  proof -
    have "pipeline k (pipe_toks d e @ rest) = Some (d, e, rest)"
      using that(2) by (intro pipe_toks_parse ok) simp
    moreover have "item_list k rest = Some (ns, en, r)" using that by (intro readsD) auto
    ultimately show ?thesis using t by (cases t) simp_all
  qed
  then show ?case by (auto simp: node_parses_def intro!: readsI)
next
  case (NIf e a b)
  then have ok: "pipe_ok None e" "\<forall>n \<in> set a. node_parses n" "\<forall>n \<in> set b. node_parses n"
    using list_okD by auto
  note ifc = if_reads [OF ok]
  have "item_list (Suc k) (node_toks (NIf e a b) @ rest) = Some (NIf e a b # ns, en, r)"
    if "reads rest (ns, en, r)" "length (node_toks (NIf e a b) @ rest) \<le> k" for rest ns en r k
  proof -
    have t: "node_toks (NIf e a b) @ rest = TLeft # TIdent ''if'' # drop 2 (node_toks (NIf e a b)) @ rest" by simp
    have "if_control k (drop 2 (node_toks (NIf e a b)) @ rest) = Some (NIf e a b, rest)"
      using that(2) by (intro ifc) simp
    moreover have "item_list k rest = Some (ns, en, r)" using that by (intro readsD) auto
    ultimately show ?thesis unfolding t by (simp del: node_toks.simps)
  qed
  with ifc show ?case by (auto simp: node_parses_def simp del: node_toks.simps intro!: readsI)
next
  case (NRange d e body)
  then have ok: "pipe_ok d e" "\<forall>n \<in> set body. node_parses n" using list_okD by auto
  have "item_list (Suc k) (node_toks (NRange d e body) @ rest) = Some (NRange d e body # ns, en, r)"
    if "reads rest (ns, en, r)" "length (node_toks (NRange d e body) @ rest) \<le> k" for rest ns en r k
  proof -
    let ?body = "list_toks body @ end_toks @ rest"
    have t: "node_toks (NRange d e body) @ rest = TLeft # TIdent ''range'' # TSpace # pipe_toks d e @ ?body"
      by (simp add: list_toks_def)
    have len: "length ?body < k" "length rest < k" "length (pipe_toks d e) \<le> k" using that(2) unfolding t by simp_all
    have "pipeline k (TSpace # pipe_toks d e @ ?body) = Some (d, e, ?body)"
      by (intro pipe_toks_parse ok(1) len(3))
    moreover have "item_list k ?body = Some (body, AtEnd, rest)"
      using readsD [OF list_reads [OF ok(2) reads_ends(2)] len(1)] by simp
    moreover have "item_list k rest = Some (ns, en, r)" using that(1) len(2) by (rule readsD)
    ultimately show ?thesis unfolding t by simp
  qed
  then show ?case by (auto simp: node_parses_def simp del: node_toks.simps intro!: readsI)
qed

theorem parse_nodes_text:
  assumes "list_ok ns" and "list_scoped [''$''] ns"
  shows "parse_template (nodes_text ns) = Some ns"
proof -
  have "lex_text [] (toks_text (list_toks ns)) = Some (list_toks ns)"
    using lex_toks(1) [OF text_ok_nodes [OF assms(1)], of "[]"]
    by (auto simp: text_tok_def split: list.splits tok.splits)
  moreover have "reads (list_toks ns) (ns, AtEOF, [])"
    using list_reads [of ns, OF _ reads_ends(1)] node_ok_reads list_okD [OF assms(1)] by simp
  ultimately show ?thesis
    using readsD [of "list_toks ns" _ "2 * length (list_toks ns) + 1"] assms(2)
    by (simp add: parse_template_def nodes_text_def)
qed

end
