(* ===== verification/Tmpltext.thy ===== *)
theory Tmpltext
  imports Render Gotmplprint
begin

text \<open>
  The two templates of \<open>pkg/lbm/tmpl.go\<close> as they stand in the source, the nodes that parsing them gives,
  the data they are filled with as reflection shows it, and the proof that executing them gives the
  texts of theory \<open>Tmpl\<close>, which the rest of the model writes to disk.  So neither the parse error nor
  the execution error of \<open>LBBase.Render\<close> can happen.
\<close>

section \<open>The texts\<close>

definition qt :: "string \<Rightarrow> string" where
  "qt s = dq @ s @ dq"

definition lvs_template :: string where
  "lvs_template =
     nl @
     ln 0 ''{{$prot := .Protocol}}'' @
     ln 0 ''{{$vip := .VIP}}'' @
     ln 0 ''{{$port := .Port}}'' @
     ln 0 ''{{$option := .Conf}}'' @
     ln 0 ''{{$monitor := .Monitor}}'' @
     ln 0 ''{{$common := .KConf}}'' @
     ln 0 ''{{$lname := .LAddrGroup}}'' @
     ln 0 ''virtual_server_group {{$vip}}:{{$port}} {'' @
     ln 1 ''{{$vip}} {{$port}}'' @
     ln 0 ''}'' @
     nl @
     ln 0 ''virtual_server group {{$vip}}:{{$port}} {'' @
     ln 1 ''delay_loop {{$monitor.Interval}}'' @
     ln 1 (''lb_algo {{if ne $option.Strategy '' @ qt [] @ ''}}{{$option.Strategy}}{{else}}rr{{end}}'') @
     ln 1 (''lb_kind {{if ne $option.Kind '' @ qt [] @ ''}}{{$option.Kind}}{{else}}FNAT{{end}}'') @
     ln 1 (''protocol {{if ne $prot '' @ qt ''UDP'' @ ''}}TCP{{else}}UDP{{end}}'') @
     ln 1 ''{{if $option.PersistenceTimeout}}persistence_timeout {{$option.PersistenceTimeout}}{{end}}'' @
     ln 1 ''{{if $option.SynProxy}}syn_proxy{{end}}'' @
     ln 1 ''{{if $option.BPSLimit}}bps_limit {{$option.BPSLimit}}{{end}}'' @
     ln 1 ''{{if $option.CPSLimit}}cps_limit {{$option.CPSLimit}}{{end}}'' @
     nl @
     ln 1 (''{{if ne $lname '' @ qt [] @ ''}}laddr_group_name {{$lname}}{{end}}'') @
     nl @
     ln 1 ''alpha'' @
     ln 1 ''omega'' @
     ln 1 ''quorum 1'' @
     ln 1 ''hysteresis 0'' @
     ln 1 (''quorum_up '' @ qt ''ip addr add {{$vip}}/32 dev lo'') @
     ln 1 (''quorum_down '' @ qt ''ip addr del {{$vip}}/32 dev lo'') @
     nl @
     ln 0 ''{{range $backend := .Servers}}'' @
     ln 1 ''real_server {{$backend.IP}} {{$backend.Port}} {'' @
     ln 2 ''weight {{$backend.Weight}}'' @
     ln 2 ''inhibit_on_failure'' @
     ln 2 (''{{if eq $monitor.Type '' @ qt ''MISC'' @ ''}}'') @
     ln 2 ''MISC_CHECK {'' @
     ln 3 (''misc_path '' @ qt ''{{$common.MiscScript}} {{$backend.IP}} {{$backend.Port}}'') @
     ln 3 ''misc_timeout {{$monitor.Timeout}}'' @
     ln 2 ''}'' @
     ln 2 (''{{else if eq $monitor.Type '' @ qt ''HTTP'' @ ''}}'') @
     ln 2 ''HTTP_GET {'' @
     ln 3 ''url {'' @
     ln 4 ''path {{$monitor.URLPath}}'' @
     ln 4 ''status_code {{$monitor.StatusCode}}'' @
     ln 3 ''}'' @
     ln 3 ''connect_timeout {{$monitor.Timeout}}'' @
     ln 3 ''nb_get_retry {{$monitor.MaxRetries}}'' @
     ln 3 ''delay_before_retry {$monitor.Delay}}'' @
     ln 2 ''}'' @
     ln 2 ''{{else}}'' @
     ln 2 ''TCP_CHECK {'' @
     ln 3 ''connect_timeout {{$monitor.Timeout}}'' @
     ln 3 ''retry {{$monitor.MaxRetries}}'' @
     ln 3 ''delay_before_retry {{$monitor.Delay}}'' @
     ln 2 ''}'' @
     ln 2 ''{{end}}'' @
     ln 1 ''}'' @
     ln 0 ''{{end}}'' @
     ln 0 ''}''"

definition nginx_template :: string where
  "nginx_template =
     nl @
     ln 0 ''{{$prot := .Protocol}}'' @
     ln 0 ''{{$monitor := .Monitor}}'' @
     ln 0 ''{{range $upstream := .Pools}}'' @
     ln 0 ''upstream {{$upstream.Name}} {'' @
     ln 1 (''{{if ne $upstream.Strategy '' @ qt ''round_robin'' @ ''}}{{$upstream.Strategy}}{{end}}'') @
     ln 1 (''{{if and $upstream.SessionStick.Enable (eq $prot '' @ qt ''HTTP'' @ '')}}'') @
     ln 1 ''{{$name := $upstream.SessionStick.Name}}'' @
     ln 1 (''sticky {{if ne $name '' @ qt [] @ ''}}name={{$name}}{{end}};'') @
     ln 1 ''{{end}}'' @
     ln 1 ''{{range $server := $upstream.Servers}}'' @
     ln 1 ''server {{$server.IP}}:{{$server.Port}} {{if $server.Weight}}weight={{$server.Weight}}{{end}} {{if $monitor.MaxRetries}}max_fails={{$monitor.MaxRetries}}{{end}} {{if $monitor.Timeout}}fail_timeout={{$monitor.Timeout}}{{end}};'' @
     ln 1 ''{{end}}'' @
     ln 0 ''}'' @
     ln 0 ''{{end}}'' @
     ln 0 ''{{$vip := .VIP}}'' @
     ln 0 ''{{$port := .Port}}'' @
     ln 0 ''{{$name := .Name}}'' @
     ln 0 ''{{$localtions := .Locations}}'' @
     ln 0 ''server {'' @
     ln 1 (''listen {{if ne $vip '' @ qt [] @ ''}}{{$vip}}:{{end}}{{$port}} {{if eq $prot '' @ qt ''UDP'' @ ''}}udp{{end}} reuseport;'') @
     nl @
     ln 1 (''{{if eq $prot '' @ qt ''HTTP'' @ ''}}'') @
     ln 1 ''access_log /var/log/nginx/{{$name}}-{{$port}}.log  main buffer=32k flush=5s;'' @
     ln 1 ''root /usr/share/nginx/html;'' @
     ln 1 ''{{range $location := $localtions}}'' @
     ln 1 ''location {{$location.URIPath}} {'' @
     ln 2 ''proxy_pass http://{{$location.PoolName}};'' @
     ln 2 ''proxy_set_header X-Real-IP $remote_addr;'' @
     ln 2 ''proxy_set_header X-Forwarded-For  $proxy_add_x_forwarded_for;'' @
     ln 2 ''proxy_set_header Host $http_host;'' @
     nl @
     ln 1 ''}'' @
     ln 1 ''{{end}}'' @
     ln 1 ''error_page 404 /404.html;'' @
     ln 2 ''location = /40x.html {'' @
     ln 1 ''}'' @
     nl @
     ln 1 ''error_page 500 502 503 504 /50x.html;'' @
     ln 2 ''location = /50x.html {'' @
     ln 1 ''}'' @
     ln 1 ''{{else}}'' @
     ln 1 ''{{range $location := $localtions}}'' @
     ln 1 ''proxy_pass {{$location.PoolName}};'' @
     ln 1 ''{{end}}'' @
     ln 1 ''{{end}}'' @
     ln 0 ''}''"

section \<open>The nodes\<close>

definition tabs :: "nat \<Rightarrow> string" where
  "tabs n = replicate n (CHR 9)"

definition real_server_nodes :: "node list" where
  "real_server_nodes =
     [NText (nl @ tabs 1 @ ''real_server ''),
      NAction None (EVar ''$backend'' [''IP'']),
      NText '' '',
      NAction None (EVar ''$backend'' [''Port'']),
      NText ('' {'' @ nl @ tabs 2 @ ''weight ''),
      NAction None (EVar ''$backend'' [''Weight'']),
      NText (nl @ tabs 2 @ ''inhibit_on_failure'' @ nl @ tabs 2),
      NIf (ECall ''eq'' [EVar ''$monitor'' [''Type''], EStr ''MISC''])
       [NText (nl @ tabs 2 @ ''MISC_CHECK {'' @ nl @ tabs 3 @ ''misc_path '' @ dq),
        NAction None (EVar ''$common'' [''MiscScript'']),
        NText '' '',
        NAction None (EVar ''$backend'' [''IP'']),
        NText '' '',
        NAction None (EVar ''$backend'' [''Port'']),
        NText (dq @ nl @ tabs 3 @ ''misc_timeout ''),
        NAction None (EVar ''$monitor'' [''Timeout'']),
        NText (nl @ tabs 2 @ ''}'' @ nl @ tabs 2)]
       [NIf (ECall ''eq'' [EVar ''$monitor'' [''Type''], EStr ''HTTP''])
         [NText (nl @ tabs 2 @ ''HTTP_GET {'' @ nl @ tabs 3 @ ''url {'' @ nl @ tabs 4 @ ''path ''),
          NAction None (EVar ''$monitor'' [''URLPath'']),
          NText (nl @ tabs 4 @ ''status_code ''),
          NAction None (EVar ''$monitor'' [''StatusCode'']),
          NText (nl @ tabs 3 @ ''}'' @ nl @ tabs 3 @ ''connect_timeout ''),
          NAction None (EVar ''$monitor'' [''Timeout'']),
          NText (nl @ tabs 3 @ ''nb_get_retry ''),
          NAction None (EVar ''$monitor'' [''MaxRetries'']),
          NText (nl @ tabs 3 @ ''delay_before_retry {$monitor.Delay}}'' @ nl @ tabs 2 @ ''}'' @ nl @ tabs 2)]
         [NText (nl @ tabs 2 @ ''TCP_CHECK {'' @ nl @ tabs 3 @ ''connect_timeout ''),
          NAction None (EVar ''$monitor'' [''Timeout'']),
          NText (nl @ tabs 3 @ ''retry ''),
          NAction None (EVar ''$monitor'' [''MaxRetries'']),
          NText (nl @ tabs 3 @ ''delay_before_retry ''),
          NAction None (EVar ''$monitor'' [''Delay'']),
          NText (nl @ tabs 2 @ ''}'' @ nl @ tabs 2)]],
      NText (nl @ tabs 1 @ ''}'' @ nl)]"

definition lvs_nodes :: "node list" where
  "lvs_nodes =
     [NText nl,
      NAction (Some ''$prot'') (EField [''Protocol'']),
      NText nl,
      NAction (Some ''$vip'') (EField [''VIP'']),
      NText nl,
      NAction (Some ''$port'') (EField [''Port'']),
      NText nl,
      NAction (Some ''$option'') (EField [''Conf'']),
      NText nl,
      NAction (Some ''$monitor'') (EField [''Monitor'']),
      NText nl,
      NAction (Some ''$common'') (EField [''KConf'']),
      NText nl,
      NAction (Some ''$lname'') (EField [''LAddrGroup'']),
      NText (nl @ ''virtual_server_group ''),
      NAction None (EVar ''$vip'' []),
      NText '':'',
      NAction None (EVar ''$port'' []),
      NText ('' {'' @ nl @ tabs 1),
      NAction None (EVar ''$vip'' []),
      NText '' '',
      NAction None (EVar ''$port'' []),
      NText (nl @ ''}'' @ nl @ nl @ ''virtual_server group ''),
      NAction None (EVar ''$vip'' []),
      NText '':'',
      NAction None (EVar ''$port'' []),
      NText ('' {'' @ nl @ tabs 1 @ ''delay_loop ''),
      NAction None (EVar ''$monitor'' [''Interval'']),
      NText (nl @ tabs 1 @ ''lb_algo ''),
      NIf (ECall ''ne'' [EVar ''$option'' [''Strategy''], EStr []])
            [NAction None (EVar ''$option'' [''Strategy''])] [NText ''rr''],
      NText (nl @ tabs 1 @ ''lb_kind ''),
      NIf (ECall ''ne'' [EVar ''$option'' [''Kind''], EStr []]) [NAction None (EVar ''$option'' [''Kind''])]
            [NText ''FNAT''],
      NText (nl @ tabs 1 @ ''protocol ''),
      NIf (ECall ''ne'' [EVar ''$prot'' [], EStr ''UDP'']) [NText ''TCP''] [NText ''UDP''],
      NText (nl @ tabs 1),
      NIf (EVar ''$option'' [''PersistenceTimeout''])
            [NText ''persistence_timeout '', NAction None (EVar ''$option'' [''PersistenceTimeout''])] [],
      NText (nl @ tabs 1),
      NIf (EVar ''$option'' [''SynProxy'']) [NText ''syn_proxy''] [],
      NText (nl @ tabs 1),
      NIf (EVar ''$option'' [''BPSLimit'']) [NText ''bps_limit '', NAction None (EVar ''$option'' [''BPSLimit''])] [],
      NText (nl @ tabs 1),
      NIf (EVar ''$option'' [''CPSLimit'']) [NText ''cps_limit '', NAction None (EVar ''$option'' [''CPSLimit''])] [],
      NText (nl @ nl @ tabs 1),
      NIf (ECall ''ne'' [EVar ''$lname'' [], EStr []])
            [NText ''laddr_group_name '', NAction None (EVar ''$lname'' [])] [],
      NText (nl @ nl @ tabs 1 @ ''alpha'' @ nl @ tabs 1 @ ''omega'' @ nl @ tabs 1 @ ''quorum 1'' @ nl @ tabs 1 @
            ''hysteresis 0'' @ nl @ tabs 1 @ ''quorum_up '' @ dq @ ''ip addr add ''),
      NAction None (EVar ''$vip'' []),
      NText (''/32 dev lo'' @ dq @ nl @ tabs 1 @ ''quorum_down '' @ dq @ ''ip addr del ''),
      NAction None (EVar ''$vip'' []),
      NText (''/32 dev lo'' @ dq @ nl @ nl),
      NRange (Some ''$backend'') (EField [''Servers'']) real_server_nodes,
      NText (nl @ ''}'' @ nl)]"

definition upstream_server_nodes :: "node list" where
  "upstream_server_nodes =
     [NText (nl @ tabs 1 @ ''server ''),
      NAction None (EVar ''$server'' [''IP'']),
      NText '':'',
      NAction None (EVar ''$server'' [''Port'']),
      NText '' '',
      NIf (EVar ''$server'' [''Weight'']) [NText ''weight='', NAction None (EVar ''$server'' [''Weight''])] [],
      NText '' '',
      NIf (EVar ''$monitor'' [''MaxRetries''])
            [NText ''max_fails='', NAction None (EVar ''$monitor'' [''MaxRetries''])] [],
      NText '' '',
      NIf (EVar ''$monitor'' [''Timeout''])
            [NText ''fail_timeout='', NAction None (EVar ''$monitor'' [''Timeout''])] [],
      NText ('';'' @ nl @ tabs 1)]"

definition upstream_nodes :: "node list" where
  "upstream_nodes =
     [NText (nl @ ''upstream ''),
      NAction None (EVar ''$upstream'' [''Name'']),
      NText ('' {'' @ nl @ tabs 1),
      NIf (ECall ''ne'' [EVar ''$upstream'' [''Strategy''], EStr ''round_robin''])
            [NAction None (EVar ''$upstream'' [''Strategy''])] [],
      NText (nl @ tabs 1),
      NIf (ECall ''and'' [EVar ''$upstream'' [''SessionStick'', ''Enable''], ECall ''eq'' [EVar ''$prot'' [], EStr ''HTTP'']])
       [NText (nl @ tabs 1),
        NAction (Some ''$name'') (EVar ''$upstream'' [''SessionStick'', ''Name'']),
        NText (nl @ tabs 1 @ ''sticky ''),
        NIf (ECall ''ne'' [EVar ''$name'' [], EStr []]) [NText ''name='', NAction None (EVar ''$name'' [])] [],
        NText ('';'' @ nl @ tabs 1)] [],
      NText (nl @ tabs 1),
      NRange (Some ''$server'') (EVar ''$upstream'' [''Servers'']) upstream_server_nodes,
      NText (nl @ ''}'' @ nl)]"

definition http_location_nodes :: "node list" where
  "http_location_nodes =
     [NText (nl @ tabs 1 @ ''location ''),
      NAction None (EVar ''$location'' [''URIPath'']),
      NText ('' {'' @ nl @ tabs 2 @ ''proxy_pass http://''),
      NAction None (EVar ''$location'' [''PoolName'']),
      NText ('';'' @ nl @ tabs 2 @ ''proxy_set_header X-Real-IP $remote_addr;'' @ nl @ tabs 2 @
            ''proxy_set_header X-Forwarded-For  $proxy_add_x_forwarded_for;'' @ nl @ tabs 2 @
            ''proxy_set_header Host $http_host;'' @ nl @ nl @ tabs 1 @ ''}'' @ nl @ tabs 1)]"

definition stream_location_nodes :: "node list" where
  "stream_location_nodes =
     [NText (nl @ tabs 1 @ ''proxy_pass ''),
      NAction None (EVar ''$location'' [''PoolName'']),
      NText ('';'' @ nl @ tabs 1)]"

definition nginx_nodes :: "node list" where
  "nginx_nodes =
     [NText nl,
      NAction (Some ''$prot'') (EField [''Protocol'']),
      NText nl,
      NAction (Some ''$monitor'') (EField [''Monitor'']),
      NText nl,
      NRange (Some ''$upstream'') (EField [''Pools'']) upstream_nodes,
      NText nl,
      NAction (Some ''$vip'') (EField [''VIP'']),
      NText nl,
      NAction (Some ''$port'') (EField [''Port'']),
      NText nl,
      NAction (Some ''$name'') (EField [''Name'']),
      NText nl,
      NAction (Some ''$localtions'') (EField [''Locations'']),
      NText (nl @ ''server {'' @ nl @ tabs 1 @ ''listen ''),
      NIf (ECall ''ne'' [EVar ''$vip'' [], EStr []]) [NAction None (EVar ''$vip'' []), NText '':''] [],
      NAction None (EVar ''$port'' []),
      NText '' '',
      NIf (ECall ''eq'' [EVar ''$prot'' [], EStr ''UDP'']) [NText ''udp''] [],
      NText ('' reuseport;'' @ nl @ nl @ tabs 1),
      NIf (ECall ''eq'' [EVar ''$prot'' [], EStr ''HTTP''])
       [NText (nl @ tabs 1 @ ''access_log /var/log/nginx/''),
        NAction None (EVar ''$name'' []),
        NText ''-'',
        NAction None (EVar ''$port'' []),
        NText (''.log  main buffer=32k flush=5s;'' @ nl @ tabs 1 @ ''root /usr/share/nginx/html;'' @ nl @ tabs 1),
        NRange (Some ''$location'') (EVar ''$localtions'' []) http_location_nodes,
        NText (nl @ tabs 1 @ ''error_page 404 /404.html;'' @ nl @ tabs 2 @ ''location = /40x.html {'' @ nl @
            tabs 1 @ ''}'' @ nl @ nl @ tabs 1 @ ''error_page 500 502 503 504 /50x.html;'' @ nl @ tabs 2 @
            ''location = /50x.html {'' @ nl @ tabs 1 @ ''}'' @ nl @ tabs 1)]
       [NText (nl @ tabs 1),
        NRange (Some ''$location'') (EVar ''$localtions'' []) stream_location_nodes,
        NText (nl @ tabs 1)],
      NText (nl @ ''}'' @ nl)]"

section \<open>Reflection\<close>

text \<open>The fields of the structs, in their order, with the names of the Go source.\<close>

definition fld :: "string \<Rightarrow> gval \<Rightarrow> string \<times> bool \<times> gval" where
  "fld n v = (n, False, v)"

definition emb :: "string \<Rightarrow> gval \<Rightarrow> string \<times> bool \<times> gval" where
  "emb n v = (n, True, v)"

definition backend_value :: "backend \<Rightarrow> gval" where
  "backend_value b =
     GStruct [fld ''IP'' (GStr (be_ip b)), fld ''Port'' (GInt (be_port b)), fld ''Weight'' (GInt (be_weight b))]"

definition health_value :: "health_check \<Rightarrow> gval" where
  "health_value h =
     GStruct [fld ''Type'' (GStr (hc_type h)), fld ''URLPath'' (GStr (hc_url_path h)),
       fld ''StatusCode'' (GInt (hc_status_code h)), fld ''Interval'' (GInt (hc_interval h)),
       fld ''Rise'' (GInt (hc_rise h)), fld ''Timeout'' (GInt (hc_timeout h)),
       fld ''MaxRetries'' (GInt (hc_max_retries h)), fld ''Delay'' (GInt (hc_delay h)),
       fld ''Enable'' (GBool (hc_enable h))]"

definition status_value :: "lb_status \<Rightarrow> gval" where
  "status_value s =
     GStruct [fld ''Status'' (GStr (ls_status s)), fld ''Msg'' (GStr (ls_msg s)), fld ''IP'' (GStr (ls_ip s)),
       fld ''HostName'' (GStr (ls_host_name s))]"

definition common_value :: "lb_common \<Rightarrow> gval" where
  "common_value c =
     GStruct [fld ''ID'' (GStr (lb_id c)), fld ''Name'' (GStr (lb_name c)), fld ''Type'' (GStr (lb_kind c)),
       fld ''ClusterName'' (GStr (lb_cluster c)), fld ''Protocol'' (GStr (lb_protocol c)),
       fld ''Status'' (status_value (lb_result c))]"

definition conf_value :: "lvs_conf \<Rightarrow> gval" where
  "conf_value c =
     GStruct [fld ''Strategy'' (GStr (lv_strategy c)), fld ''PersistenceTimeout'' (GUint (lv_persistence_timeout c)),
       fld ''SynProxy'' (GBool (lv_syn_proxy c)), fld ''Kind'' (GStr (lv_kind c)),
       fld ''BPSLimit'' (GUint (lv_bps_limit c)), fld ''CPSLimit'' (GUint (lv_cps_limit c))]"

definition lvs_svc_value :: "lvs \<Rightarrow> gval" where
  "lvs_svc_value l =
     GStruct [emb ''LBCommon'' (common_value (lvs_common l)), fld ''VIP'' (GStr (lvs_vip l)),
       fld ''Port'' (GInt (lvs_port l)), fld ''Conf'' (conf_value (lvs_conf l)),
       fld ''Monitor'' (health_value (lvs_monitor l)), fld ''Servers'' (GList (map backend_value (lvs_servers l)))]"

definition keepalived_value :: "keepalived_conf \<Rightarrow> gval" where
  "keepalived_value k =
     GStruct [fld ''ConfDir'' (GStr (kc_conf_dir k)), fld ''ReloadTime'' (GInt (kc_reload_time k)),
       fld ''MiscScript'' (GStr (kc_misc_script k))]"

definition lvs_value :: "lvs_inner \<Rightarrow> gval" where
  "lvs_value x =
     GStruct [emb ''LVS'' (lvs_svc_value (in_lvs x)), fld ''LAddrGroup'' (GStr (in_laddr_group x)),
       fld ''KConf'' (keepalived_value (in_kconf x))]"

definition session_value :: "session_persistence \<Rightarrow> gval" where
  "session_value s =
     GStruct [fld ''Name'' (GStr (sp_name s)), fld ''Domain'' (GStr (sp_domain s)), fld ''Path'' (GStr (sp_path s)),
       fld ''Expires'' (GInt (sp_expires s)), fld ''Enable'' (GBool (sp_enable s))]"

definition pool_value :: "pool \<Rightarrow> gval" where
  "pool_value p =
     GStruct [fld ''Name'' (GStr (po_name p)), fld ''Strategy'' (GStr (po_strategy p)),
       fld ''SessionStick'' (session_value (po_session p)),
       fld ''Servers'' (GList (map backend_value (po_servers p)))]"

definition location_value :: "location \<Rightarrow> gval" where
  "location_value l = GStruct [fld ''URIPath'' (GStr (loc_uri_path l)), fld ''PoolName'' (GStr (loc_pool_name l))]"

definition rule_value :: "l7_rule \<Rightarrow> gval" where
  "rule_value r =
     GStruct [fld ''Type'' (GStr (lr_type r)), fld ''CompareType'' (GStr (lr_compare_type r)),
       fld ''Key'' (GStr (lr_key r)), fld ''Value'' (GStr (lr_value r)), fld ''Invert'' (GBool (lr_invert r))]"

definition policy_value :: "l7_policy \<Rightarrow> gval" where
  "policy_value p =
     GStruct [fld ''Name'' (GStr (lp_name p)), fld ''Action'' (GStr (lp_action p)),
       fld ''RedirectPool'' (GStr (lp_redirect_pool p)), fld ''RedirectURL'' (GStr (lp_redirect_url p)),
       fld ''Rules'' (GList (map rule_value (lp_rules p)))]"

definition nginx_value :: "nginx \<Rightarrow> gval" where
  "nginx_value n =
     GStruct [emb ''LBCommon'' (common_value (ng_common n)), fld ''VIP'' (GStr (ng_vip n)),
       fld ''Port'' (GInt (ng_port n)), fld ''Monitor'' (health_value (ng_monitor n)),
       fld ''Pools'' (GList (map pool_value (ng_pools n))),
       fld ''Locations'' (GList (map location_value (ng_locations n))),
       fld ''Policy'' (GList (map policy_value (ng_policy n)))]"

text \<open>\<open>LBBase.Render\<close> with its template engine: the parse, the execution into the buffer, and then the
  file.\<close>

definition run_template :: "string \<Rightarrow> gval \<Rightarrow> string option" where
  "run_template t v = (case parse_template t of None \<Rightarrow> None | Some ns \<Rightarrow> execute_template ns v)"

definition render_service :: "os \<Rightarrow> string \<Rightarrow> string \<Rightarrow> gval \<Rightarrow> bool \<times> os" where
  "render_service w svc_path temp_def obj =
     (case parse_template temp_def of
        None \<Rightarrow> (False, w)
      | Some tmpl \<Rightarrow>
          (case execute_template tmpl obj of
             None \<Rightarrow> (False, w)
           | Some content \<Rightarrow> lb_render w svc_path content))"

section \<open>Parsing\<close>

lemmas node_defs = lvs_nodes_def real_server_nodes_def nginx_nodes_def upstream_nodes_def
  upstream_server_nodes_def http_location_nodes_def stream_location_nodes_def

text \<open>The texts are those of the nodes: both sides come out as one list of characters.\<close>

lemmas line_unfold = ln_def nl_def qt_def dq_def tabs_def

lemma replicate_literal: "replicate 0 c = []" "replicate 1 c = [c]" "replicate 2 c = [c, c]" "replicate 3 c = [c, c, c]"
  "replicate 4 c = [c, c, c, c]"
  by (simp_all add: eval_nat_numeral)

lemmas text_unfold = list_toks_def list.map concat.simps node_toks.simps pipe_toks_def option.case command_toks_def
  expr.case operand_toks.simps args_toks_def else_toks_def single_if.simps end_toks_def if_True if_False simp_thms
  list.distinct list.sel append_Cons append_Nil append_assoc append_Nil2 toks_text_simps tok_text.simps

lemma lvs_template_text: "lvs_template = nodes_text lvs_nodes"
  unfolding lvs_template_def nodes_text_def node_defs line_unfold replicate_literal
  by (simp only: text_unfold)

lemma nginx_template_text: "nginx_template = nodes_text nginx_nodes"
  unfolding nginx_template_def nodes_text_def node_defs line_unfold replicate_literal
  by (simp only: text_unfold)

lemma lvs_nodes_ok: "list_ok lvs_nodes"
  unfolding node_defs line_unfold replicate_literal
  by (simp add: pipe_ok_def var_ok_def word_ok_def quotable_def alpha_num_def)

lemma nginx_nodes_ok: "list_ok nginx_nodes"
  unfolding node_defs line_unfold replicate_literal
  by (simp add: pipe_ok_def var_ok_def word_ok_def quotable_def alpha_num_def)

lemma nodes_scoped: "list_scoped [''$''] lvs_nodes" "list_scoped [''$''] nginx_nodes"
  unfolding node_defs by (simp_all add: decl_var_def)

lemma parse_lvs_template: "parse_template lvs_template = Some lvs_nodes"
  unfolding lvs_template_text by (rule parse_nodes_text [OF lvs_nodes_ok nodes_scoped(1)])

lemma parse_nginx_template: "parse_template nginx_template = Some nginx_nodes"
  unfolding nginx_template_text by (rule parse_nodes_text [OF nginx_nodes_ok nodes_scoped(2)])

section \<open>Executing\<close>

named_theorems value_fields \<open>what a name selects in the data\<close>

lemma gfield_own: "own_fields f v = [x] \<Longrightarrow> gfield v f = Some x"
  by (simp add: gfield_def find_level.simps [of f "[v]"])

lemma backend_fields [value_fields]:
  "gfield (backend_value b) ''IP'' = Some (GStr (be_ip b))"
  "gfield (backend_value b) ''Port'' = Some (GInt (be_port b))"
  "gfield (backend_value b) ''Weight'' = Some (GInt (be_weight b))"
  by (rule gfield_own; simp add: backend_value_def fld_def)+

lemma health_fields [value_fields]:
  "gfield (health_value h) ''Type'' = Some (GStr (hc_type h))"
  "gfield (health_value h) ''URLPath'' = Some (GStr (hc_url_path h))"
  "gfield (health_value h) ''StatusCode'' = Some (GInt (hc_status_code h))"
  "gfield (health_value h) ''Interval'' = Some (GInt (hc_interval h))"
  "gfield (health_value h) ''Timeout'' = Some (GInt (hc_timeout h))"
  "gfield (health_value h) ''MaxRetries'' = Some (GInt (hc_max_retries h))"
  "gfield (health_value h) ''Delay'' = Some (GInt (hc_delay h))"
  by (rule gfield_own; simp add: health_value_def fld_def)+

lemma conf_fields [value_fields]:
  "gfield (conf_value c) ''Strategy'' = Some (GStr (lv_strategy c))"
  "gfield (conf_value c) ''PersistenceTimeout'' = Some (GUint (lv_persistence_timeout c))"
  "gfield (conf_value c) ''SynProxy'' = Some (GBool (lv_syn_proxy c))"
  "gfield (conf_value c) ''Kind'' = Some (GStr (lv_kind c))"
  "gfield (conf_value c) ''BPSLimit'' = Some (GUint (lv_bps_limit c))"
  "gfield (conf_value c) ''CPSLimit'' = Some (GUint (lv_cps_limit c))"
  by (rule gfield_own; simp add: conf_value_def fld_def)+

lemma keepalived_fields [value_fields]:
  "gfield (keepalived_value k) ''MiscScript'' = Some (GStr (kc_misc_script k))"
  by (rule gfield_own; simp add: keepalived_value_def fld_def)

lemma session_fields [value_fields]:
  "gfield (session_value s) ''Name'' = Some (GStr (sp_name s))"
  "gfield (session_value s) ''Enable'' = Some (GBool (sp_enable s))"
  by (rule gfield_own; simp add: session_value_def fld_def)+

lemma pool_fields [value_fields]:
  "gfield (pool_value p) ''Name'' = Some (GStr (po_name p))"
  "gfield (pool_value p) ''Strategy'' = Some (GStr (po_strategy p))"
  "gfield (pool_value p) ''SessionStick'' = Some (session_value (po_session p))"
  "gfield (pool_value p) ''Servers'' = Some (GList (map backend_value (po_servers p)))"
  by (rule gfield_own; simp add: pool_value_def fld_def)+

lemma location_fields [value_fields]:
  "gfield (location_value l) ''URIPath'' = Some (GStr (loc_uri_path l))"
  "gfield (location_value l) ''PoolName'' = Some (GStr (loc_pool_name l))"
  by (rule gfield_own; simp add: location_value_def fld_def)+

text \<open>Promoted fields: two levels down for \<open>LVSInner\<close>.\<close>

lemma lvs_value_fields [value_fields]:
  "gfield (lvs_value x) ''LAddrGroup'' = Some (GStr (in_laddr_group x))"
  "gfield (lvs_value x) ''KConf'' = Some (keepalived_value (in_kconf x))"
  "gfield (lvs_value x) ''VIP'' = Some (GStr (lvs_vip (in_lvs x)))"
  "gfield (lvs_value x) ''Port'' = Some (GInt (lvs_port (in_lvs x)))"
  "gfield (lvs_value x) ''Conf'' = Some (conf_value (lvs_conf (in_lvs x)))"
  "gfield (lvs_value x) ''Monitor'' = Some (health_value (lvs_monitor (in_lvs x)))"
  "gfield (lvs_value x) ''Servers'' = Some (GList (map backend_value (lvs_servers (in_lvs x))))"
  "gfield (lvs_value x) ''Protocol'' = Some (GStr (lb_protocol (lvs_common (in_lvs x))))"
  by (simp_all add: gfield_def find_level.simps lvs_value_def lvs_svc_value_def common_value_def fld_def emb_def)

lemma nginx_value_fields [value_fields]:
  "gfield (nginx_value n) ''VIP'' = Some (GStr (ng_vip n))"
  "gfield (nginx_value n) ''Port'' = Some (GInt (ng_port n))"
  "gfield (nginx_value n) ''Monitor'' = Some (health_value (ng_monitor n))"
  "gfield (nginx_value n) ''Pools'' = Some (GList (map pool_value (ng_pools n)))"
  "gfield (nginx_value n) ''Locations'' = Some (GList (map location_value (ng_locations n)))"
  "gfield (nginx_value n) ''Protocol'' = Some (GStr (lb_protocol (ng_common n)))"
  "gfield (nginx_value n) ''Name'' = Some (GStr (lb_name (ng_common n)))"
  by (simp_all add: gfield_def find_level.simps nginx_value_def common_value_def fld_def emb_def)

text \<open>The bodies of the loops, one element at a time.\<close>

lemmas exec_simps = value_fields gcall_def opt_text_def itoa_uint_def line_unfold replicate_literal

lemma walk_real_server:
  assumes "map_of env ''$monitor'' = Some (health_value (lvs_monitor (in_lvs x)))"
    and "map_of env ''$common'' = Some (keepalived_value (in_kconf x))"
  shows "walk_list ((''$backend'', backend_value b) # env) (backend_value b) real_server_nodes =
    Some (lvs_server_tmpl x b)"
  using assms
  by (simp add: real_server_nodes_def exec_simps lvs_server_tmpl_def lvs_check_tmpl_def Let_def)

lemma walk_upstream_server:
  assumes "map_of env ''$monitor'' = Some (health_value m)"
  shows "walk_list ((''$server'', backend_value b) # env) (backend_value b) upstream_server_nodes =
    Some (upstream_server_tmpl m b)"
  using assms by (simp add: upstream_server_nodes_def exec_simps upstream_server_tmpl_def)

lemma walk_upstream:
  assumes "map_of env ''$monitor'' = Some (health_value m)" and "map_of env ''$prot'' = Some (GStr prot)"
  shows "walk_list ((''$upstream'', pool_value p) # env) (pool_value p) upstream_nodes =
    Some (upstream_tmpl prot m p)"
proof -
  have "each_text (\<lambda>v. walk_list ((''$server'', v) # (''$upstream'', pool_value p) # env) v upstream_server_nodes)
      (map backend_value (po_servers p)) = Some (concat (map (upstream_server_tmpl m) (po_servers p)))"
    using assms(1) by (intro each_text_map walk_upstream_server) simp
  with assms show ?thesis
    by (simp add: upstream_nodes_def exec_simps decl_var_def upstream_tmpl_def)
qed

lemma walk_http_location:
  "walk_list ((''$location'', location_value l) # env) (location_value l) http_location_nodes =
    Some (http_location_tmpl l)"
  by (simp add: http_location_nodes_def exec_simps http_location_tmpl_def)

lemma walk_stream_location:
  "walk_list ((''$location'', location_value l) # env) (location_value l) stream_location_nodes =
    Some (stream_location_tmpl l)"
  by (simp add: stream_location_nodes_def exec_simps stream_location_tmpl_def)

lemma walk_if:
  "eval_expr env dot e = Some v \<Longrightarrow> walk_list env dot ns = Some s \<Longrightarrow> walk_list env dot ns' = Some t \<Longrightarrow>
     walk env dot (NIf e ns ns') = Some (env, if gtruth v then s else t)"
  by simp

text \<open>The pieces of text stay whole here, so that the two sides agree piece by piece.\<close>

lemmas whole_simps = value_fields gcall_def opt_text_def itoa_uint_def walk_if

lemma decl_append: "decl_var (Some v) x @ env = (v, x) # env"
  by (simp add: decl_var_def)

lemma ln_tabs: "ln 0 s = s @ nl" "ln (Suc k) s = tabs (Suc k) @ s @ nl"
  by (simp_all add: ln_def tabs_def)

lemma execute_lvs: "execute_template lvs_nodes (lvs_value x) = Some (lvs_tmpl x)"
proof -
  have servers: "each_text (\<lambda>v. walk_list ((''$backend'', v) # env) v real_server_nodes)
      (map backend_value (lvs_servers (in_lvs x))) = Some (concat (map (lvs_server_tmpl x) (lvs_servers (in_lvs x))))"
    if "map_of env ''$monitor'' = Some (health_value (lvs_monitor (in_lvs x)))"
      "map_of env ''$common'' = Some (keepalived_value (in_kconf x))" for env
    using that by (intro each_text_map walk_real_server)
  show ?thesis
    by (simp add: execute_template_def lvs_nodes_def whole_simps decl_append servers lvs_tmpl_def Let_def eval_nat_numeral
        ln_tabs del: walk.simps(3) append_Cons)
qed

lemma execute_nginx: "execute_template nginx_nodes (nginx_value n) = Some (nginx_tmpl n)"
proof -
  have pools: "each_text (\<lambda>v. walk_list ((''$upstream'', v) # env) v upstream_nodes)
      (map pool_value (ng_pools n)) =
      Some (concat (map (upstream_tmpl (lb_protocol (ng_common n)) (ng_monitor n)) (ng_pools n)))"
    if "map_of env ''$monitor'' = Some (health_value (ng_monitor n))"
      "map_of env ''$prot'' = Some (GStr (lb_protocol (ng_common n)))" for env
    using that by (intro each_text_map walk_upstream)
  have http: "each_text (\<lambda>v. walk_list ((''$location'', v) # env) v http_location_nodes)
      (map location_value (ng_locations n)) = Some (concat (map http_location_tmpl (ng_locations n)))" for env
    by (intro each_text_map walk_http_location)
  have stream: "each_text (\<lambda>v. walk_list ((''$location'', v) # env) v stream_location_nodes)
      (map location_value (ng_locations n)) = Some (concat (map stream_location_tmpl (ng_locations n)))" for env
    by (intro each_text_map walk_stream_location)
  show ?thesis
    by (simp add: execute_template_def nginx_nodes_def whole_simps decl_append pools http stream nginx_tmpl_def Let_def
        eval_nat_numeral ln_tabs del: walk.simps(3) append_Cons) (simp add: tabs_def)
qed

lemma run_lvs_template: "run_template lvs_template (lvs_value x) = Some (lvs_tmpl x)"
  by (simp add: run_template_def parse_lvs_template execute_lvs)

lemma run_nginx_template: "run_template nginx_template (nginx_value n) = Some (nginx_tmpl n)"
  by (simp add: run_template_def parse_nginx_template execute_nginx)

lemma render_service_eq:
  "run_template t v = Some c \<Longrightarrow> render_service w p t v = lb_render w p c"
  by (auto simp: run_template_def render_service_def split: option.splits)

text \<open>rendering an LVS service as the code does it, parsing the template of \<open>tmpl.go\<close> and executing
  it on the service, is writing the text \<open>C13: lvs_tmpl\<close>: the template always parses, every field it names
  is there, no comparison in it mixes kinds, and so \<open>Render\<close> fails on files only.\<close>

theorem lvs_render_template:
  "run_template lvs_template (lvs_value x) = Some (lvs_tmpl x) \<and>
   render_service w p lvs_template (lvs_value x) = lb_render w p (lvs_tmpl x)"
  using run_lvs_template render_service_eq by blast

text \<open>rendering an nginx service, parsing the nginx template of \<open>tmpl.go\<close> and executing it, is writing the
  text \<open>C14: nginx_tmpl\<close>: no service makes the template engine fail, and so \<open>Render\<close> fails on files only.\<close>

theorem nginx_render_template:
  "run_template nginx_template (nginx_value n) = Some (nginx_tmpl n) \<and>
   render_service w p nginx_template (nginx_value n) = lb_render w p (nginx_tmpl n)"
  using run_nginx_template render_service_eq by blast

end
