(* ===== verification/Keepalived.thy ===== *)
theory Keepalived
  imports Conf "HOL-Library.Word"
begin

text \<open>
  \<open>pkg/keepalived/keepalived.go\<close>: the flag \<open>toReload\<close>, which \<open>Reload\<close> sets under the lock, and the
  goroutine that polls it, signals the daemon and sleeps.  One turn of its loop is one function; the
  goroutine, the callers of \<open>Reload\<close> and the rest of the system interleave as steps.
\<close>

section \<open>keepalived.go\<close>

definition ka_pid_file :: string where
  "ka_pid_file = ''/var/run/keepalived.pid''"

definition ka_cmd :: string where
  "ka_cmd = ''/usr/sbin/keepalived''"

definition ka_service :: string where
  "ka_service = ''keepalived''"

text \<open>\<open>Start\<close>: \<open>None\<close> is the fatal exit, otherwise the goroutine is started in the system returned.\<close>

definition ka_start :: "os \<Rightarrow> os option" where
  "ka_start w =
     (if check_thread_exist w ka_pid_file ka_cmd then Some w
      else case shell_out w (''systemctl start '' @ ka_service) of
             (Some e, w') \<Rightarrow> None
           | (None, w') \<Rightarrow> Some w')"

definition hup_command :: "string \<Rightarrow> string" where
  "hup_command pid = ''/bin/kill -HUP '' @ pid"

definition ka_reload :: "os \<Rightarrow> string \<Rightarrow> os_error option \<times> os" where
  "ka_reload w cmd =
     (case get_pid w ka_pid_file cmd of
        Inl e \<Rightarrow> (Some e, w)
      | Inr pid \<Rightarrow> shell_out w (hup_command pid))"

text \<open>A \<open>time.Duration\<close> is an \<open>int64\<close> of nanoseconds; a sleep that is not positive returns at once.\<close>

definition sleep_ns :: "int \<Rightarrow> int" where
  "sleep_ns seconds = max 0 (sint (word_of_int (seconds * 1000000000) :: 64 word))"

text \<open>The lock makes one turn of the loop, up to its sleep, atomic: the new flag and system, whether
  the daemon was signalled, and how long the goroutine sleeps.\<close>

definition ka_turn :: "keepalived_conf \<Rightarrow> bool \<Rightarrow> os \<Rightarrow> bool \<times> os \<times> bool \<times> int" where
  "ka_turn k flag w =
     (if flag then
        (case ka_reload w ka_cmd of
           (None, w') \<Rightarrow> (False, w', True, sleep_ns (kc_reload_time k))
         | (Some e, w') \<Rightarrow> (True, w', False, sleep_ns (kc_reload_time k)))
      else (False, w, False, sleep_ns 1))"

section \<open>Steps\<close>

text \<open>\<open>ka_wake\<close> is the earliest time of the goroutine's next turn, \<open>ka_signals\<close> the times of the
  signals, latest first.\<close>

record ka_state =
  ka_flag :: bool
  ka_os :: os
  ka_wake :: int
  ka_signals :: "int list"

datatype ka_event = Asked | Turn (turn_signals: bool) | Elsewhere

inductive ka_step :: "keepalived_conf \<Rightarrow> ka_state \<Rightarrow> ka_event \<Rightarrow> ka_state \<Rightarrow> bool" for k where
  asked: "ka_step k s Asked (s\<lparr>ka_flag := True\<rparr>)"
| turn: "ka_wake s \<le> t \<Longrightarrow> ka_turn k (ka_flag s) (ka_os s) = (f, w, sig, d) \<Longrightarrow>
    ka_step k s (Turn sig) (s\<lparr>ka_flag := f, ka_os := w, ka_wake := t + d,
      ka_signals := (if sig then t # ka_signals s else ka_signals s)\<rparr>)"
| elsewhere: "ka_step k s Elsewhere (s\<lparr>ka_os := w\<rparr>)"

inductive_cases ka_asked_cases: "ka_step k s Asked s'"
inductive_cases ka_turn_cases: "ka_step k s (Turn sig) s'"
inductive_cases ka_elsewhere_cases: "ka_step k s Elsewhere s'"
inductive_simps ka_asked_simp: "ka_step k s Asked s'"

inductive ka_run :: "keepalived_conf \<Rightarrow> ka_state \<Rightarrow> ka_event list \<Rightarrow> ka_state \<Rightarrow> bool" for k where
  ka_nil: "ka_run k s [] s"
| ka_snoc: "ka_run k s evs s' \<Longrightarrow> ka_step k s' e s'' \<Longrightarrow> ka_run k s (evs @ [e]) s''"

definition ka_initial :: "os \<Rightarrow> ka_state" where
  "ka_initial w = \<lparr>ka_flag = False, ka_os = w, ka_wake = 0, ka_signals = []\<rparr>"

text \<open>A request is pending in a history when no signal follows it.\<close>

fun pending_after :: "bool \<Rightarrow> ka_event list \<Rightarrow> bool" where
  "pending_after p [] = p"
| "pending_after p (Asked # es) = pending_after True es"
| "pending_after p (Turn sig # es) = pending_after (p \<and> \<not> sig) es"
| "pending_after p (Elsewhere # es) = pending_after p es"

lemma pending_after_snoc:
  "pending_after p (es @ [e]) =
     (case e of Asked \<Rightarrow> True | Turn sig \<Rightarrow> pending_after p es \<and> \<not> sig | Elsewhere \<Rightarrow> pending_after p es)"
  by (induction p es rule: pending_after.induct) (auto split: ka_event.split)

lemma pending_after_asked:
  "pending_after p (xs @ Asked # ys) = pending_after True ys"
  by (induction p xs rule: pending_after.induct) auto

lemma pending_no_signal: "\<forall>e \<in> set es. e \<noteq> Turn True \<Longrightarrow> pending_after True es"
proof (induction es)
  case Nil
  then show ?case by simp
next
  case (Cons e es)
  then show ?case by (cases e) auto
qed

lemma ka_turn_flag:
  "ka_turn k flag w = (f, w', sig, d) \<Longrightarrow> f = (flag \<and> \<not> sig) \<and> (sig \<longrightarrow> flag)"
  by (auto simp: ka_turn_def split: if_splits prod.splits option.splits)

lemma ka_step_flag:
  assumes "ka_step k s e s'" and "ka_flag s = pending_after False es"
  shows "ka_flag s' = pending_after False (es @ [e])"
  using assms by cases (auto simp: pending_after_snoc dest: ka_turn_flag)

lemma ka_run_flag: "ka_run k s es s' \<Longrightarrow> s = ka_initial w \<Longrightarrow> ka_flag s' = pending_after False es"
proof (induction rule: ka_run.induct)
  case (ka_nil s)
  then show ?case by (simp add: ka_initial_def)
next
  case (ka_snoc s evs s' e s'')
  then show ?case using ka_step_flag by blast
qed

text \<open>C29: no request is lost: in every interleaving of callers, the goroutine and the rest of the system,
  a call of \<open>Reload\<close> is followed by a signal that reached the daemon, or the flag is still set.\<close>

theorem ka_no_lost_reload:
  assumes "ka_run k (ka_initial w) (xs @ Asked # ys) s"
  shows "Turn True \<in> set ys \<or> ka_flag s"
  using ka_run_flag [OF assms] pending_no_signal [of ys] by (auto simp: pending_after_asked)

text \<open>A daemon that runs is signalled by the next turn after a request.\<close>

lemma get_pid_alive:
  assumes "check_thread_exist w f c"
  obtains pid where "get_pid w f c = Inr pid" and "pid \<noteq> []"
  using assms by (auto simp: check_thread_exist_def split: sum.splits)

definition hup_works :: "os \<Rightarrow> bool" where
  "hup_works w \<longleftrightarrow> check_thread_exist w ka_pid_file ka_cmd \<and>
     (\<forall>pid. os_shell w (os_ran w) (hup_command pid) = Exit 0)"

text \<open>when the daemon runs and takes the signal, the next turn after a request signals it, once, and
  takes the request back; without a request a turn does nothing.\<close>

theorem ka_turn_signals:
  assumes "hup_works w"
  shows "\<exists>pid d. ka_turn k True w = (False, w\<lparr>os_ran := os_ran w @ [''/bin/kill -HUP '' @ pid]\<rparr>, True, d) \<and>
      get_pid w ka_pid_file ka_cmd = Inr pid \<and> ka_turn k False w = (False, w, False, sleep_ns 1)"
proof -
  from assms obtain pid where "get_pid w ka_pid_file ka_cmd = Inr pid"
    and "os_shell w (os_ran w) (hup_command pid) = Exit 0"
    by (auto simp: hup_works_def elim: get_pid_alive)
  then show ?thesis
    by (auto simp: ka_turn_def ka_reload_def shell_out_def hup_command_def)
qed

section \<open>The rate of the signals\<close>

lemma sleep_ns_plain:
  assumes "0 \<le> n" and "n \<le> 9223372036"
  shows "sleep_ns n = n * 1000000000"
proof -
  have "sint (word_of_int (n * 1000000000) :: 64 word) = n * 1000000000"
    unfolding sint_sbintrunc' using assms by (simp add: signed_take_bit_int_eq_self)
  with assms(1) show ?thesis unfolding sleep_ns_def by simp
qed

definition spaced :: "int \<Rightarrow> int list \<Rightarrow> bool" where
  "spaced d ts \<longleftrightarrow> sorted_wrt (\<lambda>a b. b + d \<le> a) ts"

definition ka_timed :: "int \<Rightarrow> ka_state \<Rightarrow> bool" where
  "ka_timed d s \<longleftrightarrow> spaced d (ka_signals s) \<and> (\<forall>t \<in> set (ka_signals s). t + d \<le> ka_wake s)"

lemma ka_turn_sleep:
  "ka_turn k flag w = (f, w', sig, d) \<Longrightarrow> 0 \<le> d \<and> (sig \<longrightarrow> d = sleep_ns (kc_reload_time k))"
  by (auto simp: ka_turn_def sleep_ns_def split: if_splits prod.splits option.splits)

lemma ka_step_timed:
  assumes "ka_step k s e s'" and "ka_timed (sleep_ns (kc_reload_time k)) s"
  shows "ka_timed (sleep_ns (kc_reload_time k)) s'"
  using assms by cases (auto simp: ka_timed_def spaced_def dest!: ka_turn_sleep)

lemma ka_run_timed:
  "ka_run k s es s' \<Longrightarrow> s = ka_initial w \<Longrightarrow> ka_timed (sleep_ns (kc_reload_time k)) s'"
proof (induction rule: ka_run.induct)
  case (ka_nil s)
  then show ?case by (simp add: ka_initial_def ka_timed_def spaced_def)
next
  case (ka_snoc s evs s' e s'')
  then show ?case using ka_step_timed by blast
qed

text \<open>C30: the daemon is signalled at most once in any \<open>ReloadTime\<close> seconds, whatever is asked, as long as
  that many nanoseconds fit the 64 bits of a duration.\<close>

theorem ka_rate_limit:
  assumes "ka_run k (ka_initial w) es s" and "0 < kc_reload_time k" and "kc_reload_time k \<le> 9223372036"
  shows "sorted_wrt (\<lambda>later earlier. earlier + kc_reload_time k * 1000000000 \<le> later) (ka_signals s)"
  using ka_run_timed [OF assms(1) refl] assms(2,3)
  by (simp add: ka_timed_def spaced_def sleep_ns_plain)

text \<open>A longer one wraps around: the goroutine polls without a pause.\<close>

lemma sleep_ns_wraps: "sleep_ns 9223372037 = 0"
  by (simp add: sleep_ns_def sint_sbintrunc')

section \<open>A run\<close>

definition alive_os :: os where
  "alive_os = \<lparr>os_fs = [''/var/run/keepalived.pid'' \<mapsto> Regular ''7'', ''/proc/7/exe'' \<mapsto> Link ''/usr/sbin/keepalived'',
       ''/usr/sbin/keepalived'' \<mapsto> Regular []],
     os_denied = (\<lambda>p. False), os_shell = (\<lambda>h c. Exit 0), os_ran = []\<rparr>"

definition demo_kconf :: keepalived_conf where
  "demo_kconf = \<lparr>kc_conf_dir = [], kc_reload_time = 5, kc_misc_script = []\<rparr>"

lemma alive_pid: "get_pid alive_os ka_pid_file ka_cmd = Inr ''7''"
  by (simp add: get_pid_def get_pid_by_file_def os_read_file_def is_file_exist_def os_stat_def os_readlink_def
      max_links_def eval_nat_numeral alive_os_def ka_pid_file_def ka_cmd_def)

lemma alive_hup: "hup_works alive_os"
  by (simp add: hup_works_def check_thread_exist_def alive_pid) (simp add: alive_os_def)

lemma ka_turn_signals_witness:
  "\<exists>pid d. ka_turn demo_kconf True alive_os =
      (False, alive_os\<lparr>os_ran := os_ran alive_os @ [''/bin/kill -HUP '' @ pid]\<rparr>, True, d)"
  using ka_turn_signals [OF alive_hup, of demo_kconf] by blast

lemma demo_run:
  "\<exists>s. ka_run demo_kconf (ka_initial alive_os) [Asked, Turn True, Asked] s"
proof -
  have "ka_turn demo_kconf True alive_os =
      (False, alive_os\<lparr>os_ran := [hup_command ''7'']\<rparr>, True, sleep_ns 5)"
    by (simp add: ka_turn_def ka_reload_def alive_pid)
      (simp add: shell_out_def alive_os_def demo_kconf_def)
  then have t: "\<exists>s. ka_step demo_kconf ((ka_initial alive_os)\<lparr>ka_flag := True\<rparr>) (Turn True) s"
    using ka_step.turn [of "(ka_initial alive_os)\<lparr>ka_flag := True\<rparr>" 0 demo_kconf]
    by (auto simp: ka_initial_def)
  have a: "ka_run demo_kconf (ka_initial alive_os) ([] @ [Asked]) ((ka_initial alive_os)\<lparr>ka_flag := True\<rparr>)"
    by (rule ka_snoc [OF ka_nil asked])
  from t obtain s where "ka_run demo_kconf (ka_initial alive_os) (([] @ [Asked]) @ [Turn True]) s"
    using ka_snoc [OF a] by blast
  from ka_snoc [OF this asked] show ?thesis by auto
qed

lemma ka_no_lost_reload_witness:
  "\<exists>s. ka_run demo_kconf (ka_initial alive_os) [Asked, Turn True, Asked] s \<and> ka_flag s"
proof -
  from demo_run obtain s where r: "ka_run demo_kconf (ka_initial alive_os) [Asked, Turn True, Asked] s" by blast
  with ka_no_lost_reload [of demo_kconf alive_os "[Asked, Turn True]" "[]" s] show ?thesis by auto
qed

lemma ka_rate_limit_witness:
  "\<exists>s. ka_run demo_kconf (ka_initial alive_os) [Asked, Turn True, Asked] s \<and>
     sorted_wrt (\<lambda>later earlier. earlier + 5 * 1000000000 \<le> later) (ka_signals s)"
proof -
  from demo_run obtain s where r: "ka_run demo_kconf (ka_initial alive_os) [Asked, Turn True, Asked] s" by blast
  from ka_rate_limit [OF r] have "sorted_wrt (\<lambda>later earlier. earlier + 5 * 1000000000 \<le> later) (ka_signals s)"
    by (simp add: demo_kconf_def)
  with r show ?thesis by blast
qed

text \<open>when the daemon is not running and cannot be started, \<open>Start\<close> ends the process; otherwise it goes
  on, and it starts a daemon only when there is none.\<close>

theorem ka_start_outcome:
  "ka_start w = (if check_thread_exist w ka_pid_file ka_cmd then Some w
     else if os_shell w (os_ran w) ''systemctl start keepalived'' = Exit 0
          then Some (w\<lparr>os_ran := os_ran w @ [''systemctl start keepalived'']\<rparr>) else None)"
  by (auto simp: ka_start_def shell_out_def ka_service_def split: sh_outcome.splits)

end
