(* ===== verification/Lvs.thy ===== *)
theory Lvs
  imports Ipamserve Lbsync Lbjson Tmpltext Keepalived
begin

text \<open>
  \<open>pkg/lbm/lvs.go\<close>, the implementation of the interface \<open>ILB\<close> for LVS.  The packages it calls keep
  their state in package variables; here the state is a record (files, store, cache of \<open>ipam\<close>, flag
  of \<open>keepalived\<close>), and what does not change after start-up is another (configuration, allocator,
  local address groups, the orders in which maps are ranged over).
\<close>

section \<open>State\<close>

record 's lvs_env =
  ve_os :: os
  ve_kv :: 's
  ve_cache :: "(string \<times> string) list"
  ve_flag :: bool

text \<open>The orders are those in which Go ranges over the map of groups for the server at a position, when a
  service is rendered, and over the address cache; they are fixed for a node here, which only matters
  where an address is in two local address groups.\<close>

record 's lvs_ctx =
  vx_conf :: lb_conf
  vx_groups :: laddr_map
  vx_kv :: "'s kv_store"
  vx_alc :: "'s ip_allocator"
  vx_ords :: "nat \<Rightarrow> (string \<times> ipnet) range_order"
  vx_ord :: "(string \<times> ipnet) range_order"
  vx_keys_ord :: "string range_order"

definition lvs_stick :: string where
  "lvs_stick = ''l4-''"

definition lvs_config_path :: "lb_conf \<Rightarrow> string" where
  "lvs_config_path c = path_join [lc_conf_dir c, ''conf.d'']"

section \<open>Parse\<close>

definition lvs_parse :: "'s lvs_ctx \<Rightarrow> string \<Rightarrow> lvs option" where
  "lvs_parse x data =
     (case lvs_unmarshal data new_lvs of
        None \<Rightarrow> None
      | Some l \<Rightarrow>
          (case lvs_validate (vx_ords x) (vx_groups x) l of
             (Some e, l') \<Rightarrow> None
           | (None, l') \<Rightarrow> Some l'))"

section \<open>The address and the port of a service\<close>

definition lvs_update :: "'s kv_store \<Rightarrow> 's \<Rightarrow> string \<Rightarrow> lvs \<Rightarrow> (go_error + unit) \<times> 's" where
  "lvs_update kv s key l = kv_write_bytes kv s key (lb_name (lvs_common l)) (lvs_marshal l)"

text \<open>\<open>strconv.Atoi\<close> with its error dropped: zero for a text that is no number, the nearest machine
  integer for one out of range.\<close>

definition atoi :: "string \<Rightarrow> int" where
  "atoi s =
     (let neg = has_prefix s ''-''; ds = (if neg \<or> has_prefix s ''+'' then tl s else s); n = int (dec_val ds)
      in if ds = [] \<or> \<not> list_all is_digit ds then 0
         else if neg then max (- (2 ^ 63)) (- n) else min (2 ^ 63 - 1) n)"

definition port_of_vip :: "int \<Rightarrow> string \<Rightarrow> int option" where
  "port_of_vip base ip =
     (let s = split_on CHR ''.'' ip in if length s = 4 then Some (base + atoi (s ! 3)) else None)"

text \<open>The service with its address and, if it has none, a port, and whether it has to be written back.\<close>

definition lvs_place :: "int \<Rightarrow> string \<Rightarrow> lvs \<Rightarrow> bool \<times> lvs" where
  "lvs_place base ip l =
     (let update = lvs_vip l \<noteq> ip; l1 = l\<lparr>lvs_vip := ip\<rparr>
      in if lvs_port l1 = 0 then
           (case port_of_vip base ip of None \<Rightarrow> (update, l1) | Some p \<Rightarrow> (True, l1\<lparr>lvs_port := p\<rparr>))
         else (update, l1))"

text \<open>The deferred release of the address tests the outer \<open>err\<close>, which is nil when it runs: the error
  of the write is another variable.  So no path releases the address.\<close>

definition alloc_vip :: "'s lvs_ctx \<Rightarrow> 's lvs_env \<Rightarrow> lvs \<Rightarrow> (go_error option \<times> lvs \<times> 's lvs_env) option" where
  "alloc_vip x e l =
     (case require_ip (vx_alc x) (ve_cache e) (ve_kv e) (lvs_stick @ lb_name (lvs_common l)) (lvs_vip l) of
        None \<Rightarrow> None
      | Some (Inl err, c, s) \<Rightarrow> Some (Some err, l, e\<lparr>ve_cache := c, ve_kv := s\<rparr>)
      | Some (Inr ip, c, s) \<Rightarrow>
          (let (update, l') = lvs_place (l4_port_base (lc_l4 (vx_conf x))) ip l
           in if update then
                (case lvs_update (vx_kv x) s (lb_store_key (vx_conf x)) l' of
                   (Inl err, s') \<Rightarrow> Some (Some err, l', e\<lparr>ve_cache := c, ve_kv := s'\<rparr>)
                 | (Inr _, s') \<Rightarrow> Some (None, l', e\<lparr>ve_cache := c, ve_kv := s'\<rparr>))
              else Some (None, l', e\<lparr>ve_cache := c, ve_kv := s\<rparr>)))"

definition lvs_check_valid :: "lvs \<Rightarrow> bool" where
  "lvs_check_valid l = (if lvs_vip l = [] then False else if lvs_port l = 0 then False else True)"

section \<open>Configuring and deleting\<close>

definition lvs_inner_of :: "'s lvs_ctx \<Rightarrow> lvs \<Rightarrow> lvs_inner" where
  "lvs_inner_of x l =
     \<lparr>in_lvs = l,
      in_laddr_group =
        (case lvs_servers l of
           [] \<Rightarrow> []
         | b # bs \<Rightarrow>
             (case get_laddr_group_name (vx_ord x) (vx_groups x) (be_ip b) of None \<Rightarrow> [] | Some g \<Rightarrow> g)),
      in_kconf = l4_kconf (lc_l4 (vx_conf x))\<rparr>"

definition lvs_render :: "'s lvs_ctx \<Rightarrow> os \<Rightarrow> lvs \<Rightarrow> bool \<times> os" where
  "lvs_render x w l =
     render_service w (config_file_path (lvs_config_path (vx_conf x)) (lb_name (lvs_common l)))
       lvs_template (lvs_value (lvs_inner_of x l))"

definition lvs_config :: "'s lvs_ctx \<Rightarrow> bool \<Rightarrow> 's lvs_env \<Rightarrow> lvs \<Rightarrow> (bool \<times> lvs \<times> 's lvs_env) option" where
  "lvs_config x leader e l =
     (if leader then
        (case alloc_vip x e l of
           None \<Rightarrow> None
         | Some (Some err, l', e') \<Rightarrow> Some (False, l', e')
         | Some (None, l', e') \<Rightarrow>
             (let (r, w) = lvs_render x (ve_os e') l' in Some (r, l', e'\<lparr>ve_os := w\<rparr>)))
      else if \<not> lvs_check_valid l then Some (False, l, e)
      else let (r, w) = lvs_render x (ve_os e) l in Some (r, l, e\<lparr>ve_os := w\<rparr>))"

definition lvs_delete :: "'s lvs_ctx \<Rightarrow> bool \<Rightarrow> 's lvs_env \<Rightarrow> string \<Rightarrow> bool \<times> 's lvs_env" where
  "lvs_delete x leader e name =
     (let e' = (if leader then
                  (case release_ip (vx_alc x) (ve_cache e) (ve_kv e) (lvs_stick @ name) of
                     (r, c, s) \<Rightarrow> e\<lparr>ve_cache := c, ve_kv := s\<rparr>)
                else e);
          (r, w) = delete_file (ve_os e') (config_file_path (lvs_config_path (vx_conf x)) name)
      in (r, e'\<lparr>ve_os := w\<rparr>))"

section \<open>Recover, Reload, Init\<close>

text \<open>\<open>Init\<close>: \<open>None\<close> is a fatal exit; the server of the statistics starts on its own.\<close>

definition lvs_init ::
  "'s kv_store \<Rightarrow> lb_conf \<Rightarrow> 's \<Rightarrow> os \<Rightarrow> ('s ip_allocator \<times> (string \<times> string) list \<times> 's \<times> os) option" where
  "lvs_init kv c s w =
     (case ipam_init kv s (l4_subnet_name (lc_l4 c)) (l4_subnet_cidr (lc_l4 c)) of
        (Inl e, s') \<Rightarrow> None
      | (Inr (a, cache), s') \<Rightarrow>
          (case ka_start w of None \<Rightarrow> None | Some w' \<Rightarrow> Some (a, cache, s', w')))"

fun lvs_recover_keys :: "'s lvs_ctx \<Rightarrow> string list \<Rightarrow> (string \<times> lvs) list" where
  "lvs_recover_keys x [] = []"
| "lvs_recover_keys x (v # vs) =
     (if has_prefix v lvs_stick then
        (let name = replace_all v lvs_stick [];
             lb = new_lvs\<lparr>lvs_common := (lvs_common new_lvs)\<lparr>lb_name := name, lb_cluster := lc_cluster_name (vx_conf x)\<rparr>\<rparr>
         in (get_store_key (vx_kv x) (lb_store_key (vx_conf x)) name, lb) # lvs_recover_keys x vs)
      else lvs_recover_keys x vs)"

definition lvs_recover :: "'s lvs_ctx \<Rightarrow> 's lvs_env \<Rightarrow> (string \<times> lvs) list" where
  "lvs_recover x e = lvs_recover_keys x (ipam_get_keys (vx_keys_ord x) (ve_cache e))"

definition lvs_reload :: "'s lvs_env \<Rightarrow> 's lvs_env" where
  "lvs_reload e = e\<lparr>ve_flag := True\<rparr>"

definition lvs_impl :: "'s lvs_ctx \<Rightarrow> (lvs, 's lvs_env) ilb" where
  "lvs_impl x =
     \<lparr>ilb_name = (\<lambda>l. get_name (lvs_common l)),
      ilb_cluster = (\<lambda>l. get_cluster_name (lvs_common l)),
      ilb_parse = (\<lambda>e key data. lvs_parse x data),
      ilb_config = lvs_config x,
      ilb_delete = lvs_delete x,
      ilb_reload = lvs_reload,
      ilb_recover = lvs_recover x\<rparr>"

section \<open>The directories of services and of addresses\<close>

text \<open>What the promises below need of the configuration: the directory of the services is a directory
  of the same store, and neither it nor the one of the addresses lies in the other.\<close>

definition lvs_setup :: "'s lvs_ctx \<Rightarrow> ('s \<Rightarrow> tree) \<Rightarrow> string \<Rightarrow> bool" where
  "lvs_setup x tree item \<longleftrightarrow>
     kv_dir (vx_kv x) tree item \<and> item_ok (vx_kv x) (lb_store_key (vx_conf x)) \<and>
     parallel (item_path (vx_kv x) item) (item_path (vx_kv x) (lb_store_key (vx_conf x)))"

lemma lvs_setup_dirs:
  assumes "lvs_setup x tree item"
  shows "kv_dir (vx_kv x) tree item" and "kv_dir (vx_kv x) tree (lb_store_key (vx_conf x))"
proof -
  from assms show "kv_dir (vx_kv x) tree item" by (simp add: lvs_setup_def)
  then have "etcd_service (kvs_api (vx_kv x)) tree" by (simp add: kv_dir_def)
  with assms show "kv_dir (vx_kv x) tree (lb_store_key (vx_conf x))"
    by (intro kv_dir.intro kv_dir_axioms.intro) (simp_all add: lvs_setup_def)
qed

lemma parallel_outside:
  assumes "parallel d p"
  shows "d @ q \<noteq> p @ [c]" and "\<not> strict_prefix (d @ q) (p @ [c])"
proof -
  have "\<not> prefix d (p @ [c])"
  proof
    assume "prefix d (p @ [c])"
    then have "prefix d p \<or> d = p @ [c]" by (simp only: prefix_snoc) blast
    then show False using assms by (auto simp: parallel_def)
  qed
  then have no: "d @ z \<noteq> p @ [c]" for z by (metis prefixI)
  from no [of q] show "d @ q \<noteq> p @ [c]" .
  from no show "\<not> strict_prefix (d @ q) (p @ [c])"
    by (metis append.assoc prefixE strict_prefixE)
qed

lemma es_write_elsewhere:
  assumes "set_at (tree s) (p @ [c]) e (tree s')" and "parallel (item_path kv item) p"
  shows "es_leases kv tree item s' = es_leases kv tree item s"
    and "es_last kv tree item s' = es_last kv tree item s"
    and "es_ready kv tree item s' = es_ready kv tree item s"
proof -
  have same: "tree s' (item_path kv item @ q) = tree s (item_path kv item @ q)" for q
    using parallel_outside [OF assms(2)] by (intro set_at_other [OF assms(1)]) auto
  from same [of "[]"] same show "es_leases kv tree item s' = es_leases kv tree item s"
    "es_last kv tree item s' = es_last kv tree item s" "es_ready kv tree item s' = es_ready kv tree item s"
    by (simp_all add: es_leases_def es_last_def es_ready_def dir_view_def fun_eq_iff)
qed

text \<open>Writing a service leaves the addresses alone, whether or not it succeeds.\<close>

lemma lvs_update_frame:
  assumes "lvs_setup x tree item" and "visible_name (lb_name (lvs_common l))"
    and "lvs_update (vx_kv x) s (lb_store_key (vx_conf x)) l = (r, s')"
  shows "es_leases (vx_kv x) tree item s' = es_leases (vx_kv x) tree item s"
    and "ipam_inv a (vx_kv x) tree item s \<Longrightarrow> ipam_inv a (vx_kv x) tree item s'"
    and "r = Inr u \<Longrightarrow> \<exists>i. tree s' (item_path (vx_kv x) (lb_store_key (vx_conf x)) @ [lb_name (lvs_common l)])
      = Some (File (lvs_marshal l) i)"
proof -
  let ?p = "item_path (vx_kv x) (lb_store_key (vx_conf x))"
  have par: "parallel (item_path (vx_kv x) item) ?p" using assms(1) by (simp add: lvs_setup_def)
  have w: "kv_write (vx_kv x) s (lb_store_key (vx_conf x)) (lb_name (lvs_common l)) (lvs_marshal l) = (r, s')"
    using assms(3) by (simp add: lvs_update_def kv_write_bytes_def kv_write_def)
  note W = kv_dir.kv_write_Inr [OF lvs_setup_dirs(2) [OF assms(1)] assms(2)]
    kv_dir.kv_write_Inl [OF lvs_setup_dirs(2) [OF assms(1)] assms(2)]
  have "tree s' = tree s \<or> (\<exists>i. set_at (tree s) (?p @ [lb_name (lvs_common l)]) (File (lvs_marshal l) i) (tree s'))"
    using w W by (cases r) blast+
  then have eq: "es_leases (vx_kv x) tree item s' = es_leases (vx_kv x) tree item s \<and>
      es_last (vx_kv x) tree item s' = es_last (vx_kv x) tree item s \<and>
      es_ready (vx_kv x) tree item s' = es_ready (vx_kv x) tree item s"
    using es_cong [of tree s' s] es_write_elsewhere [OF _ par] by metis
  then show "es_leases (vx_kv x) tree item s' = es_leases (vx_kv x) tree item s" by simp
  show "ipam_inv a (vx_kv x) tree item s \<Longrightarrow> ipam_inv a (vx_kv x) tree item s'"
    using eq by (simp add: ipam_inv_def)
  show "\<exists>i. tree s' (?p @ [lb_name (lvs_common l)]) = Some (File (lvs_marshal l) i)" if "r = Inr u"
    using W(1) [OF w [unfolded that]] set_at_same by blast
qed

section \<open>Ports\<close>

lemma atoi_itoa_nat: "n < 2 ^ 63 \<Longrightarrow> atoi (itoa_nat n) = int n"
proof -
  assume n: "n < 2 ^ 63"
  have "list_all is_digit (itoa_nat n)" using itoa_nat_digits by (auto simp: list_all_iff)
  moreover have "\<not> has_prefix (itoa_nat n) ''-''" "\<not> has_prefix (itoa_nat n) ''+''"
    using itoa_nat_digits [of "hd (itoa_nat n)" n] by (auto simp: has_prefix_iff is_digit_def)
  ultimately show ?thesis using n by (simp add: atoi_def Let_def)
qed

lemma digit_not_dot: "is_digit c \<Longrightarrow> c \<noteq> CHR ''.''"
  by (auto simp: is_digit_def)

lemma byte_bound: "unat (d :: byte) < 256"
proof -
  have "unat d < 2 ^ LENGTH(8)" by (rule unsigned_less)
  then show ?thesis by simp
qed

lemma port_of_v4: "port_of_vip base (v4_string [a, b, c, d]) = Some (base + int (unat d))"
proof -
  have nd: "CHR ''.'' \<notin> set (itoa_nat n)" for n using itoa_nat_digits digit_not_dot by blast
  have "unat d < 2 ^ 63" by (rule less_trans [OF byte_bound]) simp
  with nd show ?thesis
    by (simp add: port_of_vip_def v4_string_def go_string_simps atoi_itoa_nat Let_def)
qed

lemma port_of_text:
  assumes "v4_text ip"
  obtains p where "port_of_vip base ip = Some p" and "base \<le> p" and "p \<le> base + 255"
proof -
  from assms obtain a b c d where ip: "ip = v4_string [a, b, c, d]"
    unfolding v4_text_def by (metis length4E)
  have "int (unat d) \<le> 255" using byte_bound [of d] by linarith
  with ip port_of_v4 [of base a b c d] show thesis
    by (intro that [of "base + int (unat d)"]) (simp only:, linarith+)
qed

text \<open>What a service has after \<open>allocVIP\<close>: only address and port differ.\<close>

lemma lvs_place_text:
  assumes "v4_text ip"
  shows "snd (lvs_place base ip l) = l\<lparr>lvs_vip := ip, lvs_port :=
      (if lvs_port l = 0 then the (port_of_vip base ip) else lvs_port l)\<rparr>"
    and "fst (lvs_place base ip l) \<longleftrightarrow> lvs_vip l \<noteq> ip \<or> lvs_port l = 0"
proof -
  obtain p where "port_of_vip base ip = Some p" using port_of_text [OF assms] by blast
  then show "snd (lvs_place base ip l) = l\<lparr>lvs_vip := ip, lvs_port :=
      (if lvs_port l = 0 then the (port_of_vip base ip) else lvs_port l)\<rparr>"
    and "fst (lvs_place base ip l) \<longleftrightarrow> lvs_vip l \<noteq> ip \<or> lvs_port l = 0"
    by (cases "lvs_port l = 0"; simp add: lvs_place_def Let_def)+
qed

section \<open>Allocation\<close>

lemma l4_stick [simp]: "l4_id (lvs_stick @ n)"
  by (simp add: l4_id_def lvs_stick_def)

lemma alloc_vip_cases:
  assumes cfg: "lvs_setup x tree item" and inv: "ipam_inv (vx_alc x) (vx_kv x) tree item (ve_kv e)"
    and name: "visible_name (lb_name (lvs_common l))"
  obtains err l' e' where "alloc_vip x e l = Some (err, l', e')"
    and "ipam_inv (vx_alc x) (vx_kv x) tree item (ve_kv e')"
    and "others_same (lvs_stick @ lb_name (lvs_common l))
      (es_leases (vx_kv x) tree item (ve_kv e)) (es_leases (vx_kv x) tree item (ve_kv e'))"
    and "ve_os e' = ve_os e" and "ve_flag e' = ve_flag e" and "lvs_common l' = lvs_common l"
    and "(\<exists>er. err = Some er \<and> l' = l) \<or>
      (\<exists>ip. es_leases (vx_kv x) tree item (ve_kv e') ip = Some (lvs_stick @ lb_name (lvs_common l)) \<and>
         v4_text ip \<and> (v4_text (lvs_vip l) \<longrightarrow> ip = lvs_vip l) \<and>
         l' = snd (lvs_place (l4_port_base (lc_l4 (vx_conf x))) ip l) \<and>
         (err = None \<longrightarrow> fst (lvs_place (l4_port_base (lc_l4 (vx_conf x))) ip l) \<longrightarrow>
           (\<exists>i. tree (ve_kv e') (item_path (vx_kv x) (lb_store_key (vx_conf x)) @ [lb_name (lvs_common l)])
              = Some (File (lvs_marshal l') i))))"
proof -
  let ?uid = "lvs_stick @ lb_name (lvs_common l)" and ?base = "l4_port_base (lc_l4 (vx_conf x))"
  let ?L = "es_leases (vx_kv x) tree item"
  obtain r c s where R: "require_ip (vx_alc x) (ve_cache e) (ve_kv e) ?uid (lvs_vip l) = Some (r, c, s)"
    and inv1: "ipam_inv (vx_alc x) (vx_kv x) tree item s"
    and post: "require_post ?uid (lvs_vip l) (?L (ve_kv e)) (ve_cache e) r (?L s) c"
    using require_ip_inv [OF lvs_setup_dirs(1) [OF cfg] inv l4_stick] by blast
  show thesis
  proof (cases r)
    case (Inl er)
    with R inv1 post show thesis
      by (intro that [of "Some er" l "e\<lparr>ve_cache := c, ve_kv := s\<rparr>"])
        (simp_all add: alloc_vip_def require_post_def)
  next
    case (Inr ip)
    with post have ip: "?L s ip = Some ?uid" "v4_text ip" "v4_text (lvs_vip l) \<longrightarrow> ip = lvs_vip l"
      "others_same ?uid (?L (ve_kv e)) (?L s)"
      by (auto simp: require_post_def)
    obtain u l' where place: "lvs_place ?base ip l = (u, l')" by fastforce
    have common: "lvs_common l' = lvs_common l"
      using lvs_place_text(1) [OF ip(2), of ?base l] place by simp
    show thesis
    proof (cases u)
      case False
      with R Inr place ip inv1 common show thesis
        by (intro that [of None l' "e\<lparr>ve_cache := c, ve_kv := s\<rparr>"]) (auto simp: alloc_vip_def)
    next
      case True
      obtain q s' where upd: "lvs_update (vx_kv x) s (lb_store_key (vx_conf x)) l' = (q, s')" by fastforce
      from name common have "visible_name (lb_name (lvs_common l'))" by simp
      note U = lvs_update_frame [OF cfg this upd]
      let ?err = "(case q of Inl er \<Rightarrow> Some er | Inr _ \<Rightarrow> None)"
      let ?e' = "e\<lparr>ve_cache := c, ve_kv := s'\<rparr>"
      have run: "alloc_vip x e l = Some (?err, l', ?e')"
        using R Inr place True upd by (cases q) (simp_all add: alloc_vip_def)
      have written: "?err = None \<Longrightarrow> \<exists>i. tree s' (item_path (vx_kv x) (lb_store_key (vx_conf x)) @ [lb_name (lvs_common l)])
          = Some (File (lvs_marshal l') i)"
        using U(3) common by (cases q) auto
      show thesis
        using run U(1,2) inv1 ip place common written
        by (intro that [of ?err l' ?e']) auto
    qed
  qed
qed

text \<open>What a call without an error did.\<close>

lemma alloc_vip_done:
  assumes "lvs_setup x tree item" and "ipam_inv (vx_alc x) (vx_kv x) tree item (ve_kv e)"
    and "visible_name (lb_name (lvs_common l))" and run: "alloc_vip x e l = Some (None, l', e')"
  obtains ip where "v4_text ip" and "l' = snd (lvs_place (l4_port_base (lc_l4 (vx_conf x))) ip l)"
    and "fst (lvs_place (l4_port_base (lc_l4 (vx_conf x))) ip l) \<longrightarrow>
      (\<exists>i. tree (ve_kv e') (item_path (vx_kv x) (lb_store_key (vx_conf x)) @ [lb_name (lvs_common l)])
         = Some (File (lvs_marshal l') i))"
    and "es_leases (vx_kv x) tree item (ve_kv e') ip = Some (lvs_stick @ lb_name (lvs_common l))"
    and "v4_text (lvs_vip l) \<longrightarrow> ip = lvs_vip l"
proof (rule alloc_vip_cases [OF assms(1-3)], goal_cases)
  case (1 err l2 e2)
  from 1(2) run have "err = None" "l2 = l'" "e2 = e'" by simp_all
  with 1 show thesis by (elim disjE) auto
qed

text \<open>C3: \<open>allocVIP\<close> returns and keeps the invariant of \<open>ipam\<close> and the leases of all other services.
  When it reports no error the service has an IPv4 address that is on lease to it, the configured
  one if there was one, and a port: its own, or \<open>PortBase\<close> plus the last octet of the address;
  nothing else of it changes, and if one of them did the service is stored in the directory of
  services under its name.\<close>

theorem alloc_vip_promise:
  assumes "lvs_setup x tree item" and "ipam_inv (vx_alc x) (vx_kv x) tree item (ve_kv e)"
    and "visible_name (lb_name (lvs_common l))"
  shows "\<exists>err l' e'. alloc_vip x e l = Some (err, l', e') \<and>
    ipam_inv (vx_alc x) (vx_kv x) tree item (ve_kv e') \<and>
    others_same (''l4-'' @ lb_name (lvs_common l))
      (es_leases (vx_kv x) tree item (ve_kv e)) (es_leases (vx_kv x) tree item (ve_kv e')) \<and>
    (err = None \<longrightarrow>
       (\<exists>a b c d. lvs_vip l' = v4_string [a, b, c, d] \<and>
         es_leases (vx_kv x) tree item (ve_kv e') (lvs_vip l') = Some (''l4-'' @ lb_name (lvs_common l)) \<and>
         (v4_text (lvs_vip l) \<longrightarrow> lvs_vip l' = lvs_vip l) \<and>
         l' = l\<lparr>lvs_vip := v4_string [a, b, c, d], lvs_port :=
           (if lvs_port l = 0 then l4_port_base (lc_l4 (vx_conf x)) + int (unat d) else lvs_port l)\<rparr> \<and>
         (l' \<noteq> l \<longrightarrow>
           (\<exists>i. tree (ve_kv e') (item_path (vx_kv x) (lb_store_key (vx_conf x)) @ [lb_name (lvs_common l)])
              = Some (File (lvs_marshal l') i)))))"
proof (rule alloc_vip_cases [OF assms])
  fix err l' and e' :: "'a lvs_env"
  let ?base = "l4_port_base (lc_l4 (vx_conf x))" and ?uid = "lvs_stick @ lb_name (lvs_common l)"
  let ?stored = "\<exists>i. tree (ve_kv e') (item_path (vx_kv x) (lb_store_key (vx_conf x)) @ [lb_name (lvs_common l)])
              = Some (File (lvs_marshal l') i)"
  assume run: "alloc_vip x e l = Some (err, l', e')" "ipam_inv (vx_alc x) (vx_kv x) tree item (ve_kv e')"
    "others_same ?uid (es_leases (vx_kv x) tree item (ve_kv e)) (es_leases (vx_kv x) tree item (ve_kv e'))"
    and alt: "(\<exists>er. err = Some er \<and> l' = l) \<or>
      (\<exists>ip. es_leases (vx_kv x) tree item (ve_kv e') ip = Some ?uid \<and>
         v4_text ip \<and> (v4_text (lvs_vip l) \<longrightarrow> ip = lvs_vip l) \<and> l' = snd (lvs_place ?base ip l) \<and>
         (err = None \<longrightarrow> fst (lvs_place ?base ip l) \<longrightarrow> ?stored))"
  have "\<exists>a b c d. lvs_vip l' = v4_string [a, b, c, d] \<and>
         es_leases (vx_kv x) tree item (ve_kv e') (lvs_vip l') = Some ?uid \<and>
         (v4_text (lvs_vip l) \<longrightarrow> lvs_vip l' = lvs_vip l) \<and>
         l' = l\<lparr>lvs_vip := v4_string [a, b, c, d], lvs_port :=
           (if lvs_port l = 0 then ?base + int (unat d) else lvs_port l)\<rparr> \<and> (l' \<noteq> l \<longrightarrow> ?stored)"
    if "err = None"
  proof -
    from alt that obtain ip where ip: "es_leases (vx_kv x) tree item (ve_kv e') ip = Some ?uid" "v4_text ip"
      "v4_text (lvs_vip l) \<longrightarrow> ip = lvs_vip l" "l' = snd (lvs_place ?base ip l)"
      "fst (lvs_place ?base ip l) \<longrightarrow> ?stored" by auto
    from ip(2) obtain a b c d where t: "ip = v4_string [a, b, c, d]"
      unfolding v4_text_def by (metis length4E)
    have l': "l' = l\<lparr>lvs_vip := v4_string [a, b, c, d], lvs_port :=
           (if lvs_port l = 0 then ?base + int (unat d) else lvs_port l)\<rparr>"
      using lvs_place_text(1) [OF ip(2), of ?base l] ip(4) by (simp add: t port_of_v4)
    have "l' = l" if "\<not> fst (lvs_place ?base ip l)"
      using that lvs_place_text(2) [OF ip(2), of ?base l] l' t by simp
    with ip(5) have "l' \<noteq> l \<longrightarrow> ?stored" by blast
    moreover have "lvs_vip l' = v4_string [a, b, c, d]" by (subst l') simp
    moreover have "v4_text (lvs_vip l) \<longrightarrow> v4_string [a, b, c, d] = lvs_vip l" using ip(3) t by simp
    moreover have "es_leases (vx_kv x) tree item (ve_kv e') (v4_string [a, b, c, d]) = Some ?uid"
      using ip(1) t by simp
    ultimately show ?thesis
      using l' by (metis (no_types, lifting))
  qed
  with run show ?thesis by (auto simp: lvs_stick_def)
qed

text \<open>An example: the node of the example configuration, over the in-memory server.\<close>

definition demo_ctx :: "int \<Rightarrow> mem lvs_ctx" where
  "demo_ctx base =
     \<lparr>vx_conf = demo_conf\<lparr>lc_l4 := (lc_l4 demo_conf)\<lparr>l4_port_base := base\<rparr>\<rparr>, vx_groups = demo_groups,
      vx_kv = demo_kv, vx_alc = demo_alc, vx_ords = (\<lambda>_ xs. xs), vx_ord = (\<lambda>xs. xs), vx_keys_ord = (\<lambda>xs. xs)\<rparr>"

definition demo_env :: "bool list \<Rightarrow> mem lvs_env" where
  "demo_env faults = \<lparr>ve_os = demo_os, ve_kv = demo_state demo_entries faults, ve_cache = [], ve_flag = False\<rparr>"

text \<open>The service \<open>a\<close>, whose address is on lease to it, as it is parsed.\<close>

definition demo_lb :: lvs where
  "demo_lb = demo_svc\<lparr>lvs_vip := ''10.0.0.1'',
     lvs_servers := [\<lparr>be_ip = ''10.1.0.5'', be_port = 80, be_weight = 100\<rparr>]\<rparr>"

lemma demo_ctx_simps [simp]:
  "vx_kv (demo_ctx base) = demo_kv" "vx_alc (demo_ctx base) = demo_alc"
  "lb_store_key (vx_conf (demo_ctx base)) = ''lb/prod/l4/''"
  "l4_port_base (lc_l4 (vx_conf (demo_ctx base))) = base"
  "vx_groups (demo_ctx base) = demo_groups" "vx_ords (demo_ctx base) = (\<lambda>_ xs. xs)"
  by (simp_all add: demo_ctx_def lb_store_key_def lb_root_def lb_item_def demo_conf_def conf_defaults_def)

lemma demo_env_simps [simp]:
  "ve_kv (demo_env fs) = demo_state demo_entries fs" "ve_cache (demo_env fs) = []" "ve_os (demo_env fs) = demo_os"
  by (simp_all add: demo_env_def)

lemma demo_lb_simps [simp]:
  "lb_name (lvs_common demo_lb) = ''a''" "lvs_vip demo_lb = ''10.0.0.1''" "lvs_port demo_lb = 0"
  by (simp_all add: demo_lb_def demo_svc_def new_lvs_def)

lemma demo_lb_dir: "item_path demo_kv ''lb/prod/l4/'' = [''lb'', ''lb'', ''prod'', ''l4'']"
  by (simp add: item_path_def demo_kv_def keypath_def)

lemma demo_setup: "lvs_setup (demo_ctx base) mem_view demo_item"
proof -
  have "item_ok demo_kv ''lb/prod/l4/''"
    by (simp add: item_ok_def demo_kv_def plain_key_def keypath_def plain_name_def)
  then show ?thesis
    by (simp add: lvs_setup_def demo.kv_dir_axioms demo_lb_dir demo_path demo_dir_def parallel_def)
qed

lemma demo_visible: "visible_name ''a''"
  by (simp add: visible_name_def plain_name_def)

lemma alloc_vip_promise_witness:
  "\<exists>err l' e'. alloc_vip (demo_ctx 10000) (demo_env []) demo_lb = Some (err, l', e') \<and>
    ipam_inv demo_alc demo_kv mem_view demo_item (ve_kv e')"
  using alloc_vip_promise [of "demo_ctx 10000" mem_view demo_item "demo_env []" demo_lb]
  by (simp add: demo_setup demo_inv demo_visible) blast

lemma demo_require:
  "require_ip demo_alc [] (demo_state demo_entries (False # fs)) ''l4-a'' ''10.0.0.1''
     = Some (Inr ''10.0.0.1'', [], demo_state demo_entries fs)"
  by (simp add: require_ip_def demo_lock_free demo_exist demo_v4)

lemma demo_update:
  "\<exists>s'. lvs_update demo_kv (demo_state demo_entries []) ''lb/prod/l4/'' (demo_lb\<lparr>lvs_port := p\<rparr>) = (Inr (), s')"
  by (simp add: lvs_update_def kv_write_bytes_def demo_calls) (simp add: demo_server, simp add: demo_tree)

lemma demo_place:
  "lvs_place base ''10.0.0.1'' demo_lb = (True, demo_lb\<lparr>lvs_port := base + 1\<rparr>)"
proof -
  have "v4_string [10, 0, 0, 1] = ''10.0.0.1''" by code_simp
  with port_of_v4 [of base 10 0 0 1] show ?thesis by (simp add: lvs_place_def Let_def)
qed

lemma demo_alloc:
  assumes "p = base + 1"
  shows "\<exists>e'. alloc_vip (demo_ctx base) (demo_env [False]) demo_lb = Some (None, demo_lb\<lparr>lvs_port := p\<rparr>, e')"
  unfolding assms using demo_update [of "base + 1"]
  by (auto simp: alloc_vip_def lvs_stick_def demo_require demo_place demo_env_def)

text \<open>when the service cannot be written back, \<open>allocVIP\<close> fails but the address stays on lease: the
  release that is deferred for this case looks at a variable that the error never reaches.\<close>

theorem alloc_vip_failed_write:
  assumes "lvs_setup x tree item" and "ipam_inv (vx_alc x) (vx_kv x) tree item (ve_kv e)"
    and "visible_name (lb_name (lvs_common l))"
    and "require_ip (vx_alc x) (ve_cache e) (ve_kv e) (''l4-'' @ lb_name (lvs_common l)) (lvs_vip l) = Some (Inr ip, c, s)"
    and "lvs_place (l4_port_base (lc_l4 (vx_conf x))) ip l = (True, l')"
    and "lvs_update (vx_kv x) s (lb_store_key (vx_conf x)) l' = (Inl er, s')"
  shows "alloc_vip x e l = Some (Some er, l', e\<lparr>ve_cache := c, ve_kv := s'\<rparr>) \<and>
    es_leases (vx_kv x) tree item s' ip = Some (''l4-'' @ lb_name (lvs_common l))"
proof -
  have uid: "l4_id (''l4-'' @ lb_name (lvs_common l))" by (simp add: l4_id_def)
  from require_ip_inv [OF lvs_setup_dirs(1) [OF assms(1)] assms(2) uid, of "ve_cache e" "lvs_vip l"] assms(4)
  have ip: "es_leases (vx_kv x) tree item s ip = Some (''l4-'' @ lb_name (lvs_common l))" "v4_text ip"
    by (auto simp: require_post_def)
  from assms(5) have "l' = snd (lvs_place (l4_port_base (lc_l4 (vx_conf x))) ip l)" by simp
  then have "lvs_common l' = lvs_common l" by (simp add: lvs_place_text(1) [OF ip(2)])
  with assms(3) have "visible_name (lb_name (lvs_common l'))" by simp
  from lvs_update_frame(1) [OF assms(1) this assms(6)] ip(1)
  have "es_leases (vx_kv x) tree item s' ip = Some (''l4-'' @ lb_name (lvs_common l))" by simp
  moreover have "alloc_vip x e l = Some (Some er, l', e\<lparr>ve_cache := c, ve_kv := s'\<rparr>)"
    using assms(4-6) by (simp add: alloc_vip_def lvs_stick_def)
  ultimately show ?thesis by blast
qed

lemma demo_update_fails:
  "\<exists>er s'. lvs_update demo_kv (demo_state demo_entries [True]) ''lb/prod/l4/'' (demo_lb\<lparr>lvs_port := p\<rparr>) = (Inl er, s')"
  by (simp add: lvs_update_def kv_write_bytes_def demo_calls) (simp add: demo_server)

lemma alloc_vip_failed_write_witness:
  "\<exists>er l' e'. alloc_vip (demo_ctx 10000) (demo_env [False, True]) demo_lb = Some (Some er, l', e') \<and>
     es_leases demo_kv mem_view demo_item (ve_kv e') ''10.0.0.1'' = Some ''l4-a''"
proof -
  obtain er s' where u: "lvs_update demo_kv (demo_state demo_entries [True]) ''lb/prod/l4/'' (demo_lb\<lparr>lvs_port := 10001\<rparr>)
      = (Inl er, s')" using demo_update_fails by blast
  have "lvs_place 10000 ''10.0.0.1'' demo_lb = (True, demo_lb\<lparr>lvs_port := 10001\<rparr>)"
    using demo_place [of 10000] by simp
  with u alloc_vip_failed_write [of "demo_ctx 10000" mem_view demo_item "demo_env [False, True]" demo_lb
      "''10.0.0.1''" "[]" "demo_state demo_entries [True]"]
  show ?thesis by (auto simp: demo_setup demo_inv demo_visible demo_require)
qed

section \<open>What is written back is read as it was\<close>

lemma lvs_parse_marshal:
  assumes "lvs_wf l" and "lvs_over l = l"
  shows "lvs_parse x (lvs_marshal l) = Some l' \<longleftrightarrow> lvs_validate (vx_ords x) (vx_groups x) l = (None, l')"
  using lvs_unmarshal_marshal [OF assms(1)] assms(2)
  by (auto simp: lvs_parse_def split: prod.splits option.splits)

lemma lvs_over_place [simp]:
  "lvs_over (l\<lparr>lvs_vip := v, lvs_port := p\<rparr>) = (lvs_over l)\<lparr>lvs_vip := v, lvs_port := p\<rparr>"
  by (simp add: lvs_over_def)

lemma default_weight_idem [simp]: "default_weight (default_weight b) = default_weight b"
  by (simp add: default_weight_def)

lemma default_weight_ip [simp]: "be_ip (default_weight b) = be_ip b"
  by (simp add: default_weight_def)

lemma backend_ok_default: "backend_ok b \<Longrightarrow> backend_ok (default_weight b)"
  by (simp add: backend_ok_def default_weight_def)

text \<open>A service that was accepted is accepted again, as it is, with another valid address and port.\<close>

lemma lvs_validate_again:
  assumes "lvs_validate ords m l0 = (None, l)" and "parse_ip v \<noteq> []" and "0 \<le> p" and "p \<le> 65535"
  shows "lvs_validate ords m (l\<lparr>lvs_vip := v, lvs_port := p\<rparr>) = (None, l\<lparr>lvs_vip := v, lvs_port := p\<rparr>)"
proof -
  from assms(1) have ok: "lvs_fields_ok l0" and l: "l = l0\<lparr>lvs_servers := map default_weight (lvs_servers l0)\<rparr>"
    and grp: "lvs_servers l0 = [] \<or> (\<exists>g. \<forall>k < length (lvs_servers l0).
       get_laddr_group_name (ords k) m (be_ip (lvs_servers l0 ! k)) = Some g)"
    by (simp_all add: lvs_validate_accepts)
  have "lvs_fields_ok (l\<lparr>lvs_vip := v, lvs_port := p\<rparr>)"
    using ok assms(2-4) backend_ok_default by (auto simp: lvs_fields_ok_def l)
  moreover have "lvs_servers (l\<lparr>lvs_vip := v, lvs_port := p\<rparr>) = map default_weight (lvs_servers l0)"
    by (simp add: l)
  moreover have "(l\<lparr>lvs_vip := v, lvs_port := p\<rparr>)\<lparr>lvs_servers := map default_weight (lvs_servers l0)\<rparr>
      = l\<lparr>lvs_vip := v, lvs_port := p\<rparr>"
    by (simp add: l)
  moreover have "map default_weight (map default_weight (lvs_servers l0)) = map default_weight (lvs_servers l0)"
    by (simp add: comp_def)
  ultimately show ?thesis
    unfolding lvs_validate_accepts using grp by (auto simp: nth_map)
qed

lemma place_settled:
  assumes "lvs_parse x data = Some l" and "lvs_wf l" and "lvs_over l = l"
    and "5000 \<le> l4_port_base (lc_l4 (vx_conf x))" and "l4_port_base (lc_l4 (vx_conf x)) \<le> 65280"
    and ip: "v4_text ip" and lv: "l' = snd (lvs_place (l4_port_base (lc_l4 (vx_conf x))) ip l)"
  shows "lvs_parse x (lvs_marshal l') = Some l' \<and> lvs_check_valid l'"
proof -
  let ?base = "l4_port_base (lc_l4 (vx_conf x))"
  obtain q where q: "port_of_vip ?base ip = Some q" "?base \<le> q" "q \<le> ?base + 255"
    using port_of_text [OF ip] by blast
  define p where "p = (if lvs_port l = 0 then q else lvs_port l)"
  have l': "l' = l\<lparr>lvs_vip := ip, lvs_port := p\<rparr>"
    using lv lvs_place_text(1) [OF ip, of ?base l] q(1) by (simp add: p_def)
  from assms(1) obtain l0 where v: "lvs_validate (vx_ords x) (vx_groups x) l0 = (None, l)"
    by (auto simp: lvs_parse_def split: option.splits prod.splits)
  then have port: "0 \<le> lvs_port l \<and> lvs_port l \<le> 65535"
    by (auto simp: lvs_validate_accepts lvs_fields_ok_def)
  then have p: "0 \<le> p" "p \<le> 65535" using q assms(4,5) by (auto simp: p_def)
  have "lvs_validate (vx_ords x) (vx_groups x) l' = (None, l')"
    unfolding l' by (rule lvs_validate_again [OF v v4_text_parse(3) [OF ip] p])
  moreover have "lvs_wf l'" using assms(2) p by (simp add: l' lvs_wf_def int64_def)
  moreover have "lvs_over l' = l'" using assms(3) by (simp add: l')
  ultimately have "lvs_parse x (lvs_marshal l') = Some l'" by (simp add: lvs_parse_marshal)
  moreover have "ip \<noteq> []" using v4_text_head [OF ip] by simp
  moreover have "p \<noteq> 0" using q assms(4) by (auto simp: p_def)
  ultimately show ?thesis by (simp add: lvs_check_valid_def l')
qed

lemma alloc_vip_settled:
  assumes "lvs_setup x tree item" and "ipam_inv (vx_alc x) (vx_kv x) tree item (ve_kv e)"
    and "visible_name (lb_name (lvs_common l))"
    and "lvs_parse x data = Some l" and "lvs_wf l" and "lvs_over l = l"
    and "5000 \<le> l4_port_base (lc_l4 (vx_conf x))" and "l4_port_base (lc_l4 (vx_conf x)) \<le> 65280"
    and "alloc_vip x e l = Some (None, l', e')"
  shows "lvs_parse x (lvs_marshal l') = Some l' \<and> lvs_check_valid l'"
proof -
  obtain ip where ip: "v4_text ip" "l' = snd (lvs_place (l4_port_base (lc_l4 (vx_conf x))) ip l)"
    by (rule alloc_vip_done [OF assms(1-3,9)])
  show ?thesis by (rule place_settled [OF assms(4-8) ip])
qed

text \<open>a leader that gives an accepted service an address and a port writes back a record that every
  node then parses to the very service the leader has in its table, so that the event of its own
  write changes nothing: as long as the port fits, and the request had no explicit zero in a field
  with a default.\<close>

theorem alloc_vip_settles:
  assumes "lvs_setup x tree item" and "ipam_inv (vx_alc x) (vx_kv x) tree item (ve_kv e)"
    and "visible_name (lb_name (lvs_common l))"
    and "lvs_parse x data = Some l" and "lvs_wf l" and "lvs_over l = l"
    and "5000 \<le> l4_port_base (lc_l4 (vx_conf x))" and "l4_port_base (lc_l4 (vx_conf x)) \<le> 65280"
    and "alloc_vip x e l = Some (None, l', e')"
  shows "lvs_parse x (lvs_marshal l') = Some l' \<and> lvs_check_valid l'"
  by (rule alloc_vip_settled [OF assms])

lemma demo_lb_wf: "lvs_wf demo_lb" "lvs_over demo_lb = demo_lb"
  by (simp_all add: demo_lb_def demo_svc_def new_lvs_def lvs_wf_def int64_def health_wf_def conf_wf_def
      backend_wf_def lvs_over_def common_over_def over_def lvs_type_def)

lemma demo_lb_accepted: "lvs_validate (\<lambda>_ xs. xs) demo_groups demo_lb = (None, demo_lb)"
proof -
  have "lvs_validate (\<lambda>_ xs. xs) demo_groups demo_svc = (None, demo_svc\<lparr>lvs_servers :=
      [\<lparr>be_ip = ''10.1.0.5'', be_port = 80, be_weight = 100\<rparr>]\<rparr>)"
    unfolding lvs_validate_accepts using demo_svc_fields demo_server_group
    by (simp add: demo_svc_def default_weight_def)
  moreover have "demo_svc\<lparr>lvs_servers := [\<lparr>be_ip = ''10.1.0.5'', be_port = 80, be_weight = 100\<rparr>],
      lvs_vip := ''10.0.0.1'', lvs_port := 0\<rparr> = demo_lb"
    by (simp add: demo_lb_def demo_svc_def new_lvs_def)
  moreover have "parse_ip ''10.0.0.1'' \<noteq> []" by (simp add: demo_v4 v4_in_v6_prefix_def)
  ultimately show ?thesis
    using lvs_validate_again [of "\<lambda>_ xs. xs" demo_groups demo_svc _ "''10.0.0.1''" 0] by fastforce
qed

lemma demo_lb_parse: "lvs_parse (demo_ctx base) (lvs_marshal demo_lb) = Some demo_lb"
  using demo_lb_accepted by (simp add: lvs_parse_marshal demo_lb_wf)

lemma alloc_vip_settles_witness:
  "lvs_parse (demo_ctx 10000) (lvs_marshal (demo_lb\<lparr>lvs_port := 10001\<rparr>)) = Some (demo_lb\<lparr>lvs_port := 10001\<rparr>)"
proof -
  obtain e' where "alloc_vip (demo_ctx 10000) (demo_env [False]) demo_lb = Some (None, demo_lb\<lparr>lvs_port := 10001\<rparr>, e')"
    using demo_alloc [of 10001 10000] by auto
  from alloc_vip_settles [OF demo_setup _ _ demo_lb_parse demo_lb_wf _ _ this]
  show ?thesis by (simp add: demo_inv demo_visible)
qed

text \<open>C40: the sum is not checked: when \<open>PortBase\<close> plus the last octet exceeds 65535 (the configuration
  allows a base of up to 65535), the leader stores a service that \<open>LVS.Validate\<close> refuses, so that no
  node will ever accept the record again.\<close>

theorem alloc_vip_port_overflow:
  assumes "lvs_setup x tree item" and "ipam_inv (vx_alc x) (vx_kv x) tree item (ve_kv e)"
    and "visible_name (lb_name (lvs_common l))"
    and "alloc_vip x e l = Some (None, l', e')" and "lvs_port l = 0"
    and "lvs_vip l' = v4_string [a, b, c, d]" and "65535 < l4_port_base (lc_l4 (vx_conf x)) + int (unat d)"
  shows "(\<exists>i. tree (ve_kv e') (item_path (vx_kv x) (lb_store_key (vx_conf x)) @ [lb_name (lvs_common l)])
      = Some (File (lvs_marshal l') i)) \<and> fst (lvs_validate ords m l') \<noteq> None"
proof -
  let ?base = "l4_port_base (lc_l4 (vx_conf x))"
  let ?stored = "\<exists>i. tree (ve_kv e') (item_path (vx_kv x) (lb_store_key (vx_conf x)) @ [lb_name (lvs_common l)])
      = Some (File (lvs_marshal l') i)"
  obtain ip where ip: "v4_text ip" "l' = snd (lvs_place ?base ip l)" "fst (lvs_place ?base ip l) \<longrightarrow> ?stored"
    by (rule alloc_vip_done [OF assms(1-4)])
  note place = lvs_place_text [OF ip(1), of ?base l]
  have "ip = v4_string [a, b, c, d]" using assms(6) ip(2) place(1) by simp
  then have "lvs_port l' = ?base + int (unat d)"
    using ip(2) place(1) assms(5) by (simp add: port_of_v4)
  then have "\<not> lvs_fields_ok l'" using assms(7) by (auto simp: lvs_fields_ok_def)
  then have "fst (lvs_validate ords m l') \<noteq> None"
    using lvs_validate_accepts [of ords m l'] by (metis prod.collapse)
  then show ?thesis using ip(3) place(2) assms(5) by simp
qed

lemma alloc_vip_port_overflow_witness:
  "\<exists>l' e' i. alloc_vip (demo_ctx 65535) (demo_env [False]) demo_lb = Some (None, l', e') \<and>
     mem_view (ve_kv e') [''lb'', ''lb'', ''prod'', ''l4'', ''a''] = Some (File (lvs_marshal l') i) \<and>
     fst (lvs_validate (\<lambda>_ xs. xs) demo_groups l') \<noteq> None"
proof -
  obtain e' where run: "alloc_vip (demo_ctx 65535) (demo_env [False]) demo_lb = Some (None, demo_lb\<lparr>lvs_port := 65536\<rparr>, e')"
    using demo_alloc [of 65536 65535] by auto
  have "v4_string [10, 0, 0, 1] = ''10.0.0.1''" by code_simp
  with alloc_vip_port_overflow [OF demo_setup _ _ run, of 10 0 0 1 "\<lambda>_ xs. xs" demo_groups] run
  show ?thesis by (auto simp: demo_inv demo_visible demo_lb_dir)
qed

section \<open>Recovery\<close>

text \<open>after a restart the table is rebuilt from the keys of the address cache: a service \<open>n\<close> comes
  back under its own name exactly when the name does not contain \<open>l4-\<close>, because every occurrence is
  removed from the id and not only the prefix; otherwise the entry has a shorter name.\<close>

theorem lvs_recover_names:
  assumes "is_range_order (vx_keys_ord x)" and "(''l4-'' @ n, ip) \<in> set (ve_cache e)"
  shows "\<exists>key lb. (key, lb) \<in> set (lvs_recover x e) \<and>
      key = get_store_key (vx_kv x) (lb_store_key (vx_conf x)) (lb_name (lvs_common lb)) \<and>
      lb_cluster (lvs_common lb) = lc_cluster_name (vx_conf x) \<and>
      (lb_name (lvs_common lb) = n \<longleftrightarrow> \<not> contains_str n ''l4-'') \<and>
      (contains_str n ''l4-'' \<longrightarrow> length (lb_name (lvs_common lb)) < length n)"
proof -
  let ?name = "replace_all n lvs_stick []"
  let ?lb = "new_lvs\<lparr>lvs_common := (lvs_common new_lvs)\<lparr>lb_name := ?name, lb_cluster := lc_cluster_name (vx_conf x)\<rparr>\<rparr>"
  have name: "replace_all (lvs_stick @ n) lvs_stick [] = ?name"
    by (rule trans [OF replace_all_prefix]) (simp_all add: lvs_stick_def)
  have mem: "(get_store_key (vx_kv x) (lb_store_key (vx_conf x)) ?name, ?lb) \<in> set (lvs_recover_keys x vs)"
    if "lvs_stick @ n \<in> set vs" for vs
    using that by (induction vs) (auto simp: name Let_def)
  have "lvs_stick @ n \<in> set (ipam_get_keys (vx_keys_ord x) (ve_cache e))"
    using assms range_order_set [OF assms(1)] by (force simp: ipam_get_keys_def lvs_stick_def)
  from mem [OF this] have "(get_store_key (vx_kv x) (lb_store_key (vx_conf x)) ?name, ?lb) \<in> set (lvs_recover x e)"
    by (simp add: lvs_recover_def)
  then show ?thesis
    using replace_all_eq_iff [of lvs_stick n] length_replace_all_present [of n lvs_stick]
    by (intro exI [of _ "get_store_key (vx_kv x) (lb_store_key (vx_conf x)) ?name"] exI [of _ ?lb])
      (simp add: lvs_stick_def)
qed

lemma lvs_recover_names_witness:
  "\<exists>key lb. (key, lb) \<in> set (lvs_recover (demo_ctx 10000) ((demo_env [])\<lparr>ve_cache := [(''l4-xl4-y'', ''10.0.0.1'')]\<rparr>)) \<and>
     length (lb_name (lvs_common lb)) < 6"
proof -
  have "is_range_order (vx_keys_ord (demo_ctx 10000))" by (simp add: demo_ctx_def)
  from lvs_recover_names [OF this, of "''xl4-y''" "''10.0.0.1''" "(demo_env [])\<lparr>ve_cache := [(''l4-xl4-y'', ''10.0.0.1'')]\<rparr>"]
  obtain key lb where
    "(key, lb) \<in> set (lvs_recover (demo_ctx 10000) ((demo_env [])\<lparr>ve_cache := [(''l4-xl4-y'', ''10.0.0.1'')]\<rparr>))"
    "length (lb_name (lvs_common lb)) < length ''xl4-y''" by auto
  then show ?thesis by (intro exI [of _ key] exI [of _ lb]) simp
qed

section \<open>Deletion\<close>



section \<open>The handler of an LVS node\<close>

lemma lvs_config_common:
  "lvs_config x ldr e l = Some (r, l', e') \<Longrightarrow> \<not> ldr \<Longrightarrow> l' = l \<and> ve_kv e' = ve_kv e"
  by (auto simp: lvs_config_def split: if_splits prod.splits)

lemma lvs_config_ok:
  assumes "lvs_setup x tree item" and "ipam_inv (vx_alc x) (vx_kv x) tree item (ve_kv e)"
    and "visible_name (lb_name (lvs_common l))"
  shows "\<exists>r l' e'. lvs_config x ldr e l = Some (r, l', e') \<and>
    ipam_inv (vx_alc x) (vx_kv x) tree item (ve_kv e') \<and> lvs_common l' = lvs_common l"
proof (cases ldr)
  case False
  with assms(2) show ?thesis by (auto simp: lvs_config_def split: prod.splits)
next
  case True
  show ?thesis
  proof (rule alloc_vip_cases [OF assms], goal_cases)
    case (1 err l' e')
    obtain r w where "lvs_render x (ve_os e') l' = (r, w)" by fastforce
    with 1(1,2,6) True show ?case by (cases err) (auto simp: lvs_config_def)
  qed
qed

locale lvs_node =
  fixes x :: "'s lvs_ctx" and tree :: "'s \<Rightarrow> tree" and item :: string
  assumes dirs: "lvs_setup x tree item"
begin

lemma config_inv:
  assumes "ipam_inv (vx_alc x) (vx_kv x) tree item (ve_kv e)" and "visible_name (ilb_name (lvs_impl x) l)"
  shows "\<exists>r l' e'. ilb_config (lvs_impl x) ldr e l = Some (r, l', e') \<and>
    ipam_inv (vx_alc x) (vx_kv x) tree item (ve_kv e') \<and>
    ilb_name (lvs_impl x) l' = ilb_name (lvs_impl x) l \<and> ilb_cluster (lvs_impl x) l' = ilb_cluster (lvs_impl x) l"
  using lvs_config_ok [OF dirs assms(1), of l ldr] assms(2)
  by (auto simp: lvs_impl_def get_name_def get_cluster_name_def)

lemma delete_inv:
  assumes "ipam_inv (vx_alc x) (vx_kv x) tree item (ve_kv e)" and "ilb_delete (lvs_impl x) ldr e n = (r, e')"
  shows "ipam_inv (vx_alc x) (vx_kv x) tree item (ve_kv e')"
proof -
  obtain q c s where rel: "release_ip (vx_alc x) (ve_cache e) (ve_kv e) (lvs_stick @ n) = (q, c, s)"
    by (metis prod.collapse)
  from release_ip_inv(1) [OF lvs_setup_dirs(1) [OF dirs] assms(1) l4_stick rel] assms rel show ?thesis
    by (auto simp: lvs_impl_def lvs_delete_def Let_def split: prod.splits if_splits)
qed

end

sublocale lvs_node \<subseteq> svc: lb_impl "lvs_impl x" "\<lambda>e. ipam_inv (vx_alc x) (vx_kv x) tree item (ve_kv e)" visible_name
  using config_inv delete_inv
  by unfold_locales (blast, blast, simp add: lvs_impl_def lvs_reload_def)

context lvs_node begin

lemmas node_event = svc.event_syncs
lemmas node_events = svc.events_keep
lemmas node_entry = svc.event_entry

end

interpretation demo_node: lvs_node "demo_ctx 10000" mem_view demo_item
  by unfold_locales (rule demo_setup)

text \<open>C5: an event on an LVS node always ends; the invariant of \<open>ipam\<close> holds again, the table has only
  listed entries, the ones it had and the accepted ones, every accepted one under its own name and
  cluster, and leadership and cluster are as before.\<close>

theorem lvs_event_syncs:
  assumes "lvs_setup x tree item" and "base_ok b" and "distinct (map kv_key li)" and "is_range_order ord"
    and "ipam_inv (vx_alc x) (vx_kv x) tree item (ve_kv (b_env b))"
    and "\<forall>it \<in> set li. visible_name (last (split_on CHR ''/'' (kv_key it)))"
  shows "\<exists>b'. handler_event ord (lvs_impl x) li b = Some b' \<and>
    ipam_inv (vx_alc x) (vx_kv x) tree item (ve_kv (b_env b')) \<and> event_post (lvs_impl x) li b b'"
  by (rule lvs_node.node_event [OF lvs_node.intro [OF assms(1)] assms(2-6)])

definition demo_base :: "bool \<Rightarrow> (lvs, mem lvs_env) lb_base" where
  "demo_base ldr = (new_lb (vx_conf (demo_ctx 10000)) (demo_env [False]))\<lparr>b_leader := ldr\<rparr>"

definition demo_item_a :: "string \<Rightarrow> kvpair" where
  "demo_item_a data = \<lparr>kv_key = ''/lb/lb/prod/l4/a'', kv_value = data, kv_index = 1\<rparr>"

lemma demo_base_simps [simp]:
  "base_ok (demo_base ldr)" "b_env (demo_base ldr) = demo_env [False]" "b_leader (demo_base ldr) = ldr"
  "b_cluster (demo_base ldr) = ''c1''" "elem_view (demo_base ldr) = Map.empty"
  by (simp_all add: demo_base_def new_lb_def base_ok_def elem_view_def fun_eq_iff demo_ctx_def demo_conf_def conf_defaults_def)

lemma demo_key [simp]: "last (split_on CHR ''/'' (kv_key (demo_item_a data))) = ''a''"
  by (simp add: demo_item_a_def)

lemma lvs_event_syncs_witness:
  "\<exists>b'. handler_event rev (lvs_impl (demo_ctx 10000)) [demo_item_a (lvs_marshal demo_lb)] (demo_base True) = Some b' \<and>
     event_post (lvs_impl (demo_ctx 10000)) [demo_item_a (lvs_marshal demo_lb)] (demo_base True) b'"
  using lvs_event_syncs [OF demo_setup, of "demo_base True" "[demo_item_a (lvs_marshal demo_lb)]" rev]
  by (auto simp: demo_inv demo_visible)

text \<open>What configuring makes of a service: it stays as it is, or gets an IPv4 address and a port.\<close>

lemma lvs_config_places:
  assumes "lvs_setup x tree item" and "ipam_inv (vx_alc x) (vx_kv x) tree item (ve_kv e)"
    and "visible_name (lb_name (lvs_common l))" and "lvs_config x ldr e l = Some (r, l', e')"
  shows "l' = l \<or> (\<exists>ip. v4_text ip \<and> l' = snd (lvs_place (l4_port_base (lc_l4 (vx_conf x))) ip l))"
proof (rule alloc_vip_cases [OF assms(1-3)], goal_cases)
  case (1 err l2 e2)
  show ?case
  proof (cases "l' = l2")
    case True
    with 1(7) show ?thesis by blast
  next
    case False
    with 1(1) assms(4) show ?thesis
      by (cases err) (auto simp: lvs_config_def split: if_splits prod.splits)
  qed
qed

text \<open>An accepted entry after the event: what is in the table parses from its own record again.\<close>

lemma settled_entry:
  assumes "lvs_setup x tree item" and "base_ok b" and "distinct (map kv_key li)" and "is_range_order ord"
    and "ipam_inv (vx_alc x) (vx_kv x) tree item (ve_kv (b_env b))"
    and "\<forall>it \<in> set li. visible_name (last (split_on CHR ''/'' (kv_key it)))"
    and "\<forall>it \<in> set li. \<forall>l. lvs_parse x (kv_value it) = Some l \<longrightarrow> lvs_wf l \<and> lvs_over l = l"
    and "5000 \<le> l4_port_base (lc_l4 (vx_conf x))" and "l4_port_base (lc_l4 (vx_conf x)) \<le> 65280"
    and "handler_event ord (lvs_impl x) li b = Some b'"
    and "it \<in> set li" and "accepted (lvs_impl x) (b_cluster b) (b_env b) it = Some l"
  shows "\<exists>l'. elem_view b' (kv_key it) = Some l' \<and> (l' \<noteq> l \<longrightarrow> lvs_parse x (lvs_marshal l') = Some l') \<and>
    lvs_common l' = lvs_common l"
proof -
  have l: "lvs_parse x (kv_value it) = Some l"
    using assms(12) by (auto simp: accepted_def lvs_impl_def split: option.splits if_splits)
  have name: "visible_name (lb_name (lvs_common l))"
    using assms(6,11) accepted_name [OF assms(12)] by (auto simp: lvs_impl_def get_name_def)
  from lvs_node.node_entry [OF lvs_node.intro [OF assms(1)] assms(2-6,10-12)] show ?thesis
  proof
    assume "elem_view b' (kv_key it) = Some l"
    then show ?thesis by simp
  next
    assume "\<exists>e r l' e'. ipam_inv (vx_alc x) (vx_kv x) tree item (ve_kv e) \<and>
      ilb_config (lvs_impl x) (b_leader b) e l = Some (r, l', e') \<and> elem_view b' (kv_key it) = Some l'"
    then obtain e r l' e' where c: "ipam_inv (vx_alc x) (vx_kv x) tree item (ve_kv e)"
      "lvs_config x (b_leader b) e l = Some (r, l', e')" "elem_view b' (kv_key it) = Some l'"
      by (auto simp: lvs_impl_def)
    from lvs_config_places [OF assms(1) c(1) name c(2)] show ?thesis
    proof
      assume "l' = l"
      with c(3) show ?thesis by simp
    next
      assume "\<exists>ip. v4_text ip \<and> l' = snd (lvs_place (l4_port_base (lc_l4 (vx_conf x))) ip l)"
      then obtain ip where ip: "v4_text ip" "l' = snd (lvs_place (l4_port_base (lc_l4 (vx_conf x))) ip l)" by blast
      have "lvs_parse x (lvs_marshal l') = Some l'"
        using place_settled [OF l _ _ assms(8,9) ip] assms(7,11) l by blast
      moreover have "lvs_common l' = lvs_common l" using lvs_place_text(1) [OF ip(1)] ip(2) by simp
      ultimately show ?thesis using c(3) by blast
    qed
  qed
qed

text \<open>The value that the next listing has for an entry, when what the leader changed was written back:
  the record of the service in the table of the leader, where the leader changed it.\<close>

definition written_value ::
  "'s lvs_ctx \<Rightarrow> (lvs, 's lvs_env) lb_base \<Rightarrow> (lvs, 's lvs_env) lb_base \<Rightarrow> kvpair \<Rightarrow> string" where
  "written_value x b b' it =
     (case (accepted (lvs_impl x) (b_cluster b) (b_env b) it, elem_view b' (kv_key it)) of
        (Some l, Some l') \<Rightarrow> if l' = l then kv_value it else lvs_marshal l'
      | _ \<Rightarrow> kv_value it)"

text \<open>C15: no endless rewriting: an event on an LVS node, leading or not, ends, and whatever it did to the table, the listing that follows its own writes changes nothing: not the table, the files, the store,
  the cache or the reload flag.  That listing has the keys of the first one, in any order, and for
  every service that the leader changed the record of the leader's table, for the others the same
  record as before (\<open>written_value\<close>): the write-backs went through and nobody else wrote.  It is for a
  listing without duplicate keys, of visible names, a \<open>PortBase\<close> from 5000 to 65280, and records that,
  where they parse, have integers in range and survive encoding over the defaults (\<open>lvs_over l = l\<close>: no
  explicit zero in a field with a non-zero default).\<close>

theorem lvs_leader_settles:
  assumes "lvs_setup x tree item" and "base_ok b" and "distinct (map kv_key li)" and "is_range_order ord"
    and "ipam_inv (vx_alc x) (vx_kv x) tree item (ve_kv (b_env b))"
    and "\<forall>it \<in> set li. visible_name (last (split_on CHR ''/'' (kv_key it)))"
    and "\<forall>it \<in> set li. \<forall>l. lvs_parse x (kv_value it) = Some l \<longrightarrow> lvs_wf l \<and> lvs_over l = l"
    and "5000 \<le> l4_port_base (lc_l4 (vx_conf x))" and "l4_port_base (lc_l4 (vx_conf x)) \<le> 65280"
  shows "\<exists>b'. handler_event ord (lvs_impl x) li b = Some b' \<and>
    (\<forall>li'. list_keys li' = list_keys li \<longrightarrow>
       (\<forall>it' \<in> set li'. \<exists>it \<in> set li. kv_key it' = kv_key it \<and> kv_value it' = written_value x b b' it) \<longrightarrow>
       handler_event ord (lvs_impl x) li' b' = Some b')"
proof -
  let ?i = "lvs_impl x" and ?base = "l4_port_base (lc_l4 (vx_conf x))"
  from lvs_node.node_event [OF lvs_node.intro [OF assms(1)] assms(2-6)] obtain b' where b': "handler_event ord ?i li b = Some b'"
    and post: "event_post ?i li b b'" by blast
  have same: "accepted ?i cl e y = accepted ?i cl e' z" if "kv_key y = kv_key z" "kv_value y = kv_value z"
    for cl y z and e e' :: "'a lvs_env"
    using that by (simp add: accepted_def lvs_impl_def cong: option.case_cong)
  have "handler_event ord ?i li' b' = Some b'"
    if keys: "list_keys li' = list_keys li"
      and next_li: "\<forall>it' \<in> set li'. \<exists>it \<in> set li. kv_key it' = kv_key it \<and> kv_value it' = written_value x b b' it" for li'
  proof (rule handler_event_nothing)
    show "base_ok b'" "dom (elem_view b') \<subseteq> list_keys li'" using post keys by (auto simp: event_post_def)
    show "is_range_order ord" by (rule assms(4))
    show "\<forall>it' \<in> set li'. accepted ?i (b_cluster b') (b_env b') it' = None \<or>
        elem_view b' (kv_key it') = accepted ?i (b_cluster b') (b_env b') it'"
    proof
      fix it' assume "it' \<in> set li'"
      with next_li obtain it where it: "it \<in> set li" "kv_key it' = kv_key it" "kv_value it' = written_value x b b' it"
        by blast
      have cl: "b_cluster b' = b_cluster b" using post by (simp add: event_post_def)
      let ?acc = "accepted ?i (b_cluster b) (b_env b)"
      show "accepted ?i (b_cluster b') (b_env b') it' = None \<or>
          elem_view b' (kv_key it') = accepted ?i (b_cluster b') (b_env b') it'"
      proof (cases "?acc it")
        case None
        then have "kv_value it' = kv_value it" using it(3) by (simp add: written_value_def)
        then have "accepted ?i (b_cluster b') (b_env b') it' = ?acc it"
          unfolding cl by (rule same [OF it(2)])
        with None show ?thesis by simp
      next
        case (Some l)
        from settled_entry [OF assms b'(1) it(1) Some] obtain l' where l': "elem_view b' (kv_key it) = Some l'"
          "l' \<noteq> l \<longrightarrow> lvs_parse x (lvs_marshal l') = Some l'" "lvs_common l' = lvs_common l" by blast
        have "accepted ?i (b_cluster b') (b_env b') it' = Some l'"
        proof (cases "l' = l")
          case True
          with Some l'(1) it(3) have "kv_value it' = kv_value it" by (simp add: written_value_def)
          from same [OF it(2) this, of "b_cluster b'" "b_env b'" "b_env b"] Some True cl show ?thesis by simp
        next
          case False
          with Some l' it(2,3) cl show ?thesis
            by (auto simp: written_value_def accepted_def lvs_impl_def get_name_def get_cluster_name_def
                split: option.splits if_splits)
        qed
        with l'(1) it(2) show ?thesis by simp
      qed
    qed
  qed
  with b' show ?thesis by blast
qed

lemma lvs_leader_settles_witness:
  "\<exists>b'. handler_event rev (lvs_impl (demo_ctx 10000)) [demo_item_a (lvs_marshal demo_lb)] (demo_base True) = Some b' \<and>
     handler_event rev (lvs_impl (demo_ctx 10000))
       [demo_item_a (written_value (demo_ctx 10000) (demo_base True) b' (demo_item_a (lvs_marshal demo_lb)))] b' = Some b'"
proof -
  let ?it = "demo_item_a (lvs_marshal demo_lb)"
  have "lvs_parse (demo_ctx 10000) (kv_value ?it) = Some demo_lb" using demo_lb_parse by (simp add: demo_item_a_def)
  then have "\<forall>it \<in> set [?it]. \<forall>l. lvs_parse (demo_ctx 10000) (kv_value it) = Some l \<longrightarrow> lvs_wf l \<and> lvs_over l = l"
    using demo_lb_wf by simp
  from lvs_leader_settles [OF demo_setup _ _ _ _ _ this, of "demo_base True" rev]
  obtain b' where b': "handler_event rev (lvs_impl (demo_ctx 10000)) [?it] (demo_base True) = Some b'"
    "\<And>li'. list_keys li' = list_keys [?it] \<Longrightarrow>
       \<forall>it' \<in> set li'. \<exists>it \<in> set [?it]. kv_key it' = kv_key it \<and> kv_value it' = written_value (demo_ctx 10000) (demo_base True) b' it \<Longrightarrow>
       handler_event rev (lvs_impl (demo_ctx 10000)) li' b' = Some b'"
    by (auto simp: demo_inv demo_visible)
  from b'(2) [of "[demo_item_a (written_value (demo_ctx 10000) (demo_base True) b' ?it)]"] b'(1) show ?thesis
    by (simp add: list_keys_def) (simp add: demo_item_a_def)
qed

end
