(* ===== verification/Nginx.thy ===== *)
theory Nginx
  imports Lbsync Lbjson Tmpltext
begin

text \<open>
  \<open>pkg/lbm/nginx.go\<close>, the implementation of the interface \<open>ILB\<close> for nginx.  It works on files and
  the shell only.
\<close>

section \<open>nginx.go\<close>

definition ng_cmd :: string where
  "ng_cmd = ''/usr/sbin/nginx''"

definition ng_pid_file :: string where
  "ng_pid_file = ''/run/nginx.pid''"

definition ng_check_command :: string where
  "ng_check_command = ng_cmd @ '' -t''"

definition ng_reload_command :: string where
  "ng_reload_command = ng_cmd @ '' -s reload''"

definition ng_http_path :: "lb_conf \<Rightarrow> string" where
  "ng_http_path c = path_join [lc_conf_dir c, ''conf.d'']"

definition ng_stream_path :: "lb_conf \<Rightarrow> string" where
  "ng_stream_path c = path_join [lc_conf_dir c, ''stream.conf.d'']"

definition nginx_parse :: "string \<Rightarrow> nginx option" where
  "nginx_parse data =
     (case nginx_unmarshal data new_nginx of
        None \<Rightarrow> None
      | Some n \<Rightarrow>
          (case nginx_validate n of
             (Some e, n') \<Rightarrow> None
           | (None, n') \<Rightarrow> Some n'))"

definition nginx_config_file :: "lb_conf \<Rightarrow> string \<Rightarrow> string \<Rightarrow> string" where
  "nginx_config_file c tp name =
     (let file_path = (if tp \<noteq> ''HTTP'' then ng_stream_path c else ng_http_path c)
      in path_join [file_path, name @ ''.conf''])"

definition nginx_config :: "lb_conf \<Rightarrow> os \<Rightarrow> nginx \<Rightarrow> bool \<times> nginx \<times> os" where
  "nginx_config c w n =
     (let (r, w') = render_service w (nginx_config_file c (lb_protocol (ng_common n)) (lb_name (ng_common n)))
         nginx_template (nginx_value n)
      in (r, n, w'))"

lemma nginx_config_eq:
  "nginx_config c w n =
     (let (r, w') = lb_render w (nginx_config_file c (lb_protocol (ng_common n)) (lb_name (ng_common n))) (nginx_tmpl n)
      in (r, n, w'))"
  by (simp add: nginx_config_def render_service_eq [OF run_nginx_template])

text \<open>The loop of \<open>DeleteService\<close> over the two kinds of path.\<close>

fun nginx_delete_loop :: "lb_conf \<Rightarrow> string \<Rightarrow> string list \<Rightarrow> os \<Rightarrow> bool \<times> os" where
  "nginx_delete_loop c name [] w = (False, w)"
| "nginx_delete_loop c name (p # ps) w =
     (if fst (is_file_exist w (nginx_config_file c p name)) then delete_file w (nginx_config_file c p name)
      else nginx_delete_loop c name ps w)"

definition nginx_delete :: "lb_conf \<Rightarrow> os \<Rightarrow> string \<Rightarrow> bool \<times> os" where
  "nginx_delete c w name = nginx_delete_loop c name [''HTTP'', ''L4''] w"

definition nginx_reload :: "os \<Rightarrow> os" where
  "nginx_reload w =
     (case shell_out w ng_check_command of
        (Some e, w') \<Rightarrow> w'
      | (None, w') \<Rightarrow> snd (shell_out w' ng_reload_command))"

definition nginx_recover :: "os \<Rightarrow> (string \<times> nginx) list" where
  "nginx_recover w = []"

text \<open>\<open>Init\<close>: \<open>None\<close> is the fatal exit.\<close>

definition nginx_init :: "os \<Rightarrow> os option" where
  "nginx_init w =
     (if check_thread_exist w ng_pid_file ng_cmd then Some w
      else case shell_out w ng_cmd of (Some e, w') \<Rightarrow> None | (None, w') \<Rightarrow> Some w')"

definition nginx_impl :: "lb_conf \<Rightarrow> (nginx, os) ilb" where
  "nginx_impl c =
     \<lparr>ilb_name = (\<lambda>n. get_name (ng_common n)),
      ilb_cluster = (\<lambda>n. get_cluster_name (ng_common n)),
      ilb_parse = (\<lambda>w key data. nginx_parse data),
      ilb_config = (\<lambda>leader w n. Some (nginx_config c w n)),
      ilb_delete = (\<lambda>leader w name. nginx_delete c w name),
      ilb_reload = nginx_reload,
      ilb_recover = nginx_recover\<rparr>"

section \<open>Reload\<close>

text \<open>nginx is told to reload only after it has accepted the files: whatever the shell does, the
  reload command runs at most once, directly after a check that ended without an error.\<close>

theorem nginx_reload_checked:
  "(os_shell w (os_ran w) ''/usr/sbin/nginx -t'' = Exit 0 \<and>
      (\<exists>after. os_ran (nginx_reload w) = os_ran w @ [''/usr/sbin/nginx -t''] @ after \<and>
         (after = [] \<or> after = [''/usr/sbin/nginx -s reload'']))) \<or>
   (os_shell w (os_ran w) ''/usr/sbin/nginx -t'' \<noteq> Exit 0 \<and> ''/usr/sbin/nginx -s reload'' \<notin> set (drop (length (os_ran w)) (os_ran (nginx_reload w))))"
  by (auto simp: nginx_reload_def shell_out_def ng_check_command_def ng_reload_command_def ng_cmd_def
      split: sh_outcome.splits)

section \<open>Files\<close>

lemma clean_dir_join:
  assumes "clean_dir d" and "s \<noteq> []" and "s \<noteq> ''.''" and "s \<noteq> ''..''" and "CHR ''/'' \<notin> set s"
  shows "path_join [d, s] = d @ CHR ''/'' # s" and "clean_dir (d @ CHR ''/'' # s)"
proof -
  from assms(1) obtain cs where cs: "cs \<noteq> []"
    "\<forall>c \<in> set cs. c \<noteq> [] \<and> c \<noteq> ''.'' \<and> c \<noteq> ''..'' \<and> CHR ''/'' \<notin> set c" "d = CHR ''/'' # join_with CHR ''/'' cs"
    by (auto simp: clean_dir_def)
  have e: "d @ CHR ''/'' # s = CHR ''/'' # join_with CHR ''/'' (cs @ [s])"
    using cs(1,3) by (simp add: join_snoc)
  have all: "\<forall>c \<in> set (cs @ [s]). c \<noteq> [] \<and> c \<noteq> ''.'' \<and> c \<noteq> ''..'' \<and> CHR ''/'' \<notin> set c"
    using cs(2) assms(2-5) by simp
  show "clean_dir (d @ CHR ''/'' # s)"
    unfolding clean_dir_def e using all by (intro exI [of _ "cs @ [s]"]) simp
  have "split_on CHR ''/'' (CHR ''/'' # join_with CHR ''/'' (cs @ [s])) = [] # cs @ [s]"
    using split_on_append_sep [of "CHR ''/''" "[]" "join_with CHR ''/'' (cs @ [s])"]
      split_join [of "cs @ [s]" "CHR ''/''"] all by (simp add: go_string_simps)
  moreover have "clean_comps True [] ([] # cs @ [s]) = cs @ [s]"
    using clean_comps_plain [of "cs @ [s]" True "[]"] all by simp
  moreover have "join_with CHR ''/'' [d, s] = d @ CHR ''/'' # s" "d \<noteq> []" using cs(3) by simp_all
  ultimately show "path_join [d, s] = d @ CHR ''/'' # s"
    using assms(2) by (simp add: path_join_def path_clean_def e has_prefix_iff Let_def)
qed

lemma nginx_files:
  assumes "clean_dir (lc_conf_dir c)" and "CHR ''/'' \<notin> set name"
  shows "nginx_config_file c ''HTTP'' name = lc_conf_dir c @ ''/conf.d/'' @ name @ ''.conf''"
    and "tp \<noteq> ''HTTP'' \<Longrightarrow> nginx_config_file c tp name = lc_conf_dir c @ ''/stream.conf.d/'' @ name @ ''.conf''"
    and "nginx_config_file c ''HTTP'' name \<noteq> nginx_config_file c ''L4'' name"
proof -
  have h: "ng_http_path c = lc_conf_dir c @ ''/conf.d''" "clean_dir (ng_http_path c)"
    using clean_dir_join [OF assms(1), of "''conf.d''"] by (simp_all add: ng_http_path_def)
  have s: "ng_stream_path c = lc_conf_dir c @ ''/stream.conf.d''" "clean_dir (ng_stream_path c)"
    using clean_dir_join [OF assms(1), of "''stream.conf.d''"] by (simp_all add: ng_stream_path_def)
  have n: "name @ ''.conf'' \<noteq> []" "name @ ''.conf'' \<noteq> ''.''" "name @ ''.conf'' \<noteq> ''..''" "CHR ''/'' \<notin> set (name @ ''.conf'')"
    using assms(2) by (auto simp: append_eq_Cons_conv)
  show hf: "nginx_config_file c ''HTTP'' name = lc_conf_dir c @ ''/conf.d/'' @ name @ ''.conf''"
    using clean_dir_join(1) [OF h(2) n] h(1) by (simp add: nginx_config_file_def)
  show sf: "tp \<noteq> ''HTTP'' \<Longrightarrow> nginx_config_file c tp name = lc_conf_dir c @ ''/stream.conf.d/'' @ name @ ''.conf''" for tp
    using clean_dir_join(1) [OF s(2) n] s(1) by (simp add: nginx_config_file_def)
  have "nginx_config_file c ''L4'' name = lc_conf_dir c @ ''/stream.conf.d/'' @ name @ ''.conf''"
    by (rule sf) simp
  with hf show "nginx_config_file c ''HTTP'' name \<noteq> nginx_config_file c ''L4'' name" by simp
qed

text \<open>a service whose protocol changes from HTTP to TCP or UDP gets a second file and keeps the first,
  so nginx goes on serving the old definition; deleting the service then removes only the HTTP file
  and the stream file stays.\<close>

theorem nginx_protocol_change:
  assumes "clean_dir (lc_conf_dir c)" and "CHR ''/'' \<notin> set name"
    and "lb_name (ng_common h) = name" and "lb_protocol (ng_common h) = ''HTTP''"
    and "lb_name (ng_common t) = name" and "lb_protocol (ng_common t) \<noteq> ''HTTP''"
    and "os_fs w (lc_conf_dir c @ ''/conf.d/'' @ name @ ''.conf'') = None"
    and "os_fs w (lc_conf_dir c @ ''/stream.conf.d/'' @ name @ ''.conf'') = None"
    and "nginx_config c w h = (True, h', w1)" and "nginx_config c w1 t = (True, t', w2)"
  shows "os_fs w2 (lc_conf_dir c @ ''/conf.d/'' @ name @ ''.conf'') = Some (Regular (nginx_tmpl h)) \<and>
    (\<exists>w3. nginx_delete c w2 name = (True, w3) \<and>
       os_fs w3 (lc_conf_dir c @ ''/conf.d/'' @ name @ ''.conf'') = None \<and>
       os_fs w3 (lc_conf_dir c @ ''/stream.conf.d/'' @ name @ ''.conf'') = Some (Regular (nginx_tmpl t)))"
proof -
  let ?h = "lc_conf_dir c @ ''/conf.d/'' @ name @ ''.conf''"
  let ?s = "lc_conf_dir c @ ''/stream.conf.d/'' @ name @ ''.conf''"
  note files = nginx_files [OF assms(1,2)]
  have ne: "?h \<noteq> ?s" by simp
  have "lb_render w ?h (nginx_tmpl h) = (True, w1)"
    using assms(9) by (simp add: nginx_config_eq assms(3,4) files(1) split: prod.splits)
  from lb_render_new [OF assms(7) this]
  have w1: "w1 = w\<lparr>os_fs := (os_fs w)(?h \<mapsto> Regular (nginx_tmpl h))\<rparr>" and d: "\<not> os_denied w ?h" by simp_all
  have "lb_render w1 ?s (nginx_tmpl t) = (True, w2)"
    using assms(10) by (simp add: nginx_config_eq assms(5) files(2) [OF assms(6)] split: prod.splits)
  moreover have "os_fs w1 ?s = None" using assms(8) by (simp add: w1)
  ultimately have w2: "w2 = w1\<lparr>os_fs := (os_fs w1)(?s \<mapsto> Regular (nginx_tmpl t))\<rparr>"
    using lb_render_new by blast
  have h2: "os_fs w2 ?h = Some (Regular (nginx_tmpl h))" "\<not> os_denied w2 ?h"
    using d by (simp_all add: w2 w1)
  from stat_regular [OF h2] h2(1)
  have "nginx_delete c w2 name = (True, w2\<lparr>os_fs := (os_fs w2)(?h := None)\<rparr>)"
    by (simp add: nginx_delete_def files(1) delete_file_eq is_file_exist_def)
  with h2(1) ne show ?thesis by (simp add: w2)
qed

definition nginx_os :: os where
  "nginx_os = \<lparr>os_fs = [''/etc/lb/conf.d'' \<mapsto> Folder, ''/etc/lb/stream.conf.d'' \<mapsto> Folder],
     os_denied = (\<lambda>p. False), os_shell = (\<lambda>ran cmd. Exit 0), os_ran = []\<rparr>"

lemma demo_clean_dir: "clean_dir (lc_conf_dir demo_conf)"
  unfolding clean_dir_def by (rule exI [of _ "[''etc'', ''lb'']"]) (simp add: demo_conf_def)

lemma demo_render:
  assumes "os_fs w p = None" "os_fs w (parent_path p) = Some Folder" "\<forall>q. \<not> os_denied w q"
  shows "lb_render w p c = (True, w\<lparr>os_fs := (os_fs w)(p \<mapsto> Regular c)\<rparr>)"
  using assms
  by (simp add: lb_render_def write_content_def os_read_file_def os_write_file_def max_links_def eval_nat_numeral)

lemma nginx_protocol_change_witness:
  "\<exists>w1 w2 w3. nginx_config demo_conf nginx_os demo_site = (True, demo_site, w1) \<and>
     nginx_config demo_conf w1 (demo_site\<lparr>ng_common := (ng_common demo_site)\<lparr>lb_protocol := ''TCP''\<rparr>\<rparr>)
       = (True, demo_site\<lparr>ng_common := (ng_common demo_site)\<lparr>lb_protocol := ''TCP''\<rparr>\<rparr>, w2) \<and>
     nginx_delete demo_conf w2 ''a'' = (True, w3) \<and>
     os_fs w3 ''/etc/lb/stream.conf.d/a.conf'' \<noteq> None"
proof -
  let ?t = "demo_site\<lparr>ng_common := (ng_common demo_site)\<lparr>lb_protocol := ''TCP''\<rparr>\<rparr>"
  have f: "nginx_config_file demo_conf ''HTTP'' ''a'' = ''/etc/lb/conf.d/a.conf''"
    "nginx_config_file demo_conf ''TCP'' ''a'' = ''/etc/lb/stream.conf.d/a.conf''"
    using nginx_files(1,2) [OF demo_clean_dir, of "''a''"] by (simp_all add: demo_conf_def)
  have n: "lb_name (ng_common demo_site) = ''a''" "lb_protocol (ng_common demo_site) = ''HTTP''"
    by (simp_all add: demo_site_def new_nginx_def)
  obtain w1 where w1: "nginx_config demo_conf nginx_os demo_site = (True, demo_site, w1)"
    "w1 = nginx_os\<lparr>os_fs := (os_fs nginx_os)(''/etc/lb/conf.d/a.conf'' \<mapsto> Regular (nginx_tmpl demo_site))\<rparr>"
    using demo_render [of nginx_os "''/etc/lb/conf.d/a.conf''" "nginx_tmpl demo_site"]
    by (auto simp: nginx_config_eq n f nginx_os_def parent_path_def)
  obtain w2 where w2: "nginx_config demo_conf w1 ?t = (True, ?t, w2)"
    using demo_render [of w1 "''/etc/lb/stream.conf.d/a.conf''" "nginx_tmpl ?t"]
    by (auto simp: nginx_config_eq n f w1(2) nginx_os_def parent_path_def)
  from nginx_protocol_change [OF demo_clean_dir _ n(1,2) _ _ _ _ w1(1) w2] w1(1) w2 show ?thesis
    by (auto simp: n nginx_os_def demo_conf_def)
qed

section \<open>Start\<close>

text \<open>\<open>Init\<close> starts nginx exactly when no process of it is found, and ends the program when that
  fails.\<close>

theorem nginx_init_outcome:
  "nginx_init w = (if check_thread_exist w ''/run/nginx.pid'' ''/usr/sbin/nginx'' then Some w
     else if os_shell w (os_ran w) ''/usr/sbin/nginx'' = Exit 0
          then Some (w\<lparr>os_ran := os_ran w @ [''/usr/sbin/nginx'']\<rparr>) else None)"
  by (auto simp: nginx_init_def shell_out_def ng_cmd_def ng_pid_file_def split: sh_outcome.splits)

section \<open>The handler of an nginx node\<close>

interpretation ngx: lb_impl "nginx_impl c" "\<lambda>_. True" "\<lambda>_. True" for c
  by unfold_locales (auto simp: nginx_impl_def nginx_config_eq split: prod.splits)

text \<open>C22: on an nginx node every sequence of events is handled to its end (or to the closing of the
  channel); each event leaves in the table only listed entries, the ones it had and the accepted
  ones, every accepted one under its own name.\<close>

theorem nginx_events_sync:
  assumes "base_ok b" and "is_range_order ord"
    and "\<forall>li. Some li \<in> set (evs @ [Some l]) \<longrightarrow> distinct (map kv_key li)" and "None \<notin> set evs"
  shows "\<exists>b1 b2. handle_events ord (nginx_impl c) evs b = Some b1 \<and>
    handle_events ord (nginx_impl c) (evs @ [Some l]) b = Some b2 \<and> event_post (nginx_impl c) l b1 b2"
proof -
  from ngx.events_keep [OF assms(1,2), of evs] assms(3)
  obtain b1 where b1: "handle_events ord (nginx_impl c) evs b = Some b1" "base_ok b1" by auto
  from ngx.event_syncs [OF b1(2) _ assms(2), of l] assms(3)
  obtain b2 where b2: "handler_event ord (nginx_impl c) l b1 = Some b2" "event_post (nginx_impl c) l b1 b2" by auto
  have "handle_events ord (nginx_impl c) (evs @ [Some l]) b = Some b2"
    using assms(4) b1(1)
  proof (induction evs arbitrary: b)
    case Nil
    then show ?case by (simp add: b2(1))
  next
    case (Cons ev evs)
    then show ?case by (cases ev) (auto split: option.splits)
  qed
  with b1(1) b2(2) show ?thesis by blast
qed

lemma nginx_events_sync_witness:
  "\<exists>b2. handle_events (\<lambda>xs. xs) (nginx_impl demo_conf) [Some [], Some []] (new_lb demo_conf nginx_os) = Some b2 \<and>
     elem_view b2 = Map.empty"
proof -
  have "base_ok (new_lb demo_conf nginx_os)" by (simp add: new_lb_def base_ok_def)
  from nginx_events_sync [OF this range_order_id, of "[Some []]" "[]" demo_conf] show ?thesis
    by (auto simp: event_post_def list_keys_def)
qed

end
