(* ===== verification/Lbimpl.thy ===== *)
theory Lbimpl
  imports Lvs Nginx
begin

text \<open>
  The choice of the implementation (\<open>New\<close> of \<open>pkg/lbm/ilb.go\<close>) and the promises of the event handler
  that hold of every implementation, with examples on the two there are.
\<close>

section \<open>ilb.go\<close>

datatype 's handler = LvsHandler "'s lvs_ctx" | NginxHandler lb_conf

definition new_handler :: "'s lvs_ctx \<Rightarrow> string \<Rightarrow> 's handler" where
  "new_handler x t = (if t = ''l4'' then LvsHandler x else NginxHandler (vx_conf x))"

section \<open>The handler\<close>

text \<open>C4: refinement: on a table whose keys share no object, an event does to the table seen as a map
  from keys to services, and to the environment, what the specification \<open>sync\<close> says: the accepted
  entries that differ are configured in the order of the listing, the keys that are not listed are
  removed and their services deleted, and there is one reload if any of these asked for it.\<close>

theorem handler_event_refines:
  assumes "base_ok b" and "distinct (map kv_key li)" and "is_range_order ord"
  shows "\<exists>ks. distinct ks \<and> set ks = dom (elem_view b) - list_keys li \<and>
    map_option (\<lambda>b'. (elem_view b', b_env b')) (handler_event ord i li b)
      = sync i li (b_leader b) (b_cluster b) ks (elem_view b) (b_env b)"
  using handler_event_cases [OF assms, of i] by blast

lemma handler_event_refines_witness:
  "map_option (\<lambda>b'. (elem_view b', b_env b')) (handler_event rev (nginx_impl demo_conf) [] (new_lb demo_conf nginx_os))
     = sync (nginx_impl demo_conf) [] False ''c1'' [] Map.empty nginx_os"
proof -
  have b: "base_ok (new_lb demo_conf nginx_os)" "elem_view (new_lb demo_conf nginx_os) = Map.empty"
    by (simp_all add: new_lb_def base_ok_def elem_view_def fun_eq_iff)
  from handler_event_refines [OF b(1), of "[]" rev "nginx_impl demo_conf"] show ?thesis
    by (simp add: b(2)) (simp add: new_lb_def demo_conf_def conf_defaults_def)
qed

text \<open>an event whose listing holds what the table holds changes nothing: no configuration, no
  deletion, no reload, whatever other entries are listed that this node does not accept.\<close>

theorem handler_event_quiet:
  assumes "base_ok b" and "is_range_order ord" and "dom (elem_view b) \<subseteq> list_keys li"
    and "\<forall>it \<in> set li. accepted i (b_cluster b) (b_env b) it = None \<or>
      elem_view b (kv_key it) = accepted i (b_cluster b) (b_env b) it"
  shows "handler_event ord i li b = Some b"
  by (rule handler_event_nothing [OF assms])

definition demo_table :: "(lvs, mem lvs_env) lb_base" where
  "demo_table = (demo_base False)\<lparr>b_heap := [demo_lb], b_elem := [(''/lb/lb/prod/l4/a'', 0)]\<rparr>"

lemma demo_table_simps [simp]:
  "base_ok demo_table" "b_cluster demo_table = ''c1''" "elem_view demo_table = [''/lb/lb/prod/l4/a'' \<mapsto> demo_lb]"
  by (simp_all add: demo_table_def demo_base_def new_lb_def base_ok_def elem_view_def fun_eq_iff demo_ctx_def
      demo_conf_def conf_defaults_def)

lemma demo_accepted:
  "accepted (lvs_impl (demo_ctx base)) ''c1'' e (demo_item_a (lvs_marshal demo_lb)) = Some demo_lb"
proof -
  have "lb_cluster (lvs_common demo_lb) = ''c1''" by (simp add: demo_lb_def demo_svc_def)
  then show ?thesis
    using demo_lb_parse [of base] demo_key [of "lvs_marshal demo_lb"]
    by (simp add: accepted_def lvs_impl_def get_name_def get_cluster_name_def) (simp add: demo_item_a_def)
qed

lemma demo_refused: "accepted (lvs_impl (demo_ctx base)) cl e (demo_item_a []) = None"
proof -
  have "json_parse [] = None" by (simp add: json_parse_def skip_ws_def)
  then show ?thesis by (simp add: accepted_def lvs_impl_def lvs_parse_def lvs_unmarshal_def demo_item_a_def)
qed

lemma handler_event_quiet_witness:
  "handler_event rev (lvs_impl (demo_ctx 10000)) [demo_item_a (lvs_marshal demo_lb)] demo_table = Some demo_table"
  by (rule handler_event_quiet) (simp_all add: demo_accepted, simp_all add: list_keys_def demo_item_a_def)

text \<open>C38: an entry that was accepted and whose record is now refused (it does not parse, or it has moved
  to another cluster) keeps its old service in the table: it is not deleted, so the node goes on
  serving it.\<close>

theorem refused_entry_stays:
  assumes "base_ok b" and "distinct (map kv_key li)" and "is_range_order ord"
    and "it \<in> set li" and "accepted i (b_cluster b) (b_env b) it = None"
    and "handler_event ord i li b = Some b'"
  shows "elem_view b' (kv_key it) = elem_view b (kv_key it)"
  by (rule refused_entry_kept [OF assms])

lemma refused_entry_stays_witness:
  "\<exists>b'. handler_event rev (lvs_impl (demo_ctx 10000)) [demo_item_a []] demo_table = Some b' \<and>
     elem_view b' ''/lb/lb/prod/l4/a'' = Some demo_lb"
proof -
  have inv: "ipam_inv (vx_alc (demo_ctx 10000)) (vx_kv (demo_ctx 10000)) mem_view demo_item (ve_kv (b_env demo_table))"
    by (simp add: demo_table_def demo_inv)
  obtain b' where run: "handler_event rev (lvs_impl (demo_ctx 10000)) [demo_item_a []] demo_table = Some b'"
    using demo_node.node_event [of demo_table "[demo_item_a []]" rev] inv demo_visible
    by (auto simp del: demo_ctx_simps)
  from refused_entry_stays [OF _ _ _ _ _ run, of "demo_item_a []"] run demo_refused show ?thesis
    by (simp add: demo_item_a_def)
qed

end
