(* ===== verification/Etcdlock.thy ===== *)
theory Etcdlock
  imports Backend
begin

text \<open>
  \<open>pkg/leader/etcdlock.go\<close>: the resource lock of the leader election, a record in the store that is
  written with compare-and-swap on the pair last read.  The JSON form of the record, with its times,
  is client-go's: its encoder and decoder are parameters.  A group of nodes that read and write the
  lock, with anything else going on in the store, is a transition system.
\<close>

section \<open>etcdlock.go\<close>

record election_record =
  er_holder :: string
  er_lease_seconds :: int
  er_acquire :: int
  er_renew :: int
  er_transitions :: int

record etcd_lock =
  el_item :: string
  el_key :: string
  el_identity :: string
  el_pair :: "kvpair option"

datatype lock_error = LockNotFound | LockStore go_error | LockBadRecord | LockNoPair

definition lock_new :: "string \<Rightarrow> string \<Rightarrow> string \<Rightarrow> etcd_lock" where
  "lock_new catalog name identity =
     \<lparr>el_item = ''election'' @ ''/'' @ catalog @ ''/'', el_key = name, el_identity = identity, el_pair = None\<rparr>"

definition lock_get ::
  "(string \<Rightarrow> election_record option) \<Rightarrow> 's kv_store \<Rightarrow> etcd_lock \<Rightarrow> 's \<Rightarrow>
   (lock_error + election_record) \<times> etcd_lock \<times> 's" where
  "lock_get dec kv l s =
     (case kv_read_obj kv s (el_item l) (el_key l) of
        (Inl e, s') \<Rightarrow>
          (Inl (if e = ErrKeyNotFound then LockNotFound else LockStore e), l\<lparr>el_pair := None\<rparr>, s')
      | (Inr p, s') \<Rightarrow>
          ((case dec (kv_value p) of None \<Rightarrow> Inl LockBadRecord | Some r \<Rightarrow> Inr r), l\<lparr>el_pair := Some p\<rparr>, s'))"

text \<open>Both writes replace the pair by what \<open>WriteAtomic\<close> returns, nil on an error.\<close>

definition lock_write ::
  "(election_record \<Rightarrow> string) \<Rightarrow> 's kv_store \<Rightarrow> kvpair option \<Rightarrow> etcd_lock \<Rightarrow> 's \<Rightarrow> election_record \<Rightarrow>
   (lock_error + unit) \<times> etcd_lock \<times> 's" where
  "lock_write enc kv previous l s r =
     (case kv_write_atomic kv s (el_item l) (el_key l) (enc r) previous None of
        (Inl e, s') \<Rightarrow> (Inl (LockStore e), l\<lparr>el_pair := None\<rparr>, s')
      | (Inr p, s') \<Rightarrow> (Inr (), l\<lparr>el_pair := Some p\<rparr>, s'))"

definition lock_create ::
  "(election_record \<Rightarrow> string) \<Rightarrow> 's kv_store \<Rightarrow> etcd_lock \<Rightarrow> 's \<Rightarrow> election_record \<Rightarrow>
   (lock_error + unit) \<times> etcd_lock \<times> 's" where
  "lock_create enc kv l s r = lock_write enc kv None l s r"

definition lock_update ::
  "(election_record \<Rightarrow> string) \<Rightarrow> 's kv_store \<Rightarrow> etcd_lock \<Rightarrow> 's \<Rightarrow> election_record \<Rightarrow>
   (lock_error + unit) \<times> etcd_lock \<times> 's" where
  "lock_update enc kv l s r =
     (case el_pair l of None \<Rightarrow> (Inl LockNoPair, l, s) | Some p \<Rightarrow> lock_write enc kv (Some p) l s r)"

definition lock_record_event :: "etcd_lock \<Rightarrow> string \<Rightarrow> etcd_lock" where
  "lock_record_event l msg = l"

definition lock_describe :: "etcd_lock \<Rightarrow> string" where
  "lock_describe l = el_item l @ el_key l"

definition lock_identity :: "etcd_lock \<Rightarrow> string" where
  "lock_identity l = el_identity l"

section \<open>One operation\<close>

text \<open>A lock over a directory of a store that keeps the contract.\<close>

definition lock_setup :: "'s kv_store \<Rightarrow> ('s \<Rightarrow> tree) \<Rightarrow> etcd_lock \<Rightarrow> bool" where
  "lock_setup kv tree l \<longleftrightarrow> kv_dir kv tree (el_item l) \<and> visible_name (el_key l)"

definition lock_path :: "'s kv_store \<Rightarrow> etcd_lock \<Rightarrow> string list" where
  "lock_path kv l = item_path kv (el_item l) @ [el_key l]"

lemma lock_key:
  assumes "lock_setup kv tree l"
  shows "etcd_service (kvs_api kv) tree" and "plain_key (get_store_key kv (el_item l) (el_key l))"
    and "keypath (get_store_key kv (el_item l) (el_key l)) = lock_path kv l"
proof -
  from assms have d: "kv_dir kv tree (el_item l)" "visible_name (el_key l)" by (simp_all add: lock_setup_def)
  from d(1) show "etcd_service (kvs_api kv) tree" by (simp add: kv_dir_def)
  from kv_dir.plain(1) [OF d] show "plain_key (get_store_key kv (el_item l) (el_key l))" .
  from kv_dir.path [OF d(1), of "el_key l"] d(2)
  show "keypath (get_store_key kv (el_item l) (el_key l)) = lock_path kv l"
    by (simp add: lock_path_def visible_plain)
qed

lemma lock_get_frame:
  assumes "lock_setup kv tree l" and "lock_get dec kv l s = (r, l', s')"
  shows "tree s' = tree s"
    and "el_item l' = el_item l" and "el_key l' = el_key l" and "el_identity l' = el_identity l"
    and "el_pair l' = Some p \<Longrightarrow> tree s (lock_path kv l) = Some (File v i) \<Longrightarrow> kv_index p = i \<and> kv_value p = v"
    and "el_pair l' = Some p \<Longrightarrow> tree s (lock_path kv l) \<noteq> None"
proof -
  note K = lock_key [OF assms(1)]
  note G = etcd_service.lk_get_Inr [OF K(1,2)] etcd_service.lk_get_Inl [OF K(1,2)]
  show "tree s' = tree s" "el_item l' = el_item l" "el_key l' = el_key l" "el_identity l' = el_identity l"
    using assms(2) G(1,5) by (auto simp: lock_get_def kv_read_obj_def split: prod.splits sum.splits)
  show "kv_index p = i \<and> kv_value p = v" if "el_pair l' = Some p" "tree s (lock_path kv l) = Some (File v i)"
    using assms(2) that G(3) K(3) by (auto simp: lock_get_def kv_read_obj_def split: prod.splits sum.splits)
  show "tree s (lock_path kv l) \<noteq> None" if "el_pair l' = Some p"
    using assms(2) that G(4) K(3) by (auto simp: lock_get_def kv_read_obj_def split: prod.splits sum.splits)
qed

text \<open>A write that reports success was based on the entry in the store; one that reports an error did
  nothing, or took effect all the same, and then on the same terms.\<close>

lemma lock_write_cases:
  assumes "lock_setup kv tree l" and "lock_write enc kv previous l s r = (res, l', s')"
  shows "el_item l' = el_item l \<and> el_key l' = el_key l \<and> el_identity l' = el_identity l"
    and "res = Inr u \<Longrightarrow> \<exists>p. el_pair l' = Some p \<and> kv_value p = enc r \<and>
      conditional_put (tree s) (lock_path kv l) previous (enc r) (kv_index p) (tree s')"
    and "res = Inl e \<Longrightarrow> el_pair l' = None \<and>
      (tree s' = tree s \<or> (\<exists>i. conditional_put (tree s) (lock_path kv l) previous (enc r) i (tree s')))"
proof -
  note K = lock_key [OF assms(1)]
  note A = etcd_service.lk_atomic_put_Inr [OF K(1,2), unfolded K(3)]
    etcd_service.lk_atomic_put_Inl [OF K(1,2), unfolded K(3)]
  show "el_item l' = el_item l \<and> el_key l' = el_key l \<and> el_identity l' = el_identity l"
    using assms(2) by (auto simp: lock_write_def split: prod.splits sum.splits)
  show "\<exists>p. el_pair l' = Some p \<and> kv_value p = enc r \<and>
      conditional_put (tree s) (lock_path kv l) previous (enc r) (kv_index p) (tree s')" if "res = Inr u"
    using assms(2) that A(1) by (fastforce simp: lock_write_def kv_write_atomic_def split: prod.splits sum.splits)
  show "el_pair l' = None \<and>
      (tree s' = tree s \<or> (\<exists>i. conditional_put (tree s) (lock_path kv l) previous (enc r) i (tree s')))" if "res = Inl e"
    using assms(2) that A(2) by (fastforce simp: lock_write_def kv_write_atomic_def split: prod.splits sum.splits)
qed

lemma lock_update_run:
  "lock_update enc kv l s r = (Inr u, l', s') \<Longrightarrow>
     \<exists>p. el_pair l = Some p \<and> lock_write enc kv (Some p) l s r = (Inr u, l', s')"
  by (auto simp: lock_update_def split: option.splits)

lemma update_cas:
  assumes "lock_setup kv tree l" and "lock_update enc kv l s r = (Inr u, l', s')"
    and "\<forall>p. el_pair l = Some p \<longrightarrow> kv_index p \<noteq> 0 \<and> kv_value p \<noteq> []"
  shows "\<exists>p q. el_pair l = Some p \<and> tree s (lock_path kv l) = Some (File (kv_value p) (kv_index p)) \<and>
    el_pair l' = Some q \<and> kv_value q = enc r \<and> kv_index p < kv_index q \<and>
    tree s' (lock_path kv l) = Some (File (enc r) (kv_index q))"
proof -
  obtain p where p: "el_pair l = Some p" "lock_write enc kv (Some p) l s r = (Inr u, l', s')"
    using lock_update_run [OF assms(2)] by blast
  obtain q where q: "el_pair l' = Some q" "kv_value q = enc r"
    "conditional_put (tree s) (lock_path kv l) (Some p) (enc r) (kv_index q) (tree s')"
    using lock_write_cases(2) [OF assms(1) p(2)] by blast
  from q(3) assms(3) p(1) have "tree s (lock_path kv l) = Some (File (kv_value p) (kv_index p))"
    by (auto simp: conditional_put_def based_on_def has_index_def has_value_def split: option.splits entry.splits)
  moreover from this q(3) have "kv_index p < kv_index q"
    by (auto simp: conditional_put_def fresh_index_def)
  moreover have "tree s' (lock_path kv l) = Some (File (enc r) (kv_index q))"
    using q(3) by (auto simp: conditional_put_def dest: set_at_same)
  ultimately show ?thesis using p(1) q(1,2) by blast
qed

text \<open>compare and swap: when \<open>Update\<close> succeeds, the record in the store was, up to that moment,
  exactly the one the lock read last; afterwards it is the new one, under a new index, which the
  lock keeps.  A lock that read nothing cannot update.\<close>

theorem lock_update_cas:
  assumes "lock_setup kv tree l" and "lock_update enc kv l s r = (Inr u, l', s')"
    and "\<forall>p. el_pair l = Some p \<longrightarrow> kv_index p \<noteq> 0 \<and> kv_value p \<noteq> []"
  shows "\<exists>p q. el_pair l = Some p \<and> tree s (lock_path kv l) = Some (File (kv_value p) (kv_index p)) \<and>
    el_pair l' = Some q \<and> kv_value q = enc r \<and> kv_index p < kv_index q \<and>
    tree s' (lock_path kv l) = Some (File (enc r) (kv_index q))"
  using assms by (rule update_cas)

section \<open>Many nodes\<close>

text \<open>\<open>ec_acked\<close> is the history of the writes that were acknowledged, latest first: the index the write
  was based on, if any, and the one it got.\<close>

record ('n, 's) election =
  ec_locks :: "'n \<Rightarrow> etcd_lock"
  ec_store :: 's
  ec_acked :: "(nat option \<times> nat) list"

definition acked_by :: "lock_error + unit \<Rightarrow> kvpair option \<Rightarrow> etcd_lock \<Rightarrow> (nat option \<times> nat) list" where
  "acked_by res previous l =
     (case (res, el_pair l) of (Inr _, Some q) \<Rightarrow> [(map_option kv_index previous, kv_index q)] | _ \<Rightarrow> [])"

inductive election_step ::
  "(election_record \<Rightarrow> string) \<Rightarrow> (string \<Rightarrow> election_record option) \<Rightarrow> 's kv_store \<Rightarrow> ('s \<Rightarrow> tree) \<Rightarrow>
   string list \<Rightarrow> ('n, 's) election \<Rightarrow> ('n, 's) election \<Rightarrow> bool"
  for enc dec kv tree path where
  reads: "lock_get dec kv (ec_locks c n) (ec_store c) = (r, l', s') \<Longrightarrow>
    election_step enc dec kv tree path c (c\<lparr>ec_locks := (ec_locks c)(n := l'), ec_store := s'\<rparr>)"
| creates: "lock_create enc kv (ec_locks c n) (ec_store c) r = (res, l', s') \<Longrightarrow>
    election_step enc dec kv tree path c (c\<lparr>ec_locks := (ec_locks c)(n := l'), ec_store := s',
      ec_acked := acked_by res None l' @ ec_acked c\<rparr>)"
| updates: "lock_update enc kv (ec_locks c n) (ec_store c) r = (res, l', s') \<Longrightarrow>
    election_step enc dec kv tree path c (c\<lparr>ec_locks := (ec_locks c)(n := l'), ec_store := s',
      ec_acked := acked_by res (el_pair (ec_locks c n)) l' @ ec_acked c\<rparr>)"
| others: "tree s' path = tree (ec_store c) path \<Longrightarrow>
    election_step enc dec kv tree path c (c\<lparr>ec_store := s'\<rparr>)"

inductive election_run ::
  "(election_record \<Rightarrow> string) \<Rightarrow> (string \<Rightarrow> election_record option) \<Rightarrow> 's kv_store \<Rightarrow> ('s \<Rightarrow> tree) \<Rightarrow>
   string list \<Rightarrow> ('n, 's) election \<Rightarrow> ('n, 's) election \<Rightarrow> bool"
  for enc dec kv tree path where
  start: "election_run enc dec kv tree path c c"
| step: "election_run enc dec kv tree path c d \<Longrightarrow> election_step enc dec kv tree path d d' \<Longrightarrow>
    election_run enc dec kv tree path c d'"

text \<open>All nodes lock the same record; nobody has read it, and there is none.\<close>

definition election_initial :: "'s kv_store \<Rightarrow> ('s \<Rightarrow> tree) \<Rightarrow> string list \<Rightarrow> ('n, 's) election \<Rightarrow> bool" where
  "election_initial kv tree path c \<longleftrightarrow>
     (\<forall>n. lock_setup kv tree (ec_locks c n) \<and> lock_path kv (ec_locks c n) = path \<and> el_pair (ec_locks c n) = None) \<and>
     tree (ec_store c) path = None \<and> ec_acked c = []"

text \<open>Each acknowledged write is based on the one before it or on a later one that was not
  acknowledged, the first one on nothing.\<close>

fun chained :: "(nat option \<times> nat) list \<Rightarrow> bool" where
  "chained [] = True"
| "chained [(b, i)] = (case b of None \<Rightarrow> True | Some k \<Rightarrow> k < i)"
| "chained ((b, i) # (b', i') # h) = ((\<exists>k. b = Some k \<and> i' \<le> k \<and> k < i) \<and> chained ((b', i') # h))"

definition lock_file :: "tree \<Rightarrow> string list \<Rightarrow> nat \<Rightarrow> bool" where
  "lock_file t p j \<longleftrightarrow> (\<exists>v. t p = Some (File v j))"

definition election_inv :: "'s kv_store \<Rightarrow> ('s \<Rightarrow> tree) \<Rightarrow> string list \<Rightarrow> ('n, 's) election \<Rightarrow> bool" where
  "election_inv kv tree path c \<longleftrightarrow>
     (\<forall>n. lock_setup kv tree (ec_locks c n) \<and> lock_path kv (ec_locks c n) = path) \<and>
     (tree (ec_store c) path = None \<or> (\<exists>j. 0 < j \<and> lock_file (tree (ec_store c)) path j)) \<and>
     (\<forall>n p. el_pair (ec_locks c n) = Some p \<longrightarrow> 0 < kv_index p) \<and>
     (\<forall>b i h. ec_acked c = (b, i) # h \<longrightarrow> (\<exists>j \<ge> i. lock_file (tree (ec_store c)) path j)) \<and>
     chained (ec_acked c)"


lemma lock_frame_setup:
  assumes "lock_setup kv tree l" and "el_item l' = el_item l" and "el_key l' = el_key l"
  shows "lock_setup kv tree l'" and "lock_path kv l' = lock_path kv l"
  using assms by (simp_all add: lock_setup_def lock_path_def)

lemma lock_file_unique: "lock_file t p i \<Longrightarrow> lock_file t p j \<Longrightarrow> i = j"
  by (auto simp: lock_file_def)

lemma election_inv_initial: "election_initial kv tree path c \<Longrightarrow> election_inv kv tree path c"
  by (simp add: election_initial_def election_inv_def)

text \<open>What a conditional write does to the record of the group.\<close>

lemma conditional_put_lock:
  assumes "conditional_put t path previous v i t'" and "\<And>p. previous = Some p \<Longrightarrow> 0 < kv_index p"
  shows "lock_file t' path i" and "0 < i"
    and "previous = None \<Longrightarrow> t path = None"
    and "previous = Some p \<Longrightarrow> lock_file t path (kv_index p)"
    and "lock_file t path j \<Longrightarrow> j < i"
  using assms
  by (auto simp: conditional_put_def based_on_def fresh_index_def lock_file_def has_index_def
      dest: set_at_same split: option.splits entry.splits)

lemma election_write_keeps:
  assumes inv: "election_inv kv tree path c"
    and w: "lock_write enc kv previous (ec_locks c n) (ec_store c) r = (res, l', s')"
    and prev: "previous = None \<or> previous = el_pair (ec_locks c n)"
  shows "election_inv kv tree path (c\<lparr>ec_locks := (ec_locks c)(n := l'), ec_store := s',
      ec_acked := acked_by res previous l' @ ec_acked c\<rparr>)"
proof -
  from inv have locks: "\<And>m. lock_setup kv tree (ec_locks c m)" "\<And>m. lock_path kv (ec_locks c m) = path"
    and there: "tree (ec_store c) path = None \<or> (\<exists>j. 0 < j \<and> lock_file (tree (ec_store c)) path j)"
    and pairs: "\<And>m p. el_pair (ec_locks c m) = Some p \<Longrightarrow> 0 < kv_index p"
    and acked: "\<And>b i h. ec_acked c = (b, i) # h \<Longrightarrow> \<exists>j \<ge> i. lock_file (tree (ec_store c)) path j"
    and chain: "chained (ec_acked c)"
    by (simp_all add: election_inv_def)
  note W = lock_write_cases [OF locks(1) w, unfolded locks(2)]
  have pos: "\<And>p. previous = Some p \<Longrightarrow> 0 < kv_index p" using prev pairs by auto
  have l': "lock_setup kv tree l'" "lock_path kv l' = path"
    using lock_frame_setup [OF locks(1) [of n], of l'] W(1) locks(2) by simp_all
  have put: "lock_file (tree s') path i" "0 < i" "previous = None \<Longrightarrow> tree (ec_store c) path = None"
    "\<And>p. previous = Some p \<Longrightarrow> lock_file (tree (ec_store c)) path (kv_index p)"
    "\<And>j. lock_file (tree (ec_store c)) path j \<Longrightarrow> j < i"
    if "conditional_put (tree (ec_store c)) path previous (enc r) i (tree s')" for i
    using conditional_put_lock [OF that pos] by blast+
  show ?thesis
  proof (cases res)
    case (Inl e)
    from W(3) [OF Inl] have pair: "el_pair l' = None"
      and tr: "tree s' = tree (ec_store c) \<or>
        (\<exists>i. conditional_put (tree (ec_store c)) path previous (enc r) i (tree s'))" by simp_all
    have "tree s' path = None \<or> (\<exists>j. 0 < j \<and> lock_file (tree s') path j)"
      using tr there put(1,2) by metis
    moreover have "\<exists>j \<ge> i. lock_file (tree s') path j" if "ec_acked c = (b, i) # h" for b i h
      using tr acked [OF that] put(1,5) by (metis le_trans less_imp_le)
    ultimately show ?thesis using locks l' pairs chain pair Inl
      by (simp add: election_inv_def acked_by_def)
  next
    case (Inr u)
    obtain q where q: "el_pair l' = Some q"
      and cp: "conditional_put (tree (ec_store c)) path previous (enc r) (kv_index q) (tree s')"
      using W(2) [OF Inr] by blast
    have "chained ((map_option kv_index previous, kv_index q) # ec_acked c)"
    proof (cases "ec_acked c")
      case (Cons a h)
      obtain b i where a: "a = (b, i)" by (cases a)
      obtain j where j: "i \<le> j" "lock_file (tree (ec_store c)) path j" using acked Cons a by blast
      with put(3) [OF cp] obtain p where p: "previous = Some p"
        by (cases previous) (auto simp: lock_file_def)
      with put(4) [OF cp p] j have "i \<le> kv_index p" "kv_index p < kv_index q"
        using put(5) [OF cp] lock_file_unique by blast+
      with p chain Cons a show ?thesis by simp
    qed (use put(4,5) [OF cp] in \<open>auto split: option.splits\<close>)
    then show ?thesis using locks l' pairs q Inr put(1,2) [OF cp]
      by (auto simp: election_inv_def acked_by_def)
  qed
qed

lemma election_step_inv:
  assumes "election_step enc dec kv tree path c d" and "election_inv kv tree path c"
  shows "election_inv kv tree path d"
  using assms
proof cases
  case (reads n r l' s')
  from assms(2) have locks: "lock_setup kv tree (ec_locks c n)" "lock_path kv (ec_locks c n) = path"
    and there: "tree (ec_store c) path = None \<or> (\<exists>j. 0 < j \<and> lock_file (tree (ec_store c)) path j)"
    by (simp_all add: election_inv_def)
  note G = lock_get_frame [OF locks(1) reads(2), unfolded locks(2)]
  have "lock_setup kv tree l'" "lock_path kv l' = path"
    using lock_frame_setup [OF locks(1) G(2,3)] locks(2) by simp_all
  moreover have "0 < kv_index p" if "el_pair l' = Some p" for p
    using there G(5,6) [OF that] by (auto simp: lock_file_def)
  ultimately show ?thesis using assms(2) reads(1) G(1) by (simp add: election_inv_def)
next
  case (creates n r res l' s')
  then show ?thesis using election_write_keeps [OF assms(2), of enc None n r res l' s']
    by (simp add: lock_create_def)
next
  case (updates n r res l' s')
  show ?thesis
  proof (cases "el_pair (ec_locks c n)")
    case None
    with updates(2) have "res = Inl LockNoPair" "l' = ec_locks c n" "s' = ec_store c"
      by (simp_all add: lock_update_def)
    with updates(1) assms(2) show ?thesis by (simp add: acked_by_def election_inv_def)
  next
    case (Some p)
    with updates show ?thesis using election_write_keeps [OF assms(2), of enc "Some p" n r res l' s']
      by (simp add: lock_update_def)
  qed
next
  case (others s')
  with assms(2) show ?thesis by (simp add: election_inv_def lock_file_def)
qed

lemma election_run_inv:
  "election_run enc dec kv tree path c d \<Longrightarrow> election_inv kv tree path c \<Longrightarrow> election_inv kv tree path d"
  by (induction rule: election_run.induct) (auto dest: election_step_inv)

text \<open>In a chain every write is newer than the ones before, and no base is used twice.\<close>

lemma chained_bases:
  "chained ((b, i) # h) \<Longrightarrow> (b', i') \<in> set h \<Longrightarrow> \<exists>k. b = Some k \<and> i' \<le> k \<and> k < i"
proof (induction h arbitrary: b i)
  case (Cons a h)
  obtain b1 i1 where a: "a = (b1, i1)" by (cases a)
  from Cons.prems(1) a obtain k where k: "b = Some k" "i1 \<le> k" "k < i" "chained ((b1, i1) # h)" by auto
  show ?case
  proof (cases "(b', i') = a")
    case False
    with Cons.IH [OF k(4)] Cons.prems(2) have "i' < i1" by auto
    with k show ?thesis by auto
  qed (use a k in auto)
qed simp

lemma chained_base_less: "chained h \<Longrightarrow> (Some k, i) \<in> set h \<Longrightarrow> k < i"
  by (induction h rule: chained.induct) auto

lemma chained_tl: "chained (a # h) \<Longrightarrow> chained h"
  by (cases h; cases a) auto

lemma chained_distinct: "chained h \<Longrightarrow> distinct (map fst h)"
proof (induction h)
  case (Cons a h)
  obtain b i where a: "a = (b, i)" by (cases a)
  have "b \<notin> fst ` set h"
  proof
    assume "b \<in> fst ` set h"
    then obtain i' where i': "(b, i') \<in> set h" by auto
    from chained_bases [OF Cons.prems [unfolded a] i'] obtain k where k: "b = Some k" "i' \<le> k" by blast
    from chained_base_less [OF chained_tl [OF Cons.prems]] i' k have "k < i'" by blast
    with k(2) show False by simp
  qed
  with Cons a chained_tl [OF Cons.prems] show ?case by simp
qed simp

lemma election_history:
  assumes "election_initial kv tree path c" and "election_run enc dec kv tree path c d"
  shows "chained (ec_acked d) \<and> distinct (map fst (ec_acked d)) \<and>
    (\<forall>b i. (b, i) \<in> set (ec_acked d) \<longrightarrow> (\<exists>j \<ge> i. lock_file (tree (ec_store d)) path j))"
proof -
  from election_run_inv [OF assms(2) election_inv_initial [OF assms(1)]]
  have inv: "\<And>b i h. ec_acked d = (b, i) # h \<Longrightarrow> \<exists>j \<ge> i. lock_file (tree (ec_store d)) path j"
    and ch: "chained (ec_acked d)" by (simp_all add: election_inv_def)
  have "\<exists>j \<ge> i. lock_file (tree (ec_store d)) path j" if "(b, i) \<in> set (ec_acked d)" for b i
  proof (cases "ec_acked d")
    case (Cons a h)
    obtain b1 i1 where a: "a = (b1, i1)" by (cases a)
    have "i \<le> i1"
      using that Cons a ch chained_bases [of b1 i1 h b i] by fastforce
    with inv Cons a show ?thesis by (meson le_trans)
  qed (use that in simp)
  with ch chained_distinct show ?thesis by blast
qed


section \<open>The properties\<close>

text \<open>C16: no lost update: whatever the nodes of a group do, in any order and with any store errors,
  their acknowledged writes of the lock form a chain, each based on the one before or on a later
  write whose acknowledgement was lost; no two acknowledged writes were based on the same read,
  and what the store holds is never older than any of them.\<close>

theorem lock_history_chained:
  assumes "election_initial kv tree path c" and "election_run enc dec kv tree path c d"
  shows "chained (ec_acked d) \<and> distinct (map fst (ec_acked d)) \<and>
    (\<forall>b i. (b, i) \<in> set (ec_acked d) \<longrightarrow> (\<exists>j \<ge> i. lock_file (tree (ec_store d)) path j))"
  using assms by (rule election_history)

text \<open>Two nodes that play on the in-memory server.\<close>

definition node_creates :: "'n \<Rightarrow> election_record \<Rightarrow> ('n, mem) election \<Rightarrow> ('n, mem) election" where
  "node_creates n r c =
     (let (res, l', s') = lock_create er_holder demo_kv (ec_locks c n) (ec_store c) r
      in c\<lparr>ec_locks := (ec_locks c)(n := l'), ec_store := s', ec_acked := acked_by res None l' @ ec_acked c\<rparr>)"

definition node_reads :: "(string \<Rightarrow> election_record option) \<Rightarrow> 'n \<Rightarrow> ('n, mem) election \<Rightarrow> ('n, mem) election" where
  "node_reads dec n c =
     (let (r, l', s') = lock_get dec demo_kv (ec_locks c n) (ec_store c)
      in c\<lparr>ec_locks := (ec_locks c)(n := l'), ec_store := s'\<rparr>)"

definition node_updates :: "'n \<Rightarrow> election_record \<Rightarrow> ('n, mem) election \<Rightarrow> ('n, mem) election" where
  "node_updates n r c =
     (let (res, l', s') = lock_update er_holder demo_kv (ec_locks c n) (ec_store c) r
      in c\<lparr>ec_locks := (ec_locks c)(n := l'), ec_store := s',
           ec_acked := acked_by res (el_pair (ec_locks c n)) l' @ ec_acked c\<rparr>)"

lemma node_steps:
  "election_step er_holder dec demo_kv mem_view path c (node_creates n r c)"
  "election_step er_holder dec demo_kv mem_view path c (node_reads dec n c)"
  "election_step er_holder dec demo_kv mem_view path c (node_updates n r c)"
  by (auto simp: node_creates_def node_reads_def node_updates_def split: prod.splits
      intro: election_step.intros)

definition held_by :: "string \<Rightarrow> election_record" where
  "held_by n = \<lparr>er_holder = n, er_lease_seconds = 10, er_acquire = 0, er_renew = 0, er_transitions = 0\<rparr>"

definition demo_start :: "(bool, mem) election" where
  "demo_start =
     \<lparr>ec_locks = (\<lambda>n. lock_new ''prod'' ''leader'' (if n then ''a'' else ''b'')),
      ec_store = \<lparr>mem_tree = [([''lb''], Directory)], mem_index = 1, mem_faults = []\<rparr>, ec_acked = []\<rparr>"

definition demo_lock_path :: "string list" where
  "demo_lock_path = [''lb'', ''election'', ''prod'', ''leader'']"

definition demo_read :: "(bool, mem) election" where
  "demo_read = node_reads (Some \<circ> held_by) False (node_creates True (held_by ''a'') demo_start)"

definition demo_end :: "(bool, mem) election" where
  "demo_end = node_updates True (held_by ''a'') (node_updates False (held_by ''b'') demo_read)"

lemma demo_lock_setup:
  "lock_setup demo_kv mem_view (lock_new ''prod'' ''leader'' n)"
  "lock_path demo_kv (lock_new ''prod'' ''leader'' n) = demo_lock_path"
proof -
  have "kv_dir demo_kv mem_view ''election/prod/''"
    by (intro kv_dir.intro kv_dir_axioms.intro)
      (simp_all add: demo_kv_def mem.etcd_service_axioms item_ok_def plain_key_def keypath_def plain_name_def)
  then show "lock_setup demo_kv mem_view (lock_new ''prod'' ''leader'' n)"
    by (simp add: lock_setup_def lock_new_def visible_name_def plain_name_def)
  show "lock_path demo_kv (lock_new ''prod'' ''leader'' n) = demo_lock_path"
    by (simp add: lock_path_def lock_new_def item_path_def demo_kv_def demo_lock_path_def keypath_def)
qed

lemma demo_initial: "election_initial demo_kv mem_view demo_lock_path demo_start"
  using demo_lock_setup
  by (simp add: election_initial_def demo_start_def lock_new_def mem_view_def demo_lock_path_def)

lemma lock_demo_run: "election_run er_holder (Some \<circ> held_by) demo_kv mem_view demo_lock_path demo_start demo_end"
  unfolding demo_end_def demo_read_def
  by (rule election_run.step [OF election_run.step [OF election_run.step [OF election_run.step
    [OF election_run.start node_steps(1)] node_steps(2)] node_steps(3)] node_steps(3)])

lemma demo_acked: "ec_acked demo_end = [(Some 2, 3), (None, 2)]"
  by code_simp

text \<open>After both have the same pair, one update is acknowledged and the other is not.\<close>

theorem lock_history_chained_witness:
  "ec_acked demo_end = [(Some 2, 3), (None, 2)] \<and> chained (ec_acked demo_end)"
  using lock_history_chained [OF demo_initial lock_demo_run] demo_acked by blast

theorem lock_update_cas_witness:
  "\<exists>i l' s'. lock_update er_holder demo_kv (ec_locks demo_read False) (ec_store demo_read) (held_by ''b'') =
       (Inr (), l', s') \<and>
     mem_view (ec_store demo_read) demo_lock_path = Some (File ''a'' 2) \<and>
     mem_view s' demo_lock_path = Some (File ''b'' i) \<and> 2 < i"
proof -
  let ?l = "ec_locks demo_read False"
  obtain l' s' where run: "lock_update er_holder demo_kv ?l (ec_store demo_read) (held_by ''b'') = (Inr (), l', s')"
  proof -
    have "case lock_update er_holder demo_kv ?l (ec_store demo_read) (held_by ''b'') of (Inr _, _) \<Rightarrow> True | _ \<Rightarrow> False"
      by code_simp
    then show thesis by (auto intro: that split: prod.splits sum.splits)
  qed
  have pair: "el_pair ?l = Some \<lparr>kv_key = ''/lb/election/prod/leader'', kv_value = ''a'', kv_index = 2\<rparr>"
    by code_simp
  have l: "el_item ?l = ''election/prod/''" "el_key ?l = ''leader''" by code_simp+
  have s: "lock_setup demo_kv mem_view ?l" "lock_path demo_kv ?l = demo_lock_path"
    using demo_lock_setup l by (simp_all add: lock_setup_def lock_path_def lock_new_def)
  from lock_update_cas [OF s(1) run] pair s(2) run show ?thesis
    by (auto simp: held_by_def)
qed

end
