(* ===== verification/Elector.thy ===== *)
theory Elector
  imports Etcdlock
begin

text \<open>
  \<open>pkg/leader/leader.go\<close>: the start of the election, and one attempt of the elector of client-go
  (\<open>leaderelection.go\<close>) on the lock of \<open>etcdlock.go\<close>.  Times and durations are nanoseconds; the three
  readings of the clock in an attempt, and what others do to the store between its read and its
  write, are arguments.
\<close>

section \<open>leader.go\<close>

definition hb :: string where
  "hb = ''leader''"

definition second :: int where
  "second = 1000000000"

definition default_lease_duration :: int where
  "default_lease_duration = 10 * second"

definition default_renew_deadline :: int where
  "default_renew_deadline = 5 * second"

definition default_retry_period :: int where
  "default_retry_period = 2 * second"

text \<open>\<open>NewLeaderElector\<close>: the checks of the durations, with the jitter factor 1.2.\<close>

definition new_leader_elector :: "int \<Rightarrow> int \<Rightarrow> int \<Rightarrow> string option" where
  "new_leader_elector lease renew retry =
     (if lease \<le> renew then Some ''leaseDuration must be greater than renewDeadline''
      else if renew \<le> 12 * retry div 10 then Some ''renewDeadline must be greater than retryPeriod*JitterFactor''
      else None)"

datatype leader_start = NoHostname string | ElectorPanic string | Electing etcd_lock

definition leader_run :: "string + string \<Rightarrow> string \<Rightarrow> leader_start" where
  "leader_run hostname catalog =
     (case hostname of
        Inl e \<Rightarrow> NoHostname (''unable to get hostname: '' @ e)
      | Inr node \<Rightarrow>
          (let rl = lock_new catalog hb node
           in case new_leader_elector default_lease_duration default_renew_deadline default_retry_period of
                Some e \<Rightarrow> ElectorPanic e
              | None \<Rightarrow> Electing rl))"

text \<open>\<open>OnNewLeader\<close> calls \<open>Change\<close> unless the new leader is this node.\<close>

definition on_new_leader :: "etcd_lock \<Rightarrow> string \<Rightarrow> bool" where
  "on_new_leader rl identity \<longleftrightarrow> lock_identity rl \<noteq> identity"

section \<open>tryAcquireOrRenew\<close>

record electing =
  ev_lock :: etcd_lock
  ev_observed :: election_record
  ev_time :: int
  ev_reported :: string

definition fresh_record :: "string \<Rightarrow> int \<Rightarrow> int \<Rightarrow> election_record" where
  "fresh_record identity lease now =
     \<lparr>er_holder = identity, er_lease_seconds = lease div second, er_acquire = now, er_renew = now, er_transitions = 0\<rparr>"

definition correct_record :: "election_record \<Rightarrow> election_record \<Rightarrow> election_record" where
  "correct_record old r =
     (if er_holder old = er_holder r then r\<lparr>er_acquire := er_acquire old, er_transitions := er_transitions old\<rparr>
      else r\<lparr>er_transitions := er_transitions old + 1\<rparr>)"

definition observe :: "electing \<Rightarrow> election_record \<Rightarrow> int \<Rightarrow> electing" where
  "observe e old t = (if ev_observed e \<noteq> old then e\<lparr>ev_observed := old, ev_time := t\<rparr> else e)"

definition try_acquire ::
  "(election_record \<Rightarrow> string) \<Rightarrow> (string \<Rightarrow> election_record option) \<Rightarrow> 's kv_store \<Rightarrow> int \<Rightarrow>
   int \<Rightarrow> int \<Rightarrow> int \<Rightarrow> ('s \<Rightarrow> 's) \<Rightarrow> electing \<Rightarrow> 's \<Rightarrow> bool \<times> electing \<times> 's" where
  "try_acquire enc dec kv lease now t1 t2 mid e s =
     (let node = lock_identity (ev_lock e); r = fresh_record node lease now
      in case lock_get dec kv (ev_lock e) s of
           (Inl err, l, s1) \<Rightarrow>
             (if err \<noteq> LockNotFound then (False, e\<lparr>ev_lock := l\<rparr>, s1)
              else case lock_create enc kv l (mid s1) r of
                     (Inl err', l', s2) \<Rightarrow> (False, e\<lparr>ev_lock := l'\<rparr>, s2)
                   | (Inr u, l', s2) \<Rightarrow> (True, e\<lparr>ev_lock := l', ev_observed := r, ev_time := t2\<rparr>, s2))
         | (Inr old, l, s1) \<Rightarrow>
             (let e1 = (observe e old t1)\<lparr>ev_lock := l\<rparr>
              in if now < ev_time e1 + lease \<and> er_holder old \<noteq> node then (False, e1, s1)
                 else (let r' = correct_record old r
                       in case lock_update enc kv l (mid s1) r' of
                            (Inl err', l', s2) \<Rightarrow> (False, e1\<lparr>ev_lock := l'\<rparr>, s2)
                          | (Inr u, l', s2) \<Rightarrow>
                              (True, e1\<lparr>ev_lock := l', ev_observed := r', ev_time := t2\<rparr>, s2))))"

text \<open>\<open>maybeReportTransition\<close>: the identity to report, if any.\<close>

definition maybe_report :: "electing \<Rightarrow> string option \<times> electing" where
  "maybe_report e =
     (if er_holder (ev_observed e) = ev_reported e then (None, e)
      else (Some (er_holder (ev_observed e)), e\<lparr>ev_reported := er_holder (ev_observed e)\<rparr>))"

text \<open>with the durations of the program the elector is accepted: \<open>Run\<close> fails only without a host
  name, and otherwise all nodes of a catalog contend for the same key, each with its host name.\<close>

theorem leader_run_outcome:
  "leader_run hostname catalog =
     (case hostname of
        Inl e \<Rightarrow> NoHostname (''unable to get hostname: '' @ e)
      | Inr node \<Rightarrow> Electing \<lparr>el_item = ''election/'' @ catalog @ ''/'', el_key = ''leader'',
                             el_identity = node, el_pair = None\<rparr>)"
  by (simp add: leader_run_def new_leader_elector_def default_lease_duration_def default_renew_deadline_def
      default_retry_period_def second_def lock_new_def hb_def split: sum.split)

section \<open>Taking over\<close>

lemma observe_frame [simp, frame_simps]:
  "ev_lock (observe e old t) = ev_lock e" "ev_reported (observe e old t) = ev_reported e"
  "ev_observed (observe e old t) = old"
  by (simp_all add: observe_def)

lemma expired_observed:
  assumes "\<not> now < ev_time (observe e old t1) + lease" and "now \<le> t1" and "0 < lease"
  shows "ev_observed e = old" and "ev_time e + lease \<le> now"
  using assms by (auto simp: observe_def split: if_splits)

lemma lock_get_found:
  assumes "lock_setup kv tree l" and "tree s (lock_path kv l) = Some (File v i)"
    and "lock_get dec kv l s = (res, l', s')"
  shows "(\<exists>e. res = Inl e \<and> e \<noteq> LockNotFound) \<or>
    (\<exists>r p. res = Inr r \<and> dec v = Some r \<and> el_pair l' = Some p \<and> kv_index p = i \<and> kv_value p = v \<and> tree s' = tree s)"
proof -
  note K = lock_key [OF assms(1)]
  note G = etcd_service.lk_get_Inr [OF K(1,2)] etcd_service.lk_get_Inl [OF K(1,2)]
  obtain r1 s1 where g: "lk_get (kvs_api kv) s (get_store_key kv (el_item l) (el_key l)) = (r1, s1)" by fastforce
  show ?thesis
  proof (cases r1)
    case (Inl e)
    with G(6) [OF g [unfolded Inl]] assms(2) K(3) have "e \<noteq> ErrKeyNotFound" by auto
    with assms(3) g Inl show ?thesis by (auto simp: lock_get_def kv_read_obj_def)
  next
    case (Inr q)
    with G(1,3) [OF g [unfolded Inr]] assms(2) K(3) have "tree s1 = tree s" "kv_value q = v" "kv_index q = i" by auto
    with assms(3) g Inr show ?thesis
      by (cases "dec v") (auto simp: lock_get_def kv_read_obj_def)
  qed
qed

lemma try_acquire_runs_update:
  assumes "lock_setup kv tree (ev_lock e)" and "tree s (lock_path kv (ev_lock e)) = Some (File v i)"
    and "dec v = Some old" and "try_acquire enc dec kv lease now t1 t2 mid e s = (True, e', s')"
  shows "\<exists>l s1 l' p u. tree s1 = tree s \<and> el_pair l = Some p \<and> kv_index p = i \<and> kv_value p = v \<and>
     lock_setup kv tree l \<and> lock_path kv l = lock_path kv (ev_lock e) \<and>
     \<not> (now < ev_time (observe e old t1) + lease \<and> er_holder old \<noteq> el_identity (ev_lock e)) \<and>
     lock_update enc kv l (mid s1) (ev_observed e') = (Inr u, l', s') \<and>
     ev_observed e' = correct_record old (fresh_record (el_identity (ev_lock e)) lease now)"
proof -
  obtain res l s1 where g: "lock_get dec kv (ev_lock e) s = (res, l, s1)" by (metis prod.collapse)
  have "\<not> (\<exists>err. res = Inl err \<and> err \<noteq> LockNotFound)"
    using assms(4) g by (auto simp: try_acquire_def Let_def split: if_splits)
  with lock_get_found [OF assms(1,2) g] assms(3) obtain p where p: "res = Inr old" "el_pair l = Some p"
    "kv_index p = i" "kv_value p = v" "tree s1 = tree s"
    by (metis option.inject)
  have l: "lock_setup kv tree l" "lock_path kv l = lock_path kv (ev_lock e)"
    by (fact lock_frame_setup [OF assms(1) lock_get_frame(2,3) [OF assms(1) g]])+
  let ?held = "now < ev_time (observe e old t1) + lease \<and> er_holder old \<noteq> el_identity (ev_lock e)"
  let ?r = "correct_record old (fresh_record (el_identity (ev_lock e)) lease now)"
  obtain res2 l2 s2 where u: "lock_update enc kv l (mid s1) ?r = (res2, l2, s2)" by (metis prod.collapse)
  have nh: "\<not> ?held"
  proof
    assume ?held
    with assms(4) g p(1) show False by (simp add: try_acquire_def Let_def lock_identity_def)
  qed
  obtain w where r: "res2 = Inr w" "s2 = s'" "ev_observed e' = ?r"
  proof (cases res2)
    case (Inl x)
    with assms(4) g p(1) u nh have False
      by (auto simp: try_acquire_def Let_def lock_identity_def split: if_splits)
    then show thesis ..
  next
    case (Inr w)
    with assms(4) g p(1) u nh have "s2 = s' \<and> ev_observed e' = ?r"
      by (auto simp: try_acquire_def Let_def lock_identity_def split: if_splits)
    with Inr that show thesis by simp
  qed
  with u nh p l show ?thesis by metis
qed

text \<open>C17: a lease is taken over from another node only when the record that is read is the one this
  node has observed for at least the lease duration, and when it is still in the store at the
  moment of the write, whatever others did in between; the record written names this node and
  counts one more transition.\<close>

theorem takeover_expired:
  assumes "lock_setup kv tree (ev_lock e)" and "tree s (lock_path kv (ev_lock e)) = Some (File v i)"
    and "dec v = Some old" and "er_holder old \<noteq> el_identity (ev_lock e)"
    and "0 < i" and "v \<noteq> []" and "now \<le> t1" and "0 < lease"
    and "try_acquire enc dec kv lease now t1 t2 mid e s = (True, e', s')"
  shows "ev_observed e = old \<and> ev_time e + lease \<le> now \<and>
    (\<exists>s1. tree s1 = tree s \<and> tree (mid s1) (lock_path kv (ev_lock e)) = Some (File v i)) \<and>
    (\<exists>j > i. tree s' (lock_path kv (ev_lock e)) = Some (File (enc (ev_observed e')) j)) \<and>
    er_holder (ev_observed e') = el_identity (ev_lock e) \<and>
    er_transitions (ev_observed e') = er_transitions old + 1"
proof -
  from try_acquire_runs_update [OF assms(1-3,9)] obtain l s1 l' p u where
    t: "tree s1 = tree s" "el_pair l = Some p" "kv_index p = i" "kv_value p = v" "lock_setup kv tree l"
      "lock_path kv l = lock_path kv (ev_lock e)"
      "\<not> (now < ev_time (observe e old t1) + lease \<and> er_holder old \<noteq> el_identity (ev_lock e))"
      "lock_update enc kv l (mid s1) (ev_observed e') = (Inr u, l', s')"
      "ev_observed e' = correct_record old (fresh_record (el_identity (ev_lock e)) lease now)"
    by blast
  from t(7) assms(4) have "\<not> now < ev_time (observe e old t1) + lease" by simp
  note x = expired_observed [OF this assms(7,8)]
  obtain j where q: "tree (mid s1) (lock_path kv l) = Some (File v i)" "i < j"
    "tree s' (lock_path kv l) = Some (File (enc (ev_observed e')) j)"
    using update_cas [OF t(5,8)] t(2-4) assms(5,6) by auto
  show ?thesis using x t(1,6,9) q assms(4) by (auto simp: correct_record_def fresh_record_def)
qed

text \<open>a renewal keeps the time of acquisition and the number of transitions, and it too fails when
  the record was changed after it was read.\<close>

theorem renewal_keeps:
  assumes "lock_setup kv tree (ev_lock e)" and "tree s (lock_path kv (ev_lock e)) = Some (File v i)"
    and "dec v = Some old" and "er_holder old = el_identity (ev_lock e)" and "0 < i" and "v \<noteq> []"
    and "try_acquire enc dec kv lease now t1 t2 mid e s = (True, e', s')"
  shows "ev_observed e' = old\<lparr>er_lease_seconds := lease div second, er_renew := now\<rparr> \<and>
    (\<exists>s1. tree s1 = tree s \<and> tree (mid s1) (lock_path kv (ev_lock e)) = Some (File v i))"
proof -
  from try_acquire_runs_update [OF assms(1-3,7)] obtain l s1 l' p u where
    t: "tree s1 = tree s" "el_pair l = Some p" "kv_index p = i" "kv_value p = v" "lock_setup kv tree l"
      "lock_path kv l = lock_path kv (ev_lock e)"
      "lock_update enc kv l (mid s1) (ev_observed e') = (Inr u, l', s')"
      "ev_observed e' = correct_record old (fresh_record (el_identity (ev_lock e)) lease now)"
    by blast
  have "tree (mid s1) (lock_path kv l) = Some (File v i)"
    using update_cas [OF t(5,7)] t(2-4) assms(5,6) by auto
  with t(1,6,8) assms(4) show ?thesis by (auto simp: correct_record_def fresh_record_def)
qed

section \<open>Examples\<close>

text \<open>Node b has watched the record of node a since time 0, and node a stopped renewing it.\<close>

definition demo_elector :: "string \<Rightarrow> electing" where
  "demo_elector node = \<lparr>ev_lock = lock_new ''prod'' ''leader'' node, ev_observed = held_by ''a'', ev_time = 0,
     ev_reported = ''a''\<rparr>"

definition demo_try :: "string \<Rightarrow> int \<Rightarrow> bool \<times> electing \<times> mem" where
  "demo_try node now = try_acquire er_holder (Some \<circ> held_by) demo_kv default_lease_duration now now now
     (\<lambda>s. s) (demo_elector node) (ec_store demo_read)"

lemma demo_try_setup:
  "lock_setup demo_kv mem_view (ev_lock (demo_elector node))"
  "mem_view (ec_store demo_read) (lock_path demo_kv (ev_lock (demo_elector node))) = Some (File ''a'' 2)"
  "el_identity (ev_lock (demo_elector node)) = node"
proof -
  have "mem_view (ec_store demo_read) demo_lock_path = Some (File ''a'' 2)" by code_simp
  then show "lock_setup demo_kv mem_view (ev_lock (demo_elector node))"
    "mem_view (ec_store demo_read) (lock_path demo_kv (ev_lock (demo_elector node))) = Some (File ''a'' 2)"
    "el_identity (ev_lock (demo_elector node)) = node"
    using demo_lock_setup by (simp_all add: demo_elector_def) (simp add: lock_new_def)
qed

lemma demo_try_runs:
  "fst (demo_try ''b'' default_lease_duration)" "\<not> fst (demo_try ''b'' (default_lease_duration - 1))"
  "fst (demo_try ''a'' second)"
  by code_simp+

lemma demo_try_run: "fst (demo_try node now) \<Longrightarrow> \<exists>e' s'. demo_try node now = (True, e', s')"
  by (cases "demo_try node now") auto

lemma takeover_expired_witness:
  "\<exists>e' s'. demo_try ''b'' default_lease_duration = (True, e', s') \<and> er_holder (ev_observed e') = ''b'' \<and>
     er_transitions (ev_observed e') = 1"
proof -
  obtain e' s' where run: "demo_try ''b'' default_lease_duration = (True, e', s')"
    using demo_try_run [OF demo_try_runs(1)] by blast
  note t = takeover_expired [OF demo_try_setup(1,2) _ _ _ _ _ _ run [unfolded demo_try_def], of "held_by ''a''"]
  have "er_holder (ev_observed e') = ''b'' \<and> er_transitions (ev_observed e') = er_transitions (held_by ''a'') + 1"
    using t by (simp add: demo_try_setup(3)) (simp add: held_by_def default_lease_duration_def second_def)
  with run show ?thesis by (simp add: held_by_def)
qed

lemma renewal_keeps_witness:
  "\<exists>e' s'. demo_try ''a'' second = (True, e', s') \<and>
     ev_observed e' = (held_by ''a'')\<lparr>er_renew := second\<rparr>"
proof -
  obtain e' s' where run: "demo_try ''a'' second = (True, e', s')"
    using demo_try_run [OF demo_try_runs(3)] by blast
  note t = renewal_keeps [OF demo_try_setup(1,2) _ _ _ _ run [unfolded demo_try_def], of "held_by ''a''"]
  have "ev_observed e' = (held_by ''a'')\<lparr>er_lease_seconds := default_lease_duration div second, er_renew := second\<rparr>"
    using t by (simp add: demo_try_setup(3)) (simp add: held_by_def)
  with run show ?thesis by (simp add: held_by_def default_lease_duration_def second_def)
qed

end
