(* ===== verification/Lbmain.thy ===== *)
theory Lbmain
  imports Ipaminit Lbimpl Elector
begin

text \<open>
  \<open>main.go\<close>: the order in which the packages are started, down to the elector.  What lies outside the
  program is an argument: the etcd client for a list of endpoints, the host name, the orders in which
  maps are ranged over, the store and the operating system.
\<close>

section \<open>main.go\<close>

datatype 's program =
    Fatal string
  | Waiting
  | Exited string
  | Running "'s handler" etcd_lock 's os "(string \<times> string) list"

record map_orders =
  mo_ords :: "nat \<Rightarrow> (string \<times> ipnet) range_order"
  mo_ord :: "(string \<times> ipnet) range_order"
  mo_keys :: "string range_order"

text \<open>\<open>Init\<close> of the handler that \<open>New\<close> made for the configured type.\<close>

definition handler_init ::
  "map_orders \<Rightarrow> 's kv_store \<Rightarrow> lb_conf \<Rightarrow> laddr_map \<Rightarrow> 's \<Rightarrow> os \<Rightarrow>
   ('s handler \<times> 's \<times> os \<times> (string \<times> string) list) option" where
  "handler_init mo kv c m s w =
     (if lc_type c = ''l4'' then
        (case lvs_init kv c s w of
           None \<Rightarrow> None
         | Some (a, cache, s', w') \<Rightarrow>
             Some (new_handler \<lparr>vx_conf = c, vx_groups = m, vx_kv = kv, vx_alc = a, vx_ords = mo_ords mo,
                                vx_ord = mo_ord mo, vx_keys_ord = mo_keys mo\<rparr> (lc_type c), s', w', cache))
      else map_option (\<lambda>w'. (NginxHandler c, s, w', [])) (nginx_init w))"

definition lb_main ::
  "(string list \<Rightarrow> 's keys_api option) \<Rightarrow> string \<Rightarrow> string + string \<Rightarrow> map_orders \<Rightarrow> 's \<Rightarrow> os \<Rightarrow> 's program" where
  "lb_main connect endpoints hostname mo s w =
     (if endpoints = [] then Fatal ''Etcd endpoints is required''
      else case conf_init w of
             None \<Rightarrow> Fatal ''conf''
           | Some (c, m) \<Rightarrow>
               (case connect (kv_endpoints endpoints) of
                  None \<Rightarrow> Fatal ''Init kvstore failed''
                | Some api \<Rightarrow>
                    (let kv = \<lparr>kvs_api = api, kvs_prefix = get_store_prefix c\<rparr>
                     in case wait_for_start kv s of
                          None \<Rightarrow> Waiting
                        | Some s1 \<Rightarrow>
                            (case leader_run hostname (lc_catalog c) of
                               NoHostname e \<Rightarrow> Exited e
                             | ElectorPanic e \<Rightarrow> Fatal e
                             | Electing rl \<Rightarrow>
                                 (case handler_init mo kv c m s1 w of
                                    None \<Rightarrow> Fatal ''Init''
                                  | Some (h, s2, w', cache) \<Rightarrow> Running h rl s2 w' cache)))))"

section \<open>Waiting for the store\<close>

fun wait_state :: "'s kv_store \<Rightarrow> 's \<Rightarrow> nat \<Rightarrow> 's" where
  "wait_state kv s 0 = s"
| "wait_state kv s (Suc k) = wait_state kv (snd (lk_list (kvs_api kv) s (kvs_prefix kv))) k"

definition answers :: "'s kv_store \<Rightarrow> 's \<Rightarrow> bool" where
  "answers kv s \<longleftrightarrow> (case fst (lk_list (kvs_api kv) s (kvs_prefix kv)) of Inr _ \<Rightarrow> True | Inl e \<Rightarrow> e = ErrKeyNotFound)"

lemma wait_unfold:
  "wait_for_start kv s =
     (if answers kv s then Some (snd (lk_list (kvs_api kv) s (kvs_prefix kv)))
      else wait_for_start kv (snd (lk_list (kvs_api kv) s (kvs_prefix kv))))"
  by (subst wait_for_start.simps) (auto simp: answers_def split: prod.split sum.split)

text \<open>The first listing that is answered ends the wait.\<close>

definition first_answer :: "'s kv_store \<Rightarrow> 's \<Rightarrow> nat \<Rightarrow> bool" where
  "first_answer kv s k \<longleftrightarrow> answers kv (wait_state kv s k) \<and> (\<forall>j < k. \<not> answers kv (wait_state kv s j))"

lemma first_answer_unique: "first_answer kv s k \<Longrightarrow> first_answer kv s l \<Longrightarrow> l = k"
  unfolding first_answer_def by (metis nat_neq_iff)

lemma wait_answers: "answers kv (wait_state kv s k) \<Longrightarrow> wait_for_start kv s \<noteq> None"
proof (induction k arbitrary: s)
  case 0
  then show ?case by (subst wait_unfold) simp
next
  case (Suc k)
  then show ?case by (subst wait_unfold) simp
qed

lemma wait_some:
  assumes "wait_for_start kv s = Some s'"
  shows "\<exists>k. answers kv (wait_state kv s k) \<and> (\<forall>j < k. \<not> answers kv (wait_state kv s j)) \<and> s' = wait_state kv s (Suc k)"
proof (rule wait_for_start.raw_induct [OF _ assms])
  fix wait :: "'a kv_store \<Rightarrow> 'a \<Rightarrow> 'a option" and kv :: "'a kv_store" and s s' :: 'a
  assume IH: "\<And>kv s s'. wait kv s = Some s' \<Longrightarrow>
      \<exists>k. answers kv (wait_state kv s k) \<and> (\<forall>j < k. \<not> answers kv (wait_state kv s j)) \<and> s' = wait_state kv s (Suc k)"
    and body: "(case lk_list (kvs_api kv) s (kvs_prefix kv) of
        (Inl e, s') \<Rightarrow> if e = ErrKeyNotFound then Some s' else wait kv s'
      | (Inr x, s') \<Rightarrow> Some s') = Some s'"
  obtain r s1 where l: "lk_list (kvs_api kv) s (kvs_prefix kv) = (r, s1)" by fastforce
  show "\<exists>k. answers kv (wait_state kv s k) \<and> (\<forall>j < k. \<not> answers kv (wait_state kv s j)) \<and> s' = wait_state kv s (Suc k)"
  proof (cases "answers kv s")
    case True
    with body l have "s' = s1" by (auto simp: answers_def split: sum.splits)
    with True l show ?thesis by (intro exI [of _ 0]) simp
  next
    case False
    with body l have "wait kv s1 = Some s'" by (auto simp: answers_def split: sum.splits if_splits)
    from IH [OF this] obtain k where k: "answers kv (wait_state kv s1 k)"
      "\<forall>j < k. \<not> answers kv (wait_state kv s1 j)" "s' = wait_state kv s1 (Suc k)" by blast
    have "\<not> answers kv (wait_state kv s j)" if "j < Suc k" for j
      using that False k(2) l by (cases j) auto
    with k l show ?thesis by (intro exI [of _ "Suc k"]) simp
  qed
qed

text \<open>C31: the wait for the store ends exactly when the store answers one of the listings it sends, with a
  listing or with "not found", and then right after the first such answer: the state it leaves is the
  one after that listing, so that nothing more is asked.\<close>

theorem wait_for_start_ends:
  "(wait_for_start kv s = Some s' \<longleftrightarrow> (\<exists>k. first_answer kv s k \<and> s' = wait_state kv s (Suc k))) \<and>
   (wait_for_start kv s = None \<longleftrightarrow> (\<forall>k. \<not> answers kv (wait_state kv s k)))"
proof (cases "wait_for_start kv s")
  case None
  then have "\<not> answers kv (wait_state kv s k)" for k using wait_answers [of kv s k] by auto
  with None show ?thesis by (simp add: first_answer_def)
next
  case (Some t)
  then obtain k where k: "first_answer kv s k" "t = wait_state kv s (Suc k)"
    using wait_some [OF Some] by (auto simp: first_answer_def)
  have "(\<exists>l. first_answer kv s l \<and> s' = wait_state kv s (Suc l)) \<longleftrightarrow> s' = t"
  proof
    assume "\<exists>l. first_answer kv s l \<and> s' = wait_state kv s (Suc l)"
    then obtain l where l: "first_answer kv s l" "s' = wait_state kv s (Suc l)" by (elim exE conjE)
    show "s' = t" unfolding l(2) k(2) first_answer_unique [OF k(1) l(1)] by (rule refl)
  next
    assume "s' = t"
    with k show "\<exists>l. first_answer kv s l \<and> s' = wait_state kv s (Suc l)" by (intro exI [of _ k] conjI) simp_all
  qed
  moreover have "\<not> (\<forall>l. \<not> answers kv (wait_state kv s l))" using k(1) by (auto simp: first_answer_def)
  ultimately show ?thesis using Some by auto
qed

lemma wait_state_tree:
  assumes "etcd_service (kvs_api kv) tree" and "plain_key (kvs_prefix kv)"
  shows "tree (wait_state kv s k) = tree s"
proof (induction k arbitrary: s)
  case (Suc k)
  obtain r s1 where "lk_list (kvs_api kv) s (kvs_prefix kv) = (r, s1)" by fastforce
  then show ?case
    using Suc [of s1] etcd_service.lk_list_Inr(1) [OF assms] etcd_service.lk_list_Inl [OF assms] by (cases r) auto
qed simp

lemma wait_tree:
  "etcd_service (kvs_api kv) tree \<Longrightarrow> plain_key (kvs_prefix kv) \<Longrightarrow> wait_for_start kv s = Some s' \<Longrightarrow> tree s' = tree s"
  using wait_some wait_state_tree by metis

section \<open>What runs\<close>

lemma main_running_cases:
  assumes "lb_main connect endpoints hostname mo s w = Running h rl s2 w' cache"
  obtains c m api s1 node where "conf_init w = Some (c, m)"
    and "connect (kv_endpoints endpoints) = Some api"
    and "wait_for_start \<lparr>kvs_api = api, kvs_prefix = lc_store_prefix c\<rparr> s = Some s1"
    and "hostname = Inr node" and "rl = lock_new (lc_catalog c) hb node"
    and "handler_init mo \<lparr>kvs_api = api, kvs_prefix = lc_store_prefix c\<rparr> c m s1 w = Some (h, s2, w', cache)"
proof -
  from assms obtain c m where c: "conf_init w = Some (c, m)"
    by (auto simp: lb_main_def split: if_splits option.splits)
  with assms obtain api where a: "connect (kv_endpoints endpoints) = Some api"
    by (auto simp: lb_main_def split: if_splits option.splits)
  let ?kv = "\<lparr>kvs_api = api, kvs_prefix = lc_store_prefix c\<rparr>"
  from assms c a obtain s1 where s1: "wait_for_start ?kv s = Some s1"
    by (auto simp: lb_main_def get_store_prefix_def Let_def split: if_splits option.splits)
  from assms c a s1 obtain node where n: "hostname = Inr node"
    by (auto simp: lb_main_def get_store_prefix_def Let_def leader_run_def
        split: if_splits sum.splits)
  from n have l: "leader_run hostname (lc_catalog c) = Electing (lock_new (lc_catalog c) hb node)"
    by (simp add: leader_run_def new_leader_elector_def default_lease_duration_def default_renew_deadline_def
        default_retry_period_def second_def)
  with assms c a s1 have "rl = lock_new (lc_catalog c) hb node"
    "handler_init mo ?kv c m s1 w = Some (h, s2, w', cache)"
    by (auto simp: lb_main_def get_store_prefix_def Let_def split: if_splits option.splits)
  with that c a s1 n show thesis by blast
qed

lemma conf_init_checked:
  "conf_init w = Some (c, m) \<Longrightarrow> lb_conf_check w c [] = (None, m)"
  by (auto simp: conf_init_def split: sum.splits option.splits prod.splits)

lemma checked_type: "lb_conf_check w c m = (None, m') \<Longrightarrow> lc_type c = ''l4'' \<or> lc_type c = ''l7''"
  by (auto simp: lb_conf_check_def conf_lb_type_def split: if_splits)

lemma handler_init_cases:
  assumes "handler_init mo kv c m s w = Some (h, s', w', cache)"
  obtains (l4) x where "h = LvsHandler x" and "lc_type c = ''l4''" and "vx_conf x = c" and "vx_groups x = m" and "vx_kv x = kv"
      and "lvs_init kv c s w = Some (vx_alc x, cache, s', w')"
  | (l7) "h = NginxHandler c" and "lc_type c \<noteq> ''l4''" and "nginx_init w = Some w'" and "s' = s"
proof (cases "lc_type c = ''l4''")
  case True
  let ?x = "\<lambda>a. \<lparr>vx_conf = c, vx_groups = m, vx_kv = kv, vx_alc = a, vx_ords = mo_ords mo, vx_ord = mo_ord mo,
    vx_keys_ord = mo_keys mo\<rparr>"
  from True assms obtain a where "lvs_init kv c s w = Some (a, cache, s', w')" "h = LvsHandler (?x a)"
    by (auto simp: handler_init_def new_handler_def split: option.splits)
  with True l4 [of "?x a"] show ?thesis by simp
next
  case False
  with assms l7 show ?thesis by (auto simp: handler_init_def)
qed

text \<open>C27: the program that runs has read a configuration that passes its checks, with the groups of it;
  it runs the handler of the configured kind, and contends for the lock of the configured catalog
  under its host name.\<close>

theorem main_runs_configured:
  assumes "lb_main connect endpoints hostname mo s w = Running h rl s' w' cache"
  shows "\<exists>c m. conf_init w = Some (c, m) \<and>
    (case h of
       LvsHandler x \<Rightarrow> lc_type c = ''l4'' \<and> vx_conf x = c \<and> vx_groups x = m \<and> l4_conf_valid w c \<and>
         map_of m = laddr_groups (l4_laddr (lc_l4 c)) \<and> kvs_prefix (vx_kv x) = lc_store_prefix c
     | NginxHandler c' \<Rightarrow> lc_type c = ''l7'' \<and> c' = c) \<and>
    el_item rl = ''election/'' @ lc_catalog c @ ''/'' \<and> Inr (el_identity rl) = hostname"
proof -
  from main_running_cases [OF assms] obtain c m api s1 node where r: "conf_init w = Some (c, m)"
    "hostname = Inr node" "rl = lock_new (lc_catalog c) hb node"
    "handler_init mo \<lparr>kvs_api = api, kvs_prefix = lc_store_prefix c\<rparr> c m s1 w = Some (h, s', w', cache)" .
  note chk = conf_init_checked [OF r(1)]
  from r(4) show ?thesis
  proof (cases rule: handler_init_cases)
    case (l4 x)
    from l4_checked [OF l4(2), of w] chk have "l4_conf_valid w c" "map_of m = laddr_groups (l4_laddr (lc_l4 c))" by auto
    with l4 r(1-3) show ?thesis by (simp add: lock_new_def)
  next
    case l7
    with checked_type [OF chk] r(1-3) show ?thesis by (simp add: lock_new_def)
  qed
qed

section \<open>A node of kind l4\<close>

lemma es_leases_tree: "tree s' = tree s \<Longrightarrow> es_leases kv tree item s' = es_leases kv tree item s"
  by (simp add: fun_eq_iff es_leases_def dir_view_def)

lemma net_dir_ok_tree:
  "tree s' = tree s \<Longrightarrow>
     net_dir_ok kv tree item s' = net_dir_ok kv tree item s \<and> records_ok kv tree item s' = records_ok kv tree item s"
  using es_leases_tree [of tree s' s] by (simp add: net_dir_ok_def records_ok_def es_last_def)

lemma lvs_init_ipam:
  "lvs_init kv c s w = Some (a, cache, s', w') \<Longrightarrow>
     ipam_init kv s (l4_subnet_name (lc_l4 c)) (l4_subnet_cidr (lc_l4 c)) = (Inr (a, cache), s')"
  by (auto simp: lvs_init_def split: prod.splits sum.splits option.splits)

text \<open>C19: when the program has started as an LVS node over a store that keeps its contract, the invariant
  of the address management holds if and only if the records already in the directory of its network
  are well-formed (\<open>records_ok\<close>: every lease and the last address are dotted IPv4 addresses), and no
  lease was lost or made on the way.  This is for a visible network name, a prefix length of at most
  30, a configured IPv4 address of at least 0.255.255.255 that is not among the last three addresses of
  its network (\<open>room\<close>: 10.0.0.254/24 is excluded, say), and a store with no file in place of the
  directory and no directory in place of the last address.\<close>

theorem main_l4_ready:
  assumes run: "lb_main connect endpoints hostname mo s w = Running (LvsHandler x) rl s' w' cache"
    and name: "name = l4_subnet_name (lc_l4 (vx_conf x))" and item: "item = data_dir @ name @ ''/''"
    and store: "kv_dir (vx_kv x) tree data_dir" "plain_key (kvs_prefix (vx_kv x))" "visible_name name"
    and cidr: "l4_subnet_cidr (lc_l4 (vx_conf x)) = cidr_text p n"
    and p: "length p = 4" "n \<le> 30" "2 ^ 24 \<le> Suc (set_bytes p)"
    and room: "set_bytes p + 3 \<le> (set_bytes p div 2 ^ (32 - n) + 1) * 2 ^ (32 - n)"
    and dir: "net_dir_ok (vx_kv x) tree item s"
  shows "(ipam_inv (vx_alc x) (vx_kv x) tree item s' \<longleftrightarrow> records_ok (vx_kv x) tree item s) \<and>
    es_leases (vx_kv x) tree item s' = es_leases (vx_kv x) tree item s"
proof -
  from main_running_cases [OF run] obtain c m api s1 where r:
    "wait_for_start \<lparr>kvs_api = api, kvs_prefix = lc_store_prefix c\<rparr> s = Some s1"
    "handler_init mo \<lparr>kvs_api = api, kvs_prefix = lc_store_prefix c\<rparr> c m s1 w = Some (LvsHandler x, s', w', cache)" .
  from r(2) have x: "vx_conf x = c" "vx_kv x = \<lparr>kvs_api = api, kvs_prefix = lc_store_prefix c\<rparr>"
    "lvs_init (vx_kv x) c s1 w = Some (vx_alc x, cache, s', w')"
    by (auto elim: handler_init_cases)
  have "etcd_service (kvs_api (vx_kv x)) tree" using store(1) by (simp add: kv_dir_def)
  from wait_tree [OF this store(2), of s s1] r(1) x(2) have t: "tree s1 = tree s" by simp
  from lvs_init_ipam [OF x(3)] x(1) name cidr
  have "ipam_init (vx_kv x) s1 name (cidr_text p n) = (Inr (vx_alc x, cache), s')" by simp
  from ipam_init_inv [OF store(1,3) p room _ this] dir item net_dir_ok_tree [of tree s1 s] es_leases_tree [of tree s1 s] t
  show ?thesis by simp
qed

section \<open>A complete start\<close>

text \<open>The example configuration as a file.\<close>

definition demo_file :: json where
  "demo_file = Obj
     [(''type'', Str ''l4''), (''store'', Str ''/lb/''), (''cluster'', Str ''c1''), (''catalog'', Str ''prod''),
      (''confPath'', Str ''/etc/lb''),
      (''l4'', Obj
         [(''subnet'', Str ''vips''), (''subnetCIDR'', Str ''10.0.0.0/29''),
          (''keepalived'', Obj [(''miscScript'', Str ''/etc/lb/check.sh'')]),
          (''laddr'', Arr [Obj [(''name'', Str ''g1''), (''dest'', Str ''10.1.0.0/16'')]])])]"

definition start_os :: os where
  "start_os = demo_os\<lparr>os_fs := (os_fs demo_os)(conf_path \<mapsto> Regular (jprint demo_file))\<rparr>"

definition start_orders :: map_orders where
  "start_orders = \<lparr>mo_ords = (\<lambda>_ xs. xs), mo_ord = (\<lambda>xs. xs), mo_keys = (\<lambda>xs. xs)\<rparr>"

definition start_main :: "mem program" where
  "start_main = lb_main (\<lambda>ep. if ep = [''http://127.0.0.1:2379''] then Some mem_api else None) ''127.0.0.1:2379''
     (Inr ''n1'') start_orders (demo_state demo_entries []) start_os"

lemma start_conf: "decode_struct lb_conf_fields demo_file conf_defaults = Some demo_conf"
  by code_simp

lemma start_valid: "l4_conf_valid start_os demo_conf"
  using demo_conf_valid
  by (auto simp: l4_conf_valid_def start_os_def demo_os_def demo_conf_def conf_defaults_def os_stat_def
      max_links_def eval_nat_numeral)

lemma start_conf_init: "\<exists>m. conf_init start_os = Some (demo_conf, m)"
proof -
  have "os_read_file start_os conf_path = Inr (jprint demo_file)"
    by (simp add: os_read_file_def start_os_def demo_os_def max_links_def numeral_eq_Suc)
  moreover have "json_parse (jprint demo_file) = Some demo_file"
    by (rule json_parse_print) (simp add: demo_file_def)
  moreover obtain m where "lb_conf_check start_os demo_conf [] = (None, m)"
    using l4_checked [of demo_conf start_os] start_valid
    by (cases "lb_conf_check start_os demo_conf []") (auto simp: demo_conf_def)
  ultimately show ?thesis using start_conf by (simp add: conf_init_def)
qed

lemma start_wait: "wait_for_start demo_kv (demo_state demo_entries []) = Some (demo_state demo_entries [])"
proof -
  have "lk_list mem_api (demo_state demo_entries []) ''/lb/'' =
      (Inr (sel (lk_list mem_api (demo_state demo_entries []) ''/lb/'')), demo_state demo_entries [])"
    if "sel = (\<lambda>r. case fst r of Inr x \<Rightarrow> x | Inl e \<Rightarrow> [])" for sel
    unfolding that by code_simp
  then have "\<exists>x. lk_list mem_api (demo_state demo_entries []) ''/lb/'' = (Inr x, demo_state demo_entries [])" by blast
  then show ?thesis by (subst wait_unfold) (auto simp: answers_def demo_kv_def)
qed

lemma start_keepalived: "ka_start start_os \<noteq> None"
  by (simp add: ka_start_def shell_out_def start_os_def demo_os_def)

lemma start_runs:
  "\<exists>x rl w' cache. start_main = Running (LvsHandler x) rl (demo_state demo_entries []) w' cache \<and>
     vx_conf x = demo_conf \<and> vx_kv x = demo_kv"
proof -
  obtain m where c: "conf_init start_os = Some (demo_conf, m)" using start_conf_init by blast
  have kv: "\<lparr>kvs_api = mem_api, kvs_prefix = get_store_prefix demo_conf\<rparr> = demo_kv"
    by (simp add: demo_kv_def get_store_prefix_def demo_conf_def)
  have fields: "l4_subnet_name (lc_l4 demo_conf) = ''vips''" "l4_subnet_cidr (lc_l4 demo_conf) = cidr_text [10, 0, 0, 0] 29"
    "lc_type demo_conf = ''l4''"
    by code_simp+
  obtain a cache where i: "ipam_init demo_kv (demo_state demo_entries []) ''vips'' (cidr_text [10, 0, 0, 0] 29)
      = (Inr (a, cache), demo_state demo_entries [])" using demo_init_run by blast
  obtain w' where k: "ka_start start_os = Some w'" using start_keepalived by auto
  have ep: "kv_endpoints ''127.0.0.1:2379'' = [''http://127.0.0.1:2379'']" by code_simp
  have "leader_run (Inr ''n1'') (lc_catalog demo_conf) = Electing (lock_new (lc_catalog demo_conf) hb ''n1'')"
    by (simp add: leader_run_def new_leader_elector_def default_lease_duration_def default_renew_deadline_def
        default_retry_period_def second_def)
  with c kv fields i k ep start_wait show ?thesis
    by (simp add: start_main_def lb_main_def handler_init_def lvs_init_def new_handler_def Let_def)
qed

lemma main_runs_configured_witness:
  "\<exists>x rl s' w' cache. start_main = Running (LvsHandler x) rl s' w' cache \<and> l4_conf_valid start_os (vx_conf x) \<and>
     el_identity rl = ''n1''"
proof -
  obtain x rl w' cache where r: "start_main = Running (LvsHandler x) rl (demo_state demo_entries []) w' cache"
    using start_runs by blast
  have "l4_conf_valid start_os (vx_conf x) \<and> el_identity rl = ''n1''"
    using main_runs_configured [OF r [unfolded start_main_def]] by auto
  with r show ?thesis by blast
qed

lemma main_l4_ready_witness:
  "\<exists>x rl s' w' cache. start_main = Running (LvsHandler x) rl s' w' cache \<and>
     ipam_inv (vx_alc x) (vx_kv x) mem_view demo_item s'"
proof -
  obtain x rl w' cache where r: "start_main = Running (LvsHandler x) rl (demo_state demo_entries []) w' cache"
    and x: "vx_conf x = demo_conf" "vx_kv x = demo_kv"
    using start_runs by blast
  have f: "''vips'' = l4_subnet_name (lc_l4 (vx_conf x))" "l4_subnet_cidr (lc_l4 (vx_conf x)) = cidr_text [10, 0, 0, 0] 29"
    unfolding x by code_simp+
  have it: "demo_item = data_dir @ ''vips'' @ ''/''" using demo_item_name by simp
  have pk: "plain_key (kvs_prefix demo_kv)" by (simp add: demo_kv_def plain_key_def keypath_def plain_name_def)
  have "ipam_inv (vx_alc x) (vx_kv x) mem_view demo_item (demo_state demo_entries [])"
    using main_l4_ready [OF r [unfolded start_main_def] f(1) it _ _ vips_visible f(2) _ _ demo_room(2,1)]
      demo_data_dir pk demo_net_dir demo_records x by simp
  with r show ?thesis by blast
qed

end
