(* ===== verification/Watch.thy ===== *)
theory Watch
  imports Nginx Backend
begin

text \<open>
  \<open>LBBase.watch\<close> (\<open>pkg/lbm/lbm.go\<close>) together with the goroutine behind the channel it reads
  (\<open>Etcd.WatchTree\<close> of libkv).  That goroutine lists the directory at the start and after every change,
  and hands each listing over when the watch is ready to receive it: it may list again while the last
  listing is being handled.  It closes the channel when a listing or the wait for a change fails, or
  when it finds the stop channel closed.  The waits for a change and what other programs do to the
  store are the environment's choice.
\<close>

section \<open>The loop\<close>

datatype watch_pc =
    WPrepare  \<comment> \<open>before the directory is checked\<close>
  | WReceive  \<comment> \<open>the handler waits for a listing\<close>
  | WHandling "kvpair list"
  | WClosed   \<comment> \<open>the channel was closed, \<open>watch\<close> receives from the stop channel\<close>
  | WEnd
  | WPanic

datatype feed_pc =
    FList
  | FSend "kvpair list"
  | FCheck    \<comment> \<open>it is about to look at the stop channel\<close>
  | FNext     \<comment> \<open>it waits for a change\<close>
  | FClosed

record ('s, 'lb, 'e) watcher =
  w_pc :: watch_pc
  w_feed :: feed_pc
  w_store :: 's
  w_base :: "('lb, 'e) lb_base"
  w_stopped :: bool

datatype watch_label = Received "kvpair list" | Handled "kvpair list" | Internal | Stopped | Others

definition watch_tree_list :: "'s kv_store \<Rightarrow> lb_conf \<Rightarrow> 's \<Rightarrow> (go_error + kvpair list) \<times> 's" where
  "watch_tree_list kv c s = lk_list (kvs_api kv) s (get_store_key kv lb_root (lb_item c))"

inductive watch_step ::
  "'s kv_store \<Rightarrow> lb_conf \<Rightarrow> (string \<times> nat) range_order \<Rightarrow> ('lb, 'e) ilb \<Rightarrow>
   ('s, 'lb, 'e) watcher \<Rightarrow> watch_label \<Rightarrow> ('s, 'lb, 'e) watcher \<Rightarrow> bool"
  for kv c ord i where
  retry: "w_pc w = WPrepare \<Longrightarrow> watch_prepare kv c (w_store w) = (False, s') \<Longrightarrow>
    watch_step kv c ord i w Internal (w\<lparr>w_store := s'\<rparr>)"
| subscribe: "w_pc w = WPrepare \<Longrightarrow> watch_prepare kv c (w_store w) = (True, s') \<Longrightarrow>
    watch_step kv c ord i w Internal (w\<lparr>w_store := s', w_pc := WReceive, w_feed := FList\<rparr>)"
| lists: "w_pc w \<noteq> WPrepare \<Longrightarrow> w_feed w = FList \<Longrightarrow> watch_tree_list kv c (w_store w) = (Inr li, s') \<Longrightarrow>
    watch_step kv c ord i w Internal (w\<lparr>w_store := s', w_feed := FSend li\<rparr>)"
| list_fails: "w_pc w \<noteq> WPrepare \<Longrightarrow> w_feed w = FList \<Longrightarrow> watch_tree_list kv c (w_store w) = (Inl e, s') \<Longrightarrow>
    watch_step kv c ord i w Internal (w\<lparr>w_store := s', w_feed := FClosed\<rparr>)"
| receives: "w_pc w = WReceive \<Longrightarrow> w_feed w = FSend li \<Longrightarrow>
    watch_step kv c ord i w (Received li) (w\<lparr>w_pc := WHandling li, w_feed := FCheck\<rparr>)"
| handles: "w_pc w = WHandling li \<Longrightarrow> handler_event ord i li (w_base w) = Some b' \<Longrightarrow>
    watch_step kv c ord i w (Handled li) (w\<lparr>w_base := b', w_pc := WReceive\<rparr>)"
| panics: "w_pc w = WHandling li \<Longrightarrow> handler_event ord i li (w_base w) = None \<Longrightarrow>
    watch_step kv c ord i w (Handled li) (w\<lparr>w_pc := WPanic\<rparr>)"
| goes_on: "w_pc w \<noteq> WPrepare \<Longrightarrow> w_feed w = FCheck \<Longrightarrow> \<not> w_stopped w \<Longrightarrow>
    watch_step kv c ord i w Internal (w\<lparr>w_feed := FNext\<rparr>)"
| sees_stop: "w_pc w \<noteq> WPrepare \<Longrightarrow> w_feed w = FCheck \<Longrightarrow> w_stopped w \<Longrightarrow>
    watch_step kv c ord i w Internal (w\<lparr>w_feed := FClosed\<rparr>)"
| changed: "w_pc w \<noteq> WPrepare \<Longrightarrow> w_feed w = FNext \<Longrightarrow> watch_step kv c ord i w Internal (w\<lparr>w_feed := FList\<rparr>)"
| feed_fails: "w_pc w \<noteq> WPrepare \<Longrightarrow> w_feed w = FNext \<Longrightarrow> watch_step kv c ord i w Internal (w\<lparr>w_feed := FClosed\<rparr>)"
| closed: "w_pc w = WReceive \<Longrightarrow> w_feed w = FClosed \<Longrightarrow> watch_step kv c ord i w Internal (w\<lparr>w_pc := WClosed\<rparr>)"
| ends: "w_pc w = WClosed \<Longrightarrow> w_stopped w \<Longrightarrow> watch_step kv c ord i w Internal (w\<lparr>w_pc := WEnd\<rparr>)"
| stop: "watch_step kv c ord i w Stopped (w\<lparr>w_stopped := True\<rparr>)"
| others: "watch_step kv c ord i w Others (w\<lparr>w_store := s'\<rparr>)"

inductive_cases watch_step_cases: "watch_step kv c ord i w l w'"

inductive watch_run ::
  "'s kv_store \<Rightarrow> lb_conf \<Rightarrow> (string \<times> nat) range_order \<Rightarrow> ('lb, 'e) ilb \<Rightarrow>
   ('s, 'lb, 'e) watcher \<Rightarrow> watch_label list \<Rightarrow> ('s, 'lb, 'e) watcher \<Rightarrow> bool"
  for kv c ord i where
  watch_nil: "watch_run kv c ord i w [] w"
| watch_cons: "watch_step kv c ord i w l w' \<Longrightarrow> watch_run kv c ord i w' ls w'' \<Longrightarrow>
    watch_run kv c ord i w (l # ls) w''"

fun is_handled :: "watch_label \<Rightarrow> bool" where
  "is_handled (Handled li) = True"
| "is_handled _ = False"

fun is_received :: "watch_label \<Rightarrow> bool" where
  "is_received (Received li) = True"
| "is_received _ = False"

fun is_handling :: "watch_pc \<Rightarrow> bool" where
  "is_handling (WHandling li) = True"
| "is_handling _ = False"

definition count :: "(watch_label \<Rightarrow> bool) \<Rightarrow> watch_label list \<Rightarrow> nat" where
  "count P ls = length (filter P ls)"

lemma count_simps [simp]:
  "count P [] = 0" "count P (l # ls) = (if P l then Suc (count P ls) else count P ls)"
  by (simp_all add: count_def)

text \<open>A listing is handled after it was received.\<close>

lemma watch_step_balance:
  "watch_step kv c ord i w l w' \<Longrightarrow>
     (if is_handled l then 1 else 0) + (if is_handling (w_pc w') then 1 else 0) \<le>
     (if is_received l then 1 else 0) + (if is_handling (w_pc w) then 1 else (0 :: nat))"
  by (erule watch_step_cases) auto

lemma watch_run_balance:
  "watch_run kv c ord i w ls w' \<Longrightarrow>
     count is_handled ls \<le> count is_received ls + (if is_handling (w_pc w) then 1 else 0)"
proof (induction rule: watch_run.induct)
  case (watch_cons w l w' ls w'')
  from watch_step_balance [OF watch_cons(1)] watch_cons.IH show ?case by (auto split: if_splits)
qed simp

section \<open>When the channel is closed\<close>

lemma watch_step_closed:
  "watch_step kv c ord i w l w' \<Longrightarrow> w_feed w = FClosed \<Longrightarrow> w_pc w \<noteq> WPrepare \<Longrightarrow>
     w_feed w' = FClosed \<and> w_pc w' \<noteq> WPrepare \<and> \<not> is_received l"
  by (erule watch_step_cases) auto

lemma watch_run_closed:
  "watch_run kv c ord i w ls w' \<Longrightarrow> w_feed w = FClosed \<Longrightarrow> w_pc w \<noteq> WPrepare \<Longrightarrow>
     w_feed w' = FClosed \<and> w_pc w' \<noteq> WPrepare \<and> count is_received ls = 0"
  by (induction rule: watch_run.induct) (auto dest!: watch_step_closed)

lemma watch_step_idle:
  "watch_step kv c ord i w l w' \<Longrightarrow> w_feed w = FClosed \<Longrightarrow> w_pc w \<in> {WReceive, WClosed, WEnd} \<Longrightarrow>
     w_pc w' \<in> {WReceive, WClosed, WEnd} \<and> w_base w' = w_base w"
  by (erule watch_step_cases) auto

lemma watch_run_idle:
  "watch_run kv c ord i w ls w' \<Longrightarrow> w_feed w = FClosed \<Longrightarrow> w_pc w \<in> {WReceive, WClosed, WEnd} \<Longrightarrow>
     w_pc w' \<in> {WReceive, WClosed, WEnd} \<and> w_base w' = w_base w"
proof (induction rule: watch_run.induct)
  case (watch_cons w l w' ls w'')
  have "w_feed w' = FClosed" using watch_step_closed [OF watch_cons(1,4)] watch_cons(5) by auto
  with watch_step_idle [OF watch_cons(1,4,5)] watch_cons.IH show ?case by simp
qed simp

text \<open>C33: once the feed of changes broke, the watch is over: no further listing is received, at most the
  one in hand is handled, and from then on the table of services stays as it is, whatever happens to
  the store, although the loop around the handler is there to subscribe again.\<close>

theorem watch_never_resubscribes:
  assumes "watch_run kv c ord i w ls w'" and "w_feed w = FClosed" and "w_pc w \<noteq> WPrepare"
  shows "count is_received ls = 0 \<and> w_pc w' \<noteq> WPrepare \<and>
    count is_handled ls \<le> (if is_handling (w_pc w) then 1 else 0) \<and>
    (w_pc w \<in> {WReceive, WClosed, WEnd} \<longrightarrow> w_base w' = w_base w \<and> w_pc w' \<in> {WReceive, WClosed, WEnd})"
  using watch_run_closed [OF assms] watch_run_balance [OF assms(1)] watch_run_idle [OF assms(1,2)] by simp

section \<open>After the stop\<close>

text \<open>How many listings a stopped watcher can still receive.\<close>

definition remaining :: "watch_pc \<Rightarrow> feed_pc \<Rightarrow> nat" where
  "remaining pc f =
     (if pc = WPrepare then 1 else if f = FCheck \<or> f = FClosed then 0 else 1)"

lemma watch_step_stopped:
  "watch_step kv c ord i w l w' \<Longrightarrow> w_stopped w \<Longrightarrow>
     w_stopped w' \<and> (if is_received l then 1 else 0) + remaining (w_pc w') (w_feed w') \<le> remaining (w_pc w) (w_feed w)"
  by (erule watch_step_cases) (auto simp: remaining_def)

lemma watch_run_stopped:
  "watch_run kv c ord i w ls w' \<Longrightarrow> w_stopped w \<Longrightarrow>
     w_stopped w' \<and> count is_received ls + remaining (w_pc w') (w_feed w') \<le> remaining (w_pc w) (w_feed w)"
proof (induction rule: watch_run.induct)
  case (watch_cons w l w' ls w'')
  from watch_step_stopped [OF watch_cons(1,4)] watch_cons.IH show ?case by (auto split: if_splits)
qed simp

text \<open>C34: after the stop channel of a watch is closed it receives at most one more listing, and none if
  its feed has ended or comes to look at the stop channel first; with the one it may be handling it
  handles at most two more.\<close>

theorem watch_stop_bound:
  assumes "watch_run kv c ord i w ls w'" and "w_stopped w"
  shows "count is_received ls \<le> remaining (w_pc w) (w_feed w) \<and> remaining (w_pc w) (w_feed w) \<le> 1 \<and>
    count is_handled ls \<le> count is_received ls + (if is_handling (w_pc w) then 1 else 0)"
proof -
  from watch_run_stopped [OF assms] have "count is_received ls \<le> remaining (w_pc w) (w_feed w)" by simp
  then show ?thesis using watch_run_balance [OF assms(1)] by (simp add: remaining_def)
qed

section \<open>What is handled\<close>

lemma watch_step_handled:
  "watch_step kv c ord i w (Handled li) w' \<Longrightarrow> w_pc w = WHandling li \<and>
     (case handler_event ord i li (w_base w) of Some b \<Rightarrow> w_base w' = b | None \<Rightarrow> w_pc w' = WPanic)"
  by (erule watch_step_cases) auto

section \<open>Examples\<close>

text \<open>The nginx node of the example configuration on a store without any service.\<close>

definition demo_watcher :: "watch_pc \<Rightarrow> feed_pc \<Rightarrow> bool \<Rightarrow> (mem, nginx, os) watcher" where
  "demo_watcher pc f stopped =
     \<lparr>w_pc = pc, w_feed = f, w_store = demo_state [] [], w_base = new_lb demo_conf nginx_os, w_stopped = stopped\<rparr>"

lemma demo_empty_event:
  "handler_event ord (nginx_impl demo_conf) [] (new_lb demo_conf nginx_os) = Some (new_lb demo_conf nginx_os)"
  if "ord [] = []"
  using that by (simp add: handler_event_def handler_add_or_update_def handler_delete_def new_lb_def)

lemma watch_never_resubscribes_witness:
  "\<exists>ls w'. watch_run demo_kv demo_conf rev (nginx_impl demo_conf) (demo_watcher WReceive FClosed False) ls w' \<and>
     ls = [Others, Internal, Stopped, Internal] \<and> count is_handled ls = 0 \<and> w_base w' = new_lb demo_conf nginx_os"
proof -
  let ?step = "watch_step demo_kv demo_conf rev (nginx_impl demo_conf)"
  let ?w = "demo_watcher WReceive FClosed False" and ?s = "demo_state [(''a'', ''x'')] []"
  let ?w1 = "?w\<lparr>w_store := ?s\<rparr>" and ?w2 = "?w\<lparr>w_store := ?s, w_pc := WClosed\<rparr>"
  have "?step ?w Others ?w1" by (rule others)
  moreover have "?step ?w1 Internal ?w2"
    using closed [of ?w1] by (simp add: demo_watcher_def)
  moreover have "?step ?w2 Stopped (?w2\<lparr>w_stopped := True\<rparr>)" by (rule stop)
  moreover have "?step (?w2\<lparr>w_stopped := True\<rparr>) Internal (?w2\<lparr>w_stopped := True, w_pc := WEnd\<rparr>)"
    using ends [of "?w2\<lparr>w_stopped := True\<rparr>"] by (simp add: demo_watcher_def)
  ultimately have run: "watch_run demo_kv demo_conf rev (nginx_impl demo_conf) ?w [Others, Internal, Stopped, Internal]
      (?w2\<lparr>w_stopped := True, w_pc := WEnd\<rparr>)"
    by (blast intro: watch_run.intros)
  from watch_never_resubscribes [OF run] run show ?thesis by (auto simp: demo_watcher_def)
qed

text \<open>It is stopped while it handles a listing and the next one waits to be received.\<close>

lemma watch_stop_bound_witness:
  "\<exists>ls w'. watch_run demo_kv demo_conf rev (nginx_impl demo_conf) (demo_watcher (WHandling []) (FSend []) True) ls w' \<and>
     count is_received ls = 1 \<and> count is_handled ls = 2 \<and> remaining (WHandling []) (FSend []) = 1"
proof -
  let ?step = "watch_step demo_kv demo_conf rev (nginx_impl demo_conf)"
  let ?w = "demo_watcher (WHandling []) (FSend []) True"
  let ?w1 = "demo_watcher WReceive (FSend []) True" and ?w2 = "demo_watcher (WHandling []) FCheck True"
  let ?w3 = "demo_watcher WReceive FCheck True"
  have "?step ?w (Handled []) ?w1" "?step ?w2 (Handled []) ?w3"
    using handles [of ?w "[]" rev "nginx_impl demo_conf" "w_base ?w"]
      handles [of ?w2 "[]" rev "nginx_impl demo_conf" "w_base ?w2"] demo_empty_event [of rev]
    by (simp_all add: demo_watcher_def)
  moreover have "?step ?w1 (Received []) ?w2"
    using receives [of ?w1 "[]"] by (simp add: demo_watcher_def)
  ultimately have run: "watch_run demo_kv demo_conf rev (nginx_impl demo_conf) ?w [Handled [], Received [], Handled []] ?w3"
    by (blast intro: watch_run.intros)
  from watch_stop_bound [OF run] run show ?thesis by (auto simp: demo_watcher_def intro!: exI)
qed

end
