(* ===== verification/Leader.thy ===== *)
theory Leader
  imports Nginx
begin

text \<open>
  The roles of a node: \<open>Run\<close> and \<open>Change\<close> of \<open>LBBase\<close> (\<open>pkg/lbm/lbm.go\<close>) as the callbacks that
  \<open>pkg/leader/leader.go\<close> hands to the elector of client-go.  The elector calls one callback after the
  other in goroutines of their own, so the state is a list of goroutines, each with the place it has
  reached; a step moves one of them.  Channels are numbers, a closed one is in \<open>lf_closed\<close>.
\<close>

section \<open>The goroutines\<close>

text \<open>The boolean is the argument \<open>isLeader\<close> of \<open>Run\<close>, the channel its argument \<open>stopCh\<close>; the second
  channel of \<open>RunWait\<close> is the one \<open>Run\<close> made for its watch.\<close>

datatype thread =
    ChangeMake                \<comment> \<open>at the start of \<open>Change\<close>\<close>
  | ChangeRun                 \<comment> \<open>\<open>b.Stop\<close> is made, \<open>Run\<close> is called\<close>
  | RunEnter bool nat         \<comment> \<open>at the start of \<open>Run\<close>\<close>
  | RunRecover bool nat       \<comment> \<open>before \<open>Recover\<close> and the change of \<open>IsLeader\<close>\<close>
  | RunSpawn bool nat         \<comment> \<open>before the watch is started\<close>
  | RunWait bool nat nat      \<comment> \<open>in the loop that polls \<open>stopCh\<close>\<close>
  | RunEnded
  | Watching nat
  | WatchEnded

datatype elector = Acquiring | Leading nat | Lost | Gone

record ('lb, 'e) life =
  lf_stop :: "nat option"
  lf_base :: "('lb, 'e) lb_base"
  lf_closed :: "nat list"
  lf_next :: nat
  lf_elector :: elector
  lf_threads :: "thread list"
  lf_panic :: bool

definition life_init :: "('lb, 'e) lb_base \<Rightarrow> ('lb, 'e) life" where
  "life_init b = \<lparr>lf_stop = None, lf_base = b, lf_closed = [], lf_next = 0, lf_elector = Acquiring,
     lf_threads = [], lf_panic = False\<rparr>"

text \<open>What the elector does: it reports another leader (\<open>OnNewLeader\<close>, while it acquires or renews),
  it starts to lead, it loses the lease and closes the channel, and then calls \<open>OnStoppedLeading\<close>.
  After that \<open>RunOrDie\<close> is over.\<close>

inductive elector_step :: "('lb, 'e) life \<Rightarrow> ('lb, 'e) life \<Rightarrow> bool" where
  reported: "lf_elector s = Acquiring \<or> lf_elector s = Leading c \<Longrightarrow>
    elector_step s (s\<lparr>lf_threads := ChangeMake # lf_threads s\<rparr>)"
| acquired: "lf_elector s = Acquiring \<Longrightarrow>
    elector_step s (s\<lparr>lf_elector := Leading (lf_next s), lf_next := Suc (lf_next s),
      lf_threads := RunEnter True (lf_next s) # lf_threads s\<rparr>)"
| lost: "lf_elector s = Leading c \<Longrightarrow>
    elector_step s (s\<lparr>lf_elector := Lost, lf_closed := c # lf_closed s\<rparr>)"
| stopped: "lf_elector s = Lost \<Longrightarrow>
    elector_step s (s\<lparr>lf_elector := Gone, lf_threads := ChangeMake # lf_threads s\<rparr>)"

text \<open>A step of one goroutine: its new place and those it starts.\<close>

inductive thread_step ::
  "(string \<times> nat) range_order \<Rightarrow> ('lb, 'e) ilb \<Rightarrow> ('lb, 'e) life \<Rightarrow> thread \<Rightarrow> thread list \<Rightarrow> ('lb, 'e) life \<Rightarrow> bool"
  for ord i s where
  make: "thread_step ord i s ChangeMake [ChangeRun]
    (s\<lparr>lf_stop := Some (lf_next s), lf_next := Suc (lf_next s)\<rparr>)"
| run: "lf_stop s = Some c \<Longrightarrow> thread_step ord i s ChangeRun [RunEnter False c] s"
| enter_follower: "thread_step ord i s (RunEnter False c) [RunRecover False c] s"
| enter_leader: "lf_stop s = None \<Longrightarrow> thread_step ord i s (RunEnter True c) [RunRecover True c] s"
| enter_closes: "lf_stop s = Some d \<Longrightarrow> d \<notin> set (lf_closed s) \<Longrightarrow>
    thread_step ord i s (RunEnter True c) [RunRecover True c] (s\<lparr>lf_closed := d # lf_closed s\<rparr>)"
| enter_panics: "lf_stop s = Some d \<Longrightarrow> d \<in> set (lf_closed s) \<Longrightarrow>
    thread_step ord i s (RunEnter True c) [RunEnded] (s\<lparr>lf_panic := True\<rparr>)"
| recover: "thread_step ord i s (RunRecover ldr c) [RunSpawn ldr c]
    (s\<lparr>lf_base := run_start i ldr (lf_base s)\<rparr>)"
| spawn: "thread_step ord i s (RunSpawn ldr c) [RunWait ldr c (lf_next s), Watching (lf_next s)]
    (s\<lparr>lf_next := Suc (lf_next s)\<rparr>)"
| run_ends: "c \<in> set (lf_closed s) \<Longrightarrow> d \<notin> set (lf_closed s) \<Longrightarrow>
    thread_step ord i s (RunWait ldr c d) [RunEnded] (s\<lparr>lf_closed := d # lf_closed s\<rparr>)"
| run_panics: "c \<in> set (lf_closed s) \<Longrightarrow> d \<in> set (lf_closed s) \<Longrightarrow>
    thread_step ord i s (RunWait ldr c d) [RunEnded] (s\<lparr>lf_panic := True\<rparr>)"
| event: "handler_event ord i li (lf_base s) = Some b \<Longrightarrow>
    thread_step ord i s (Watching d) [Watching d] (s\<lparr>lf_base := b\<rparr>)"
| watch_ends: "d \<in> set (lf_closed s) \<Longrightarrow> thread_step ord i s (Watching d) [WatchEnded] s"

inductive life_step ::
  "(string \<times> nat) range_order \<Rightarrow> ('lb, 'e) ilb \<Rightarrow> ('lb, 'e) life \<Rightarrow> ('lb, 'e) life \<Rightarrow> bool"
  for ord i where
  elector: "elector_step s s' \<Longrightarrow> life_step ord i s s'"
| moves: "lf_threads s = xs @ t # ys \<Longrightarrow> thread_step ord i s t ts s' \<Longrightarrow>
    life_step ord i s (s'\<lparr>lf_threads := xs @ ts @ ys\<rparr>)"

inductive life_run ::
  "(string \<times> nat) range_order \<Rightarrow> ('lb, 'e) ilb \<Rightarrow> ('lb, 'e) life \<Rightarrow> ('lb, 'e) life \<Rightarrow> bool"
  for ord i where
  life_refl: "life_run ord i s s"
| life_snoc: "life_run ord i s s' \<Longrightarrow> life_step ord i s' s'' \<Longrightarrow> life_run ord i s s''"

section \<open>Channels\<close>

fun inner :: "thread \<Rightarrow> nat list" where
  "inner (RunWait ldr c d) = [d]"
| "inner _ = []"

fun outer :: "thread \<Rightarrow> nat list" where
  "outer (RunEnter ldr c) = [c]"
| "outer (RunRecover ldr c) = [c]"
| "outer (RunSpawn ldr c) = [c]"
| "outer (RunWait ldr c d) = [c]"
| "outer _ = []"

fun leads :: "thread \<Rightarrow> bool" where
  "leads (RunEnter ldr c) = ldr"
| "leads (RunRecover ldr c) = ldr"
| "leads (RunSpawn ldr c) = ldr"
| "leads (RunWait ldr c d) = ldr"
| "leads _ = False"

fun entering :: "thread \<Rightarrow> bool" where
  "entering (RunEnter ldr c) = ldr"
| "entering _ = False"

definition inners :: "thread list \<Rightarrow> nat list" where
  "inners ts = concat (map inner ts)"

fun elector_chan :: "elector \<Rightarrow> nat list" where
  "elector_chan (Leading c) = [c]"
| "elector_chan _ = []"

text \<open>The channels that \<open>Change\<close> or the elector made.\<close>

definition outers :: "('lb, 'e) life \<Rightarrow> nat set" where
  "outers s = set (concat (map outer (lf_threads s))) \<union> set_option (lf_stop s) \<union> set (elector_chan (lf_elector s))"

definition fresh_channels :: "nat set \<Rightarrow> nat list \<Rightarrow> nat set \<Rightarrow> nat \<Rightarrow> bool" where
  "fresh_channels outs ins closed n \<longleftrightarrow>
     (\<forall>c \<in> outs \<union> set ins \<union> closed. c < n) \<and> distinct ins \<and> set ins \<inter> (outs \<union> closed) = {}"

definition channels_ok :: "('lb, 'e) life \<Rightarrow> bool" where
  "channels_ok s \<longleftrightarrow> fresh_channels (outers s) (inners (lf_threads s)) (set (lf_closed s)) (lf_next s)"

definition roles_ok :: "('lb, 'e) life \<Rightarrow> bool" where
  "roles_ok s \<longleftrightarrow>
     length (filter leads (lf_threads s)) \<le> 1 \<and>
     (lf_elector s = Acquiring \<longrightarrow> filter leads (lf_threads s) = []) \<and>
     (\<forall>c. lf_elector s = Leading c \<longrightarrow> lf_stop s \<noteq> Some c) \<and>
     (lf_elector s = Acquiring \<or> (\<exists>t \<in> set (lf_threads s). entering t) \<longrightarrow>
        (\<forall>c. lf_stop s = Some c \<longrightarrow> c \<notin> set (lf_closed s))) \<and>
     \<not> lf_panic s"

lemma inners_simps [simp]:
  "inners [] = []" "inners (t # ts) = inner t @ inners ts" "inners (xs @ ys) = inners xs @ inners ys"
  by (simp_all add: inners_def)

lemma fresh_channels_weaken:
  "fresh_channels outs ins closed n \<Longrightarrow> outs' \<subseteq> outs \<Longrightarrow> closed' \<subseteq> outs \<union> closed \<Longrightarrow>
     fresh_channels outs' ins closed' n"
  by (auto simp: fresh_channels_def)

lemma fresh_channels_outer:
  "fresh_channels outs ins closed n \<Longrightarrow> outs' \<subseteq> insert n outs \<Longrightarrow> fresh_channels outs' ins closed (Suc n)"
  unfolding fresh_channels_def less_Suc_eq subset_iff disjoint_iff by auto

lemma fresh_channels_spawn:
  "fresh_channels outs (as @ bs) closed n \<Longrightarrow> outs' \<subseteq> outs \<Longrightarrow> fresh_channels outs' (as @ n # bs) closed (Suc n)"
  unfolding fresh_channels_def less_Suc_eq subset_iff disjoint_iff by auto

lemma fresh_channels_end:
  "fresh_channels outs (as @ d # bs) closed n \<Longrightarrow> outs' \<subseteq> outs \<Longrightarrow>
     fresh_channels outs' (as @ bs) (insert d closed) n"
  by (fastforce simp: fresh_channels_def)

lemma channels_init: "channels_ok (life_init b)"
  by (simp add: channels_ok_def life_init_def outers_def fresh_channels_def)

lemma roles_init: "roles_ok (life_init b)"
  by (simp add: roles_ok_def life_init_def)

lemma channels_elector:
  assumes "elector_step s s'" and ok: "channels_ok s"
  shows "channels_ok s'"
  using assms(1)
proof cases
  case acquired
  with ok show ?thesis
    by (simp add: channels_ok_def) (rule fresh_channels_outer, assumption, auto simp: outers_def)
qed (use ok in \<open>simp add: channels_ok_def, elim fresh_channels_weaken; auto simp: outers_def\<close>)+

lemma channels_thread:
  assumes "thread_step ord i s t ts s'" and th: "lf_threads s = xs @ t # ys" and ok: "channels_ok s"
  shows "channels_ok (s'\<lparr>lf_threads := xs @ ts @ ys\<rparr>)"
  using assms(1)
proof cases
  case make
  with ok th show ?thesis
    by (simp add: channels_ok_def) (rule fresh_channels_outer, assumption, auto simp: outers_def)
next
  case (spawn ldr c)
  with ok th show ?thesis
    by (simp add: channels_ok_def) (rule fresh_channels_spawn, assumption, auto simp: outers_def)
next
  case (run_ends c d ldr)
  with ok th show ?thesis
    by (simp add: channels_ok_def) (rule fresh_channels_end, assumption, auto simp: outers_def)
next
  case (run_panics c d ldr)
  with ok th have False by (auto simp: channels_ok_def fresh_channels_def)
  then show ?thesis ..
qed (use ok th in \<open>simp add: channels_ok_def, elim fresh_channels_weaken; auto simp: outers_def\<close>)+

section \<open>Roles\<close>

lemma roles_elector:
  assumes "elector_step s s'" and "channels_ok s" and ok: "roles_ok s"
  shows "roles_ok s'"
  using assms(1)
proof cases
  case acquired
  moreover from assms(2) have "lf_stop s \<noteq> Some (lf_next s)"
    by (auto simp: channels_ok_def fresh_channels_def outers_def)
  ultimately show ?thesis using ok by (auto simp: roles_ok_def)
next
  case (lost c)
  with ok show ?thesis by (auto simp: roles_ok_def)
qed (use ok in \<open>auto simp: roles_ok_def\<close>)

text \<open>At most one goroutine enters \<open>Run\<close> as the leader, and nobody closed \<open>b.Stop\<close> before.\<close>

lemma one_enters:
  assumes "roles_ok s" and "lf_threads s = xs @ RunEnter True c # ys"
  shows "filter leads xs = [] \<and> filter leads ys = [] \<and> lf_elector s \<noteq> Acquiring \<and>
    (\<forall>d. lf_stop s = Some d \<longrightarrow> d \<notin> set (lf_closed s))"
  using assms by (auto simp: roles_ok_def)

lemma entering_leads: "entering t \<Longrightarrow> leads t"
  by (cases t) auto

lemma none_enters: "filter leads ts = [] \<Longrightarrow> t \<in> set ts \<Longrightarrow> \<not> entering t"
  using entering_leads by (auto simp: filter_empty_conv)

lemma roles_thread:
  assumes "thread_step ord i s t ts s'" and th: "lf_threads s = xs @ t # ys"
    and ch: "channels_ok s" and ok: "roles_ok s"
  shows "roles_ok (s'\<lparr>lf_threads := xs @ ts @ ys\<rparr>)"
  using assms(1)
proof cases
  case make
  moreover from ch have "lf_elector s \<noteq> Leading (lf_next s)" "lf_next s \<notin> set (lf_closed s)"
    by (auto simp: channels_ok_def fresh_channels_def outers_def)
  ultimately show ?thesis using ok th by (auto simp: roles_ok_def)
next
  case (enter_leader c)
  with one_enters [OF ok] th have "filter leads xs = []" "filter leads ys = []" "lf_elector s \<noteq> Acquiring" by auto
  with enter_leader ok th show ?thesis by (auto simp: roles_ok_def)
next
  case (enter_closes d c)
  with one_enters [OF ok] th have n: "filter leads xs = []" "filter leads ys = []" "lf_elector s \<noteq> Acquiring" by auto
  from n none_enters have "\<forall>t \<in> set xs \<union> set ys. \<not> entering t" by blast
  with n enter_closes ok th show ?thesis by (auto simp: roles_ok_def)
next
  case (enter_panics d c)
  with one_enters [OF ok] th show ?thesis by auto
next
  case (run_ends c d ldr)
  moreover from this ch th have "lf_stop s \<noteq> Some d"
    by (auto simp: channels_ok_def fresh_channels_def outers_def)
  ultimately show ?thesis using ok th by (auto simp: roles_ok_def split: if_splits)
next
  case (run_panics c d ldr)
  with ch th have False by (auto simp: channels_ok_def fresh_channels_def)
  then show ?thesis ..
qed (use ok th in \<open>auto simp: roles_ok_def\<close>)

lemma life_step_ok:
  assumes "life_step ord i s s'" and "channels_ok s \<and> roles_ok s"
  shows "channels_ok s' \<and> roles_ok s'"
  using assms(1)
proof cases
  case elector
  with assms(2) show ?thesis using channels_elector roles_elector by blast
next
  case (moves xs t ys ts s1)
  with assms(2) show ?thesis using channels_thread roles_thread by blast
qed

lemma life_run_ok: "life_run ord i s s' \<Longrightarrow> channels_ok s \<and> roles_ok s \<Longrightarrow> channels_ok s' \<and> roles_ok s'"
  by (induction rule: life_run.induct) (auto dest: life_step_ok)

lemma life_ok: "life_run ord i (life_init b) s \<Longrightarrow> channels_ok s \<and> roles_ok s"
  by (erule life_run_ok) (simp add: channels_init roles_init)

text \<open>C18: in every interleaving of the callbacks at most one call of \<open>Run\<close> acts as the leader, the one
  of an elector that acquired the lease, and \<open>Run\<close> never closes a closed channel, neither \<open>b.Stop\<close> nor
  the one of its own watch, which would be a panic.\<close>

theorem one_leader_run:
  assumes "life_run ord i (life_init b) s"
  shows "length (filter leads (lf_threads s)) \<le> 1 \<and> \<not> lf_panic s \<and>
    (lf_elector s = Acquiring \<longrightarrow> filter leads (lf_threads s) = [])"
  using life_ok [OF assms] by (simp add: roles_ok_def)

section \<open>After the lease was lost\<close>

lemma collect_changed_leader [frame_simps]: "b_leader (snd (collect_changed i li lbs b)) = b_leader b"
  by (induction i li lbs b rule: collect_changed.induct) (auto simp: Let_def split: option.split)

lemma config_all_leader: "config_all i as need b = Some (need', b') \<Longrightarrow> b_leader b' = b_leader b"
  by (induction i as need b rule: config_all.induct) (auto split: option.splits)

lemma collect_gone_leader [frame_simps]: "b_leader (snd (collect_gone i li es lbs b)) = b_leader b"
  by (induction i li es lbs b rule: collect_gone.induct) auto

lemma handler_event_leader:
  assumes "handler_event ord i li b = Some b'"
  shows "b_leader b' = b_leader b"
proof -
  obtain lbs b1 where c: "collect_changed i li [] b = (lbs, b1)" by fastforce
  with assms obtain need b2 where z: "config_all i lbs False b1 = Some (need, b2)"
    by (auto simp: handler_event_def handler_add_or_update_def split: option.splits)
  obtain ns b3 where g: "collect_gone i li (ord (b_elem b2)) [] b2 = (ns, b3)" by fastforce
  obtain need' e where d: "delete_all i (b_leader b3) ns False (b_env b3) = (need', e)" by fastforce
  from assms c z g d have "b_leader b' = b_leader b3"
    by (auto simp: handler_event_def handler_add_or_update_def handler_delete_def split: if_splits)
  also have "\<dots> = b_leader b"
    using collect_changed_leader [of i li "[]" b] config_all_leader [OF z]
      collect_gone_leader [of i li "ord (b_elem b2)" "[]" b2] c g by simp
  finally show ?thesis .
qed

lemma run_start_leader [frame_simps]: "b_leader (run_start i ldr b) = ldr"
  by (simp add: run_start_def Let_def)

text \<open>The goroutines that are still to set \<open>IsLeader\<close>.\<close>

fun to_lead :: "thread \<Rightarrow> bool" where
  "to_lead (RunEnter ldr c) = ldr"
| "to_lead (RunRecover ldr c) = ldr"
| "to_lead _ = False"

definition demoted :: "('lb, 'e) life \<Rightarrow> bool" where
  "demoted s \<longleftrightarrow> lf_elector s \<in> {Lost, Gone} \<and> (\<forall>t \<in> set (lf_threads s). \<not> to_lead t) \<and> \<not> b_leader (lf_base s)"

lemma demoted_step:
  assumes "life_step ord i s s'" and "demoted s"
  shows "demoted s'"
  using assms(1)
proof cases
  case elector
  then show ?thesis using assms(2) by cases (auto simp: demoted_def)
next
  case (moves xs t ys ts s1)
  from moves(3) show ?thesis
    by cases (use moves(1,2) assms(2) in \<open>auto simp: demoted_def frame_simps dest: handler_event_leader\<close>)
qed

text \<open>C36: a node that lost the lease is done: once it runs as a follower, it never leads again,
  because \<open>RunOrDie\<close> is not called a second time and the process does not exit.\<close>

theorem never_leads_again:
  assumes "life_run ord i s s'" and "demoted s"
  shows "demoted s' \<and> lf_elector s' \<noteq> Acquiring \<and> \<not> b_leader (lf_base s')"
proof -
  have "demoted s'" using assms by (induction rule: life_run.induct) (auto intro: demoted_step)
  then show ?thesis by (auto simp: demoted_def)
qed

section \<open>Forgotten followers\<close>

text \<open>A run whose stop channel is no longer the one in \<open>b.Stop\<close>.\<close>

definition orphan :: "nat \<Rightarrow> nat \<Rightarrow> ('lb, 'e) life \<Rightarrow> bool" where
  "orphan c d s \<longleftrightarrow> RunWait False c d \<in> set (lf_threads s) \<and> Watching d \<in> set (lf_threads s) \<and>
     c \<notin> set (lf_closed s) \<and> lf_stop s \<noteq> Some c \<and> c \<notin> set (elector_chan (lf_elector s))"

lemma orphan_channels:
  assumes "orphan c d s" and "channels_ok s"
  shows "c < lf_next s" and "d \<notin> set (lf_closed s)"
    and "RunWait ldr c' d' \<in> set (lf_threads s) \<Longrightarrow> d' \<noteq> c"
proof -
  from assms(1) have w: "RunWait False c d \<in> set (lf_threads s)" by (simp add: orphan_def)
  have c: "c \<in> outers s"
    using bexI [OF _ w, of "\<lambda>t. c \<in> set (outer t)"] by (simp add: outers_def)
  have d: "d \<in> set (inners (lf_threads s))"
    using bexI [OF _ w, of "\<lambda>t. d \<in> set (inner t)"] by (simp add: inners_def)
  from assms(2) c d show "c < lf_next s" "d \<notin> set (lf_closed s)"
    by (auto simp: channels_ok_def fresh_channels_def)
  assume "RunWait ldr c' d' \<in> set (lf_threads s)"
  from bexI [OF _ this, of "\<lambda>t. d' \<in> set (inner t)"]
  have "d' \<in> set (inners (lf_threads s))" by (simp add: inners_def)
  with assms(2) c show "d' \<noteq> c" by (auto simp: channels_ok_def fresh_channels_def)
qed

lemma orphan_step:
  assumes "life_step ord i s s'" and orp: "orphan c d s" and ch: "channels_ok s"
  shows "orphan c d s'"
  using assms(1)
proof cases
  case elector
  then show ?thesis using orp orphan_channels [OF orp ch] by cases (auto simp: orphan_def)
next
  case (moves xs t ys ts s1)
  from moves(3) show ?thesis
    by cases (use moves(1,2) orp orphan_channels [OF orp ch] in \<open>auto simp: orphan_def\<close>)
qed

lemma orphan_run: "life_run ord i s s' \<Longrightarrow> orphan c d s \<Longrightarrow> channels_ok s \<and> roles_ok s \<Longrightarrow> orphan c d s'"
  by (induction rule: life_run.induct) (auto intro: orphan_step dest: life_run_ok)

text \<open>C35: \<open>Change\<close> forgets the channel of the run before: a follower run whose channel is not in
  \<open>b.Stop\<close> any more is never stopped, it and its watch go on whatever happens, beside the runs that
  come later.\<close>

theorem orphan_forever:
  assumes "life_run ord i (life_init b) s" and "orphan c d s" and "life_run ord i s s'"
  shows "orphan c d s' \<and> d \<notin> set (lf_closed s')"
  using orphan_run [OF assms(3,2) life_ok [OF assms(1)]] life_run_ok [OF assms(3) life_ok [OF assms(1)]]
    orphan_channels(2) by blast

section \<open>Example runs\<close>

text \<open>A schedule: the elector's choices, and the position of the goroutine that moves.\<close>

datatype move = Report | Acquire | Lose | Stop_leading | Go nat

fun advance :: "('lb, 'e) ilb \<Rightarrow> thread \<Rightarrow> ('lb, 'e) life \<Rightarrow> (thread list \<times> ('lb, 'e) life) option" where
  "advance i ChangeMake s = Some ([ChangeRun], s\<lparr>lf_stop := Some (lf_next s), lf_next := Suc (lf_next s)\<rparr>)"
| "advance i ChangeRun s = (case lf_stop s of None \<Rightarrow> None | Some c \<Rightarrow> Some ([RunEnter False c], s))"
| "advance i (RunEnter ldr c) s =
     (if \<not> ldr then Some ([RunRecover False c], s)
      else case lf_stop s of
             None \<Rightarrow> Some ([RunRecover True c], s)
           | Some d \<Rightarrow> if d \<in> set (lf_closed s) then None
                       else Some ([RunRecover True c], s\<lparr>lf_closed := d # lf_closed s\<rparr>))"
| "advance i (RunRecover ldr c) s = Some ([RunSpawn ldr c], s\<lparr>lf_base := run_start i ldr (lf_base s)\<rparr>)"
| "advance i (RunSpawn ldr c) s =
     Some ([RunWait ldr c (lf_next s), Watching (lf_next s)], s\<lparr>lf_next := Suc (lf_next s)\<rparr>)"
| "advance i (RunWait ldr c d) s =
     (if c \<in> set (lf_closed s) \<and> d \<notin> set (lf_closed s) then Some ([RunEnded], s\<lparr>lf_closed := d # lf_closed s\<rparr>)
      else None)"
| "advance i (Watching d) s = (if d \<in> set (lf_closed s) then Some ([WatchEnded], s) else None)"
| "advance i t s = None"

fun play :: "('lb, 'e) ilb \<Rightarrow> move \<Rightarrow> ('lb, 'e) life \<Rightarrow> ('lb, 'e) life option" where
  "play i Report s =
     (if lf_elector s \<in> {Lost, Gone} then None else Some (s\<lparr>lf_threads := ChangeMake # lf_threads s\<rparr>))"
| "play i Acquire s =
     (if lf_elector s = Acquiring then
        Some (s\<lparr>lf_elector := Leading (lf_next s), lf_next := Suc (lf_next s),
                lf_threads := RunEnter True (lf_next s) # lf_threads s\<rparr>)
      else None)"
| "play i Lose s =
     (case lf_elector s of Leading c \<Rightarrow> Some (s\<lparr>lf_elector := Lost, lf_closed := c # lf_closed s\<rparr>) | _ \<Rightarrow> None)"
| "play i Stop_leading s =
     (if lf_elector s = Lost then Some (s\<lparr>lf_elector := Gone, lf_threads := ChangeMake # lf_threads s\<rparr>) else None)"
| "play i (Go n) s =
     (if n < length (lf_threads s) then
        (case advance i (lf_threads s ! n) s of
           None \<Rightarrow> None
         | Some (ts, s') \<Rightarrow> Some (s'\<lparr>lf_threads := take n (lf_threads s) @ ts @ drop (Suc n) (lf_threads s)\<rparr>))
      else None)"

fun plays :: "('lb, 'e) ilb \<Rightarrow> move list \<Rightarrow> ('lb, 'e) life \<Rightarrow> ('lb, 'e) life option" where
  "plays i [] s = Some s"
| "plays i (m # ms) s = (case play i m s of None \<Rightarrow> None | Some s' \<Rightarrow> plays i ms s')"

lemma advance_step:
  assumes "advance i t s = Some (ts, s')"
  shows "thread_step ord i s t ts s'"
proof (cases t)
  case (RunEnter ldr c)
  with assms show ?thesis
    by (cases ldr; cases "lf_stop s")
      (auto simp: thread_step.enter_follower thread_step.enter_leader split: if_splits
        intro: thread_step.enter_closes)
next
  case (RunWait ldr c d)
  with assms show ?thesis by (auto intro: thread_step.run_ends split: if_splits)
next
  case (Watching d)
  with assms show ?thesis by (auto intro: thread_step.watch_ends split: if_splits)
next
  case ChangeRun
  with assms show ?thesis by (auto intro: thread_step.run split: option.splits)
qed (use assms thread_step.make thread_step.recover thread_step.spawn in \<open>auto\<close>)

lemma play_step: "play i m s = Some s' \<Longrightarrow> life_step ord i s s'"
proof (induction i m s rule: play.induct)
  case (1 i s)
  then have s': "s' = s\<lparr>lf_threads := ChangeMake # lf_threads s\<rparr>" and "lf_elector s \<notin> {Lost, Gone}"
    by (simp_all split: if_splits)
  then obtain c where "lf_elector s = Acquiring \<or> lf_elector s = Leading c"
    by (cases "lf_elector s") auto
  from life_step.elector [OF elector_step.reported [OF this]] s' show ?case by simp
next
  case (5 i n s)
  then obtain ts s1 where a: "n < length (lf_threads s)" "advance i (lf_threads s ! n) s = Some (ts, s1)"
    "s' = s1\<lparr>lf_threads := take n (lf_threads s) @ ts @ drop (Suc n) (lf_threads s)\<rparr>"
    by (auto split: if_splits option.splits)
  from moves [OF id_take_nth_drop [OF a(1)] advance_step [OF a(2)]] a(3) show ?case by simp
next
  case (2 i s)
  then have "lf_elector s = Acquiring" "s' = s\<lparr>lf_elector := Leading (lf_next s), lf_next := Suc (lf_next s),
      lf_threads := RunEnter True (lf_next s) # lf_threads s\<rparr>"
    by (simp_all split: if_splits)
  with life_step.elector [OF elector_step.acquired [of s]] show ?case by simp
next
  case (3 i s)
  then obtain c where "lf_elector s = Leading c" "s' = s\<lparr>lf_elector := Lost, lf_closed := c # lf_closed s\<rparr>"
    by (auto split: elector.splits)
  with life_step.elector [OF elector_step.lost [of s c]] show ?case by simp
next
  case (4 i s)
  then have "lf_elector s = Lost" "s' = s\<lparr>lf_elector := Gone, lf_threads := ChangeMake # lf_threads s\<rparr>"
    by (simp_all split: if_splits)
  with life_step.elector [OF elector_step.stopped [of s]] show ?case by simp
qed

lemma life_run_trans: "life_run ord i s' s'' \<Longrightarrow> life_run ord i s s' \<Longrightarrow> life_run ord i s s''"
  by (induction rule: life_run.induct) (auto intro: life_snoc)

lemma plays_run: "plays i ms s = Some s' \<Longrightarrow> life_run ord i s s'"
proof (induction i ms s rule: plays.induct)
  case (2 i m ms s)
  then obtain s1 where s1: "play i m s = Some s1" "plays i ms s1 = Some s'" by (auto split: option.splits)
  from life_run_trans [OF 2(1) [OF s1] life_snoc [OF life_refl play_step [OF s1(1)]]] show ?case .
qed (simp add: life_refl)

text \<open>Two other leaders are reported one after the other, then this node leads.\<close>

definition follow :: "move list" where
  "follow = Report # replicate 5 (Go 0)"

definition lead :: "move list" where
  "lead = Acquire # replicate 3 (Go 0)"

definition demoting :: "move list" where
  "demoting = Lose # Stop_leading # replicate 5 (Go 0)"

lemma plays_append:
  "plays i (xs @ ys) s = (case plays i xs s of None \<Rightarrow> None | Some s' \<Rightarrow> plays i ys s')"
  by (induction xs arbitrary: s) (auto split: option.split)

lemma follow_twice:
  "\<exists>s. plays i (follow @ follow) (life_init b) = Some s \<and> orphan 0 1 s \<and> lf_stop s = Some 2 \<and>
     lf_closed s = [] \<and> lf_next s = 4 \<and> lf_elector s = Acquiring \<and>
     lf_threads s = [RunWait False 2 3, Watching 3, RunWait False 0 1, Watching 1]"
  by (simp add: follow_def life_init_def orphan_def numeral_eq_Suc)

lemma lead_after:
  assumes "lf_stop s = Some 2" and "lf_closed s = []" and "lf_next s = 4" and "lf_elector s = Acquiring"
  shows "\<exists>s'. plays i lead s = Some s' \<and> lf_closed s' = [2] \<and>
     lf_threads s' = RunWait True 4 5 # Watching 5 # lf_threads s"
  using assms by (simp add: lead_def numeral_eq_Suc)

lemma lead_alone:
  "\<exists>s. plays i lead (life_init b) = Some s \<and> lf_threads s = [RunWait True 0 1, Watching 1] \<and>
     lf_elector s = Leading 0 \<and> b_leader (lf_base s) \<and> lf_next s = 2"
  by (simp add: lead_def life_init_def frame_simps numeral_eq_Suc)

lemma demote_after:
  assumes "lf_elector s = Leading 0" and "lf_threads s = [RunWait True 0 1, Watching 1]"
  shows "\<exists>s'. plays i demoting s = Some s' \<and> demoted s'"
  using assms by (simp add: demoting_def demoted_def frame_simps numeral_eq_Suc)

lemma one_leader_run_witness:
  "\<exists>s. life_run rev (nginx_impl demo_conf) (life_init (new_lb demo_conf nginx_os)) s \<and>
     length (filter leads (lf_threads s)) \<le> 1 \<and> \<not> lf_panic s \<and> RunWait True 0 1 \<in> set (lf_threads s)"
proof -
  obtain s where s: "plays (nginx_impl demo_conf) lead (life_init (new_lb demo_conf nginx_os)) = Some s"
    "lf_threads s = [RunWait True 0 1, Watching 1]"
    using lead_alone by blast
  from s(2) have "RunWait True 0 1 \<in> set (lf_threads s)" by simp
  with one_leader_run [OF plays_run [OF s(1)]] plays_run [OF s(1)] show ?thesis by blast
qed

lemma never_leads_again_witness:
  "\<exists>s s'. life_run rev (nginx_impl demo_conf) (life_init (new_lb demo_conf nginx_os)) s \<and> b_leader (lf_base s) \<and>
     life_run rev (nginx_impl demo_conf) s s' \<and> demoted s' \<and> \<not> b_leader (lf_base s')"
proof -
  obtain s where s: "plays (nginx_impl demo_conf) lead (life_init (new_lb demo_conf nginx_os)) = Some s"
    "lf_threads s = [RunWait True 0 1, Watching 1]" "lf_elector s = Leading 0" "b_leader (lf_base s)"
    using lead_alone by blast
  obtain s' where s': "plays (nginx_impl demo_conf) demoting s = Some s'" "demoted s'"
    using demote_after [OF s(3,2)] by blast
  from never_leads_again [OF life_refl s'(2)] plays_run [OF s(1)] plays_run [OF s'(1)] s(4) s'(2)
  show ?thesis by blast
qed

lemma orphan_forever_witness:
  "\<exists>s s'. life_run rev (nginx_impl demo_conf) (life_init (new_lb demo_conf nginx_os)) s \<and> orphan 0 1 s \<and>
     life_run rev (nginx_impl demo_conf) s s' \<and> orphan 0 1 s' \<and> RunWait True 4 5 \<in> set (lf_threads s')"
proof -
  obtain s where s: "plays (nginx_impl demo_conf) (follow @ follow) (life_init (new_lb demo_conf nginx_os)) = Some s"
    "orphan 0 1 s" "lf_stop s = Some 2" "lf_closed s = []" "lf_next s = 4" "lf_elector s = Acquiring"
    using follow_twice by blast
  obtain s' where s': "plays (nginx_impl demo_conf) lead s = Some s'"
    "lf_threads s' = RunWait True 4 5 # Watching 5 # lf_threads s"
    using lead_after [OF s(3-6)] by blast
  from orphan_forever [OF plays_run [OF s(1)] s(2) plays_run [OF s'(1)]] plays_run [OF s(1)] plays_run [OF s'(1)]
    s(2) s'(2) show ?thesis by (metis list.set_intros(1))
qed

end
