(* ===== verification/Stats.thy ===== *)
theory Stats
  imports Lbjson
begin

text \<open>
  \<open>pkg/stats/lvs.go\<close>: the page \<open>/stats\<close> of the connection counts that a script leaves in a file, and the
  loop that serves it.
\<close>

section \<open>lvs.go\<close>

record lvs_stats =
  st_ip :: string
  st_conn :: string

definition stats_members :: "lvs_stats \<Rightarrow> (string \<times> json) list" where
  "stats_members s = enc_str ''ip'' (st_ip s) @ enc_str ''conns'' (st_conn s)"

fun stats_of_fields :: "string list \<Rightarrow> lvs_stats list" where
  "stats_of_fields ss =
     (if length ss \<noteq> 12 then []
      else if ss ! 0 = ss ! 1 \<or> contains_str (ss ! 1) ''127.0.0.1'' then []
      else [\<lparr>st_ip = ss ! 1, st_conn = ss ! 2\<rparr>])"

definition stats_list :: "string \<Rightarrow> lvs_stats list" where
  "stats_list dat = concat (map (\<lambda>v. stats_of_fields (split_on CHR '' '' v)) (split_on CHR 0x0A dat))"

text \<open>The body of the response; nothing is written when there is nothing to report.\<close>

definition get_stats :: "lb_conf \<Rightarrow> os \<Rightarrow> string" where
  "get_stats c w =
     (let xs = (case os_read_file w (sc_result_path (l4_stats (lc_l4 c))) of Inl e \<Rightarrow> [] | Inr dat \<Rightarrow> stats_list dat)
      in if xs = [] then [] else jprint (Arr (map (\<lambda>s. Obj (stats_members s)) xs)))"

text \<open>\<open>http.HandleFunc\<close> on the default mux panics when the pattern is registered already;
  \<open>ListenAndServe\<close> returns only with an error.  The list says how often it returns.\<close>

datatype 'm served = Serving 'm | ServePanic string

definition handle_func :: "string \<Rightarrow> string list \<Rightarrow> string list served" where
  "handle_func pat mux =
     (if pat \<in> set mux then ServePanic (''http: multiple registrations for '' @ pat) else Serving (mux @ [pat]))"

fun get_cps :: "string list \<Rightarrow> string list \<Rightarrow> string list served" where
  "get_cps [] mux = handle_func ''/stats'' mux"
| "get_cps (e # es) mux =
     (case handle_func ''/stats'' mux of ServePanic m \<Rightarrow> ServePanic m | Serving mux' \<Rightarrow> get_cps es mux')"

text \<open>the server does not survive a failure: the first time \<open>ListenAndServe\<close> returns (the port is in
  use, say), the loop that means to retry registers the page again and panics, which ends the
  whole program.\<close>

theorem stats_retry_panics:
  "get_cps es [] = (if es = [] then Serving [''/stats''] else ServePanic (''http: multiple registrations for /stats''))"
  by (cases es; cases "tl es") (auto simp: handle_func_def neq_Nil_conv)

section \<open>The page\<close>

definition stats_row :: "string list \<Rightarrow> bool" where
  "stats_row ss \<longleftrightarrow> length ss = 12 \<and> (\<forall>s \<in> set ss. CHR '' '' \<notin> set s \<and> CHR 0x0A \<notin> set s)"

definition stats_line :: "string list \<Rightarrow> string" where
  "stats_line ss = join_with CHR '' '' ss"

definition stats_file :: "string list list \<Rightarrow> string" where
  "stats_file rows = concat (map (\<lambda>r. stats_line r @ [CHR 0x0A]) rows)"

text \<open>A service, not the line of a server of it, and not local.\<close>

definition reported :: "string list \<Rightarrow> bool" where
  "reported ss \<longleftrightarrow> ss ! 0 \<noteq> ss ! 1 \<and> \<not> contains_str (ss ! 1) ''127.0.0.1''"

lemma set_join_with: "set (join_with c xs) \<subseteq> insert c (\<Union>x \<in> set xs. set x)"
  by (induction c xs rule: join_with.induct) auto

lemma stats_line_no_newline: "stats_row ss \<Longrightarrow> CHR 0x0A \<notin> set (stats_line ss)"
  using set_join_with [of "CHR '' ''" ss] by (auto simp: stats_row_def stats_line_def)

lemma stats_line_fields: "stats_row ss \<Longrightarrow> split_on CHR '' '' (stats_line ss) = ss"
  unfolding stats_line_def by (rule split_join) (auto simp: stats_row_def)

lemma stats_list_line:
  assumes "stats_row ss"
  shows "stats_list (stats_line ss @ CHR 0x0A # rest) =
    (if reported ss then [\<lparr>st_ip = ss ! 1, st_conn = ss ! 2\<rparr>] else []) @ stats_list rest"
  using assms stats_line_no_newline [OF assms] stats_line_fields [OF assms]
  by (simp add: stats_list_def go_string_simps reported_def stats_row_def)

lemma stats_list_file:
  "list_all stats_row rows \<Longrightarrow>
     stats_list (stats_file rows) = map (\<lambda>ss. \<lparr>st_ip = ss ! 1, st_conn = ss ! 2\<rparr>) (filter reported rows)"
proof (induction rows)
  case Nil
  show ?case by (simp add: stats_file_def stats_list_def)
next
  case (Cons ss rows)
  from Cons.prems have "stats_list (stats_line ss @ CHR 0x0A # stats_file rows) =
      (if reported ss then [\<lparr>st_ip = ss ! 1, st_conn = ss ! 2\<rparr>] else []) @ stats_list (stats_file rows)"
    by (intro stats_list_line) simp
  with Cons show ?case by (simp add: stats_file_def)
qed

text \<open>the page of a file of well-formed lines is a JSON array with one object for every reported
  service, in the order of the file, and it parses back to exactly that; a file without any
  gives an empty body.\<close>

theorem stats_page:
  assumes "os_read_file w (sc_result_path (l4_stats (lc_l4 c))) = Inr (stats_file rows)"
    and "list_all stats_row rows"
  shows "if filter reported rows = [] then get_stats c w = []
    else json_parse (get_stats c w) =
      Some (Arr (map (\<lambda>ss. Obj (enc_str ''ip'' (ss ! 1) @ enc_str ''conns'' (ss ! 2))) (filter reported rows)))"
proof -
  have "plain_json (Arr (map (\<lambda>ss. Obj (enc_str ''ip'' (ss ! 1) @ enc_str ''conns'' (ss ! 2))) rs))" for rs :: "string list list"
    by (induction rs) (simp_all add: enc_str_def)
  from json_parse_print [OF this] show ?thesis
    using assms(1) stats_list_file [OF assms(2)] by (simp add: get_stats_def stats_members_def comp_def)
qed

definition demo_rows :: "string list list" where
  "demo_rows = [[''10.0.0.9'', ''10.0.0.1:80'', ''7''] @ replicate 9 ''0'',
     [''10.0.0.2:80'', ''10.0.0.2:80'', ''5''] @ replicate 9 ''0'']"

lemma stats_page_witness:
  "json_parse (get_stats demo_conf (demo_os\<lparr>os_fs := [''/var/run/lvs_stats'' \<mapsto> Regular (stats_file demo_rows)]\<rparr>)) =
     Some (Arr [Obj [(''ip'', Str ''10.0.0.1:80''), (''conns'', Str ''7'')]])"
proof -
  have "os_read_file (demo_os\<lparr>os_fs := [''/var/run/lvs_stats'' \<mapsto> Regular (stats_file demo_rows)]\<rparr>)
      (sc_result_path (l4_stats (lc_l4 demo_conf))) = Inr (stats_file demo_rows)"
    by (simp add: os_read_file_def demo_conf_def conf_defaults_def max_links_def demo_os_def numeral_eq_Suc)
  moreover have "list_all stats_row demo_rows" by code_simp
  moreover have "filter reported demo_rows = [hd demo_rows]" by code_simp
  ultimately show ?thesis
    using stats_page [of "demo_os\<lparr>os_fs := [''/var/run/lvs_stats'' \<mapsto> Regular (stats_file demo_rows)]\<rparr>" demo_conf demo_rows]
    by (simp add: demo_rows_def enc_str_def)
qed

end
