(* ===== verification/Routejson.thy ===== *)
theory Routejson
  imports Ipaminit Lbjson
begin

text \<open>
  The JSON forms of networks, addresses and routes (\<open>pkg/ipam/types/types.go\<close>).  \<open>Route\<close> is written and
  read through a twin struct; its network has the string form of \<open>types.IPNet\<close>, its gateway the text form of
  \<open>net.IP\<close>, which is left out when it is empty.
\<close>

section \<open>types.go\<close>

definition ipnet_json :: "ipnet \<Rightarrow> json" where
  "ipnet_json n = Str (ipnet_marshal n)"

text \<open>\<open>null\<close> leaves the string empty, which is no CIDR.\<close>

definition ipnet_of_json :: "json \<Rightarrow> ipnet option" where
  "ipnet_of_json v = (case v of Str s \<Rightarrow> ipnet_unmarshal s | Null \<Rightarrow> ipnet_unmarshal [] | _ \<Rightarrow> None)"

text \<open>\<open>MarshalText\<close> and \<open>UnmarshalText\<close> of \<open>net.IP\<close>.\<close>

definition ip_marshal_text :: "ip \<Rightarrow> string option" where
  "ip_marshal_text x =
     (if x = [] then Some [] else if length x \<noteq> 4 \<and> length x \<noteq> 16 then None else Some (ip_string x))"

definition ip_unmarshal_text :: "string \<Rightarrow> ip option" where
  "ip_unmarshal_text s = (if s = [] then Some [] else if parse_ip s = [] then None else Some (parse_ip s))"

definition route_zero :: route where
  "route_zero = \<lparr>rt_dst = \<lparr>net_ip = [], net_mask = []\<rparr>, rt_gw = []\<rparr>"

definition route_fields :: "route fields" where
  "route_fields =
     [(''dst'', \<lambda>v r. map_option (\<lambda>n. r\<lparr>rt_dst := n\<rparr>) (ipnet_of_json v)),
      (''gw'', \<lambda>v r. (case v of Str s \<Rightarrow> map_option (\<lambda>x. r\<lparr>rt_gw := x\<rparr>) (ip_unmarshal_text s) | _ \<Rightarrow> None))]"

definition route_marshal :: "route \<Rightarrow> string option" where
  "route_marshal r =
     (if rt_gw r = [] then Some (jprint (Obj [(''dst'', ipnet_json (rt_dst r))]))
      else map_option (\<lambda>t. jprint (Obj [(''dst'', ipnet_json (rt_dst r)), (''gw'', Str t)])) (ip_marshal_text (rt_gw r)))"

definition route_unmarshal :: "string \<Rightarrow> route \<Rightarrow> route option" where
  "route_unmarshal data r =
     (case json_parse data of
        None \<Rightarrow> None
      | Some v \<Rightarrow>
          (case decode_struct route_fields v route_zero of
             None \<Rightarrow> None
           | Some rt \<Rightarrow> Some (r\<lparr>rt_dst := rt_dst rt, rt_gw := rt_gw rt\<rparr>)))"

text \<open>\<open>Route.String\<close>: \<open>%+v\<close> of the struct.  The network is a value, so that the \<open>String\<close> of
  \<open>*net.IPNet\<close> is not used and its fields are printed, each with its own \<open>String\<close>.\<close>

definition mask_string :: "byte list \<Rightarrow> string" where
  "mask_string m = (if m = [] then ''<nil>'' else concat (map hex_byte m))"

definition route_string :: "route \<Rightarrow> string" where
  "route_string r =
     ''{Dst:{IP:'' @ ip_string (net_ip (rt_dst r)) @ '' Mask:'' @ mask_string (net_mask (rt_dst r)) @
     ''} GW:'' @ ip_string (rt_gw r) @ ''}''"

section \<open>Round trip\<close>

lemma v4_forms:
  assumes "to4 x \<noteq> []"
  obtains q where "to4 x = q" and "length q = 4" and "x = q \<or> x = v4_in_v6_prefix @ q"
  using to4_cases [OF assms] by blast

lemma v4_length:
  assumes "to4 x \<noteq> []"
  shows "to16 x = v4_in_v6_prefix @ to4 x" and "length x = 4 \<or> length x = 16"
proof -
  obtain q where q: "to4 x = q" "length q = 4" "x = q \<or> x = v4_in_v6_prefix @ q" by (rule v4_forms [OF assms])
  from q(2,3) have "to16 x = v4_in_v6_prefix @ q" by (auto simp: to16_def)
  with q(1) show "to16 x = v4_in_v6_prefix @ to4 x" by simp
  from q(2,3) show "length x = 4 \<or> length x = 16" by auto
qed

lemma ip_text_roundtrip:
  assumes "to4 x \<noteq> []"
  shows "ip_marshal_text x = Some (ip_string x)" and "ip_unmarshal_text (ip_string x) = Some (to16 x)"
proof -
  show "ip_marshal_text x = Some (ip_string x)"
    using v4_length(2) [OF assms] by (auto simp: ip_marshal_text_def)
  have "ip_string x \<noteq> []" using ip_string_v4 [OF assms] v4_string_nonempty [OF to4_length [OF assms]] by simp
  with parse_ip_ip_string [OF assms] v4_length(1) [OF assms] v4_prefix_nonempty
  show "ip_unmarshal_text (ip_string x) = Some (to16 x)" by (simp add: ip_unmarshal_text_def)
qed

lemma ipnet_survives:
  assumes "to4 (net_ip n) \<noteq> []" and "net_mask n = cidr_mask ones 4" and "ones \<le> 32"
  shows "ipnet_of_json (ipnet_json n) = Some (n\<lparr>net_ip := to16 (net_ip n)\<rparr>)"
  using parse_cidr_text [OF to4_length [OF assms(1)] assms(3)] ipnet_string_v4 [OF assms] v4_length(1) [OF assms(1)] assms(2)
  by (simp add: ipnet_of_json_def ipnet_json_def ipnet_unmarshal_def ipnet_marshal_def)

text \<open>an IPv4 route, with a gateway or without one, survives \<open>MarshalJSON\<close> and \<open>UnmarshalJSON\<close>,
  whatever the receiver held before: mask, host address of the network (which \<open>net.ParseCIDR\<close> alone
  would clear) and gateway come back, the addresses in their 16-byte form.\<close>

theorem route_roundtrip:
  assumes "to4 (net_ip (rt_dst r)) \<noteq> []" and "net_mask (rt_dst r) = cidr_mask ones 4" and "ones \<le> 32"
    and "rt_gw r = [] \<or> to4 (rt_gw r) \<noteq> []"
  shows "\<exists>data. route_marshal r = Some data \<and>
    route_unmarshal data old = Some \<lparr>rt_dst = (rt_dst r)\<lparr>net_ip := to16 (net_ip (rt_dst r))\<rparr>,
      rt_gw = (if rt_gw r = [] then [] else to16 (rt_gw r))\<rparr>"
proof -
  note n = ipnet_survives [OF assms(1-3)]
  show ?thesis
  proof (cases "rt_gw r = []")
    case True
    have "json_parse (jprint (Obj [(''dst'', ipnet_json (rt_dst r))])) = Some (Obj [(''dst'', ipnet_json (rt_dst r))])"
      by (rule json_parse_print) (simp add: ipnet_json_def)
    with True n show ?thesis
      by (simp add: route_marshal_def route_unmarshal_def decode_struct_def route_fields_def find_field_def route_zero_def)
  next
    case False
    with assms(4) have g: "to4 (rt_gw r) \<noteq> []" by simp
    let ?o = "Obj [(''dst'', ipnet_json (rt_dst r)), (''gw'', Str (ip_string (rt_gw r)))]"
    have "json_parse (jprint ?o) = Some ?o"
      by (rule json_parse_print) (simp add: ipnet_json_def)
    with False n ip_text_roundtrip [OF g] show ?thesis
      by (simp add: route_marshal_def route_unmarshal_def decode_struct_def route_fields_def find_field_def route_zero_def)
  qed
qed

lemma route_roundtrip_witness:
  "\<exists>data m. route_marshal \<lparr>rt_dst = \<lparr>net_ip = [10, 1, 2, 3], net_mask = cidr_mask 20 4\<rparr>, rt_gw = [10, 1, 0, 1]\<rparr> = Some data \<and>
     route_unmarshal data route_zero = Some m \<and> net_mask (rt_dst m) = cidr_mask 20 4 \<and> rt_gw m = to16 [10, 1, 0, 1]"
  using route_roundtrip [of "\<lparr>rt_dst = \<lparr>net_ip = [10, 1, 2, 3], net_mask = cidr_mask 20 4\<rparr>, rt_gw = [10, 1, 0, 1]\<rparr>" 20 route_zero]
  by auto

end
