(* ===== verification/Reservation.thy ===== *)
theory Reservation
  imports Ipamserve
begin

text \<open>
  \<open>Store.Reserve\<close> (\<open>pkg/ipam/backend/etcd/backend.go\<close>) when others use the store between its calls.  Its
  \<open>Lock\<close> is empty, and the lock of package \<open>ipam\<close> holds within one process only, so two nodes that both
  act as the leader are not kept apart.
\<close>

text \<open>What others do to the store after the look-up and before the write is \<open>mid\<close>.\<close>

definition es_reserve_split ::
  "('s \<Rightarrow> 's) \<Rightarrow> 's kv_store \<Rightarrow> string \<Rightarrow> 's \<Rightarrow> string \<Rightarrow> ip \<Rightarrow> (go_error + bool) \<times> 's" where
  "es_reserve_split mid kv item s uid ip =
     (case kv_is_exist kv s item (ip_string ip) of
        (Inl e, s1) \<Rightarrow> (Inl e, s1)
      | (Inr found, s1) \<Rightarrow>
          (if found then (Inr False, s1)
           else case kv_write kv (mid s1) item (ip_string ip) uid of
                  (Inl e, s2) \<Rightarrow> (Inl e, s2)
                | (Inr _, s2) \<Rightarrow>
                    (case kv_write kv s2 item last_ip_file (ip_string ip) of
                       (Inl e, s3) \<Rightarrow> (Inl e, s3)
                     | (Inr _, s3) \<Rightarrow> (Inr True, s3))))"

lemma es_reserve_alone: "es_reserve_split (\<lambda>s. s) = es_reserve"
  by (simp add: fun_eq_iff es_reserve_split_def es_reserve_def)

lemma reserve_split_write:
  assumes "kv_dir kv tree item" and "storable ip" and "es_ready kv tree item (mid s1)"
    and "kv_is_exist kv s item (ip_string ip) = (Inr False, s1)"
    and "es_reserve_split mid kv item s uid ip = (Inr b, s')"
  shows "b" and "es_leases kv tree item s' = (es_leases kv tree item (mid s1))(ip_string ip \<mapsto> uid)"
proof -
  from assms(2) have vis: "visible_name (ip_string ip)" by (simp add: storable_def)
  from assms(4,5) obtain u s2 u' where w: "kv_write kv (mid s1) item (ip_string ip) uid = (Inr u, s2)"
    "kv_write kv s2 item last_ip_file (ip_string ip) = (Inr u', s')" and b: b
    by (auto simp: es_reserve_split_def split: prod.splits sum.splits)
  show b by (rule b)
  obtain i where i: "set_at (tree (mid s1)) (item_path kv item @ [ip_string ip]) (File uid i) (tree s2)"
    using kv_dir.kv_write_Inr [OF assms(1) vis w(1)] by blast
  note A = es_write_ip [OF i assms(2,3)]
  obtain j where j: "set_at (tree s2) (item_path kv item @ [last_ip_file]) (File (ip_string ip) j) (tree s')"
    using kv_dir.kv_write_Inr [OF assms(1) visible_last w(2)] by blast
  from es_write_last(1) [OF j A(3)] A(1)
  show "es_leases kv tree item s' = (es_leases kv tree item (mid s1))(ip_string ip \<mapsto> uid)" by simp
qed

text \<open>C39: \<open>Reserve\<close> is no test-and-set: when another node reserves the same free address between the
  look-up and the write, both are told that they have it, and the lease of the other is
  overwritten.\<close>

theorem reserve_taken_twice:
  assumes "kv_dir kv tree item" and "storable ip" and "es_ready kv tree item s"
    and "kv_is_exist kv s item (ip_string ip) = (Inr False, s1)"
    and "es_reserve kv item s1 other ip = (Inr True, s2)"
    and "es_reserve_split (\<lambda>_. s2) kv item s uid ip = (Inr b, s')"
  shows "b \<and> es_leases kv tree item s2 (ip_string ip) = Some other \<and>
    es_leases kv tree item s' = (es_leases kv tree item s2)(ip_string ip \<mapsto> uid)"
proof -
  from assms(2) have vis: "visible_name (ip_string ip)" by (simp add: storable_def)
  have "tree s1 = tree s" using kv_dir.kv_is_exist_Inr(1) [OF assms(1) vis assms(4)] .
  with assms(3) have "es_ready kv tree item s1" by (simp add: es_ready_def)
  note C = kv_dir.es_reserve_cases(1) [OF assms(1) this assms(2,5) refl]
  note W = reserve_split_write [OF assms(1,2) _ assms(4,6)]
  from C W show ?thesis by simp
qed

text \<open>Two nodes and a free address of the example network.\<close>

definition demo_race :: "((go_error + bool) \<times> mem) \<times> ((go_error + bool) \<times> mem) \<times> ((go_error + bool) \<times> mem)" where
  "demo_race =
     (let ip = [10, 0, 0, 3]; s = demo_state demo_entries [];
          r1 = kv_is_exist demo_kv s demo_item (ip_string ip);
          r2 = es_reserve demo_kv demo_item (snd r1) ''l4-b'' ip
      in (r1, r2, es_reserve_split (\<lambda>_. snd r2) demo_kv demo_item s ''l4-c'' ip))"

lemma demo_race_result:
  "case demo_race of ((Inr False, s1), (Inr True, s2), (Inr b, s')) \<Rightarrow> True | _ \<Rightarrow> False"
  by code_simp

lemma reserve_taken_twice_witness:
  "\<exists>s1 s2 s'. demo_race = ((Inr False, s1), (Inr True, s2), (Inr True, s')) \<and>
     es_leases demo_kv mem_view demo_item s2 ''10.0.0.3'' = Some ''l4-b'' \<and>
     es_leases demo_kv mem_view demo_item s' ''10.0.0.3'' = Some ''l4-c''"
proof -
  obtain s1 s2 b s' where r: "demo_race = ((Inr False, s1), (Inr True, s2), (Inr b, s'))"
    using demo_race_result by (auto split: prod.splits sum.splits bool.splits)
  have ip: "ip_string [10, 0, 0, 3] = ''10.0.0.3''" by code_simp
  have st: "storable [10, 0, 0, 3]" by (rule storable_v4) simp
  have runs: "kv_is_exist demo_kv (demo_state demo_entries []) demo_item (ip_string [10, 0, 0, 3]) = (Inr False, s1)"
    "es_reserve demo_kv demo_item s1 ''l4-b'' [10, 0, 0, 3] = (Inr True, s2)"
    "es_reserve_split (\<lambda>_. s2) demo_kv demo_item (demo_state demo_entries []) ''l4-c'' [10, 0, 0, 3] = (Inr b, s')"
    using r by (auto simp: demo_race_def Let_def)
  from reserve_taken_twice [OF demo.kv_dir_axioms st demo_ready runs]
  have b: "b = True" and "es_leases demo_kv mem_view demo_item s2 ''10.0.0.3'' = Some ''l4-b'' \<and>
      es_leases demo_kv mem_view demo_item s' ''10.0.0.3'' = Some ''l4-c''" by (simp_all add: ip)
  with r show ?thesis unfolding b by blast
qed

end
