(* ===== verification/Serving.thy ===== *)
theory Serving
  imports Memetcd
begin

text \<open>
  A server of etcd while it serves: the states \<open>up\<close>, in which no request fails that need not.  It is the
  contract on which statements rest that something does happen, such as that a lease is taken over.
\<close>

locale serving_etcd = etcd_service +
  fixes up :: "'a \<Rightarrow> bool"
  assumes get_up: "up s \<Longrightarrow> api_get api s k opt = (r, s') \<Longrightarrow> up s'"
    and set_up: "up s \<Longrightarrow> api_set api s k v opts = (r, s') \<Longrightarrow> up s'"
    and get_serves: "plain_key k \<Longrightarrow> up s \<Longrightarrow> tree s (keypath k) = Some (File v i) \<Longrightarrow>
      \<exists>n s'. api_get api s k opt = (Inr n, s')"
    and set_serves: "plain_key k \<Longrightarrow> up s \<Longrightarrow> tree s (keypath k) = Some (File w i) \<Longrightarrow>
      prev_ok opts (Some (File w i)) \<Longrightarrow> \<exists>n s'. api_set api s k v opts = (Inr n, s')"
begin

lemma lk_get_serves:
  assumes "plain_key k" and "up s" and "tree s (keypath k) = Some (File v i)"
  obtains p s' where "lk_get api s k = (Inr p, s')" and "kv_value p = v" and "kv_index p = i"
    and "up s'" and "tree s' = tree s"
proof -
  let ?opt = "\<lparr>get_quorum = True, get_recursive = False, get_sort = False\<rparr>"
  obtain n s' where n: "api_get api s k ?opt = (Inr n, s')"
    using get_serves [OF assms] by blast
  then have g: "lk_get api s k = (Inr \<lparr>kv_key = k, kv_value = node_value n, kv_index = node_modified n\<rparr>, s')"
    by (simp add: lk_get_def)
  show thesis
    using that [OF g] get_up [OF assms(2) n] lk_get_Inr(1,3) [OF assms(1) g] assms(3) by blast
qed

text \<open>A conditional write on the pair that is in the store goes through.\<close>

lemma lk_atomic_put_serves:
  assumes "plain_key k" and "up s" and "tree s (keypath k) = Some (File (kv_value p) (kv_index p))"
  obtains q s' where "lk_atomic_put api s k val (Some p) opts = (Inr q, s')" and "up s'"
proof -
  let ?o = "\<lparr>set_prev_value = kv_value p, set_prev_index = kv_index p, set_prev_exist = PrevExist,
    set_ttl = (case opts of None \<Rightarrow> 0 | Some w \<Rightarrow> wo_ttl w), set_dir = False\<rparr>"
  have "prev_ok ?o (Some (File (kv_value p) (kv_index p)))"
    by (simp add: prev_ok_def has_index_def has_value_def)
  from set_serves [OF assms this] obtain n s' where n: "api_set api s k val ?o = (Inr n, s')" by blast
  then have "lk_atomic_put api s k val (Some p) opts = (Inr \<lparr>kv_key = k, kv_value = val, kv_index = node_modified n\<rparr>, s')"
    by (simp add: lk_atomic_put_def)
  then show thesis using that set_up [OF assms(2) n] by blast
qed

end

section \<open>The server in memory\<close>

declare mem_fault_tree [simp del]

text \<open>No fault is due, and above every entry there are directories.\<close>

definition mem_up :: "mem \<Rightarrow> bool" where
  "mem_up s \<longleftrightarrow> mem_faults s = [] \<and>
     (\<forall>q e a. map_of (mem_tree s) q = Some e \<longrightarrow> a \<in> set (ancestors q) \<longrightarrow> map_of (mem_tree s) a = Some Directory)"

lemma mem_upI:
  assumes "mem_faults s = []"
    and "list_all (\<lambda>(q, e). list_all (\<lambda>a. map_of (mem_tree s) a = Some Directory) (ancestors q)) (mem_tree s)"
  shows "mem_up s"
  using assms by (fastforce simp: mem_up_def list_all_iff dest: map_of_SomeD)

lemma mem_up_fault: "mem_up s \<Longrightarrow> mem_fault s = (False, s)"
  by (simp add: mem_up_def mem_fault_def)

lemma ancestors_trans: "b \<in> set (ancestors a) \<Longrightarrow> a \<in> set (ancestors p) \<Longrightarrow> b \<in> set (ancestors p)"
  by (auto simp: ancestors_def min_def)

lemma not_own_ancestor: "p \<notin> set (ancestors p)"
  using set_ancestors by blast

text \<open>A write puts the entry in place and makes the directories above it.\<close>

lemma mem_set_up:
  assumes "mem_up s" and "\<not> (\<exists>a \<in> set (ancestors p). is_file (map_of (mem_tree s) a))"
    and "map_of (mem_tree s) p \<noteq> Some Directory" and "mem_faults s' = []"
    and "mem_tree s' = AList.update p e (add_dirs (ancestors p) (mem_tree s))"
  shows "mem_up s'"
proof -
  have view: "map_of (mem_tree s') q = (if q = p then Some e
      else if map_of (mem_tree s) q = None \<and> q \<in> set (ancestors p) then Some Directory else map_of (mem_tree s) q)" for q
    by (simp add: assms(5) update_conv' map_of_add_dirs)
  have above: "map_of (mem_tree s') a = Some Directory" if "a \<in> set (ancestors p)" for a
  proof (cases "map_of (mem_tree s) a")
    case None
    with that not_own_ancestor [of p] show ?thesis by (auto simp: view)
  next
    case (Some x)
    with assms(2) that have "x = Directory" by (cases x) auto
    with Some that not_own_ancestor [of p] show ?thesis by (auto simp: view)
  qed
  have "map_of (mem_tree s') a = Some Directory" if "map_of (mem_tree s') q = Some x" "a \<in> set (ancestors q)" for q x a
  proof (cases "q = p \<or> map_of (mem_tree s) q = None")
    case True
    then have "q = p \<or> q \<in> set (ancestors p)" using that(1) by (auto simp: view split: if_splits)
    then show ?thesis using that(2) above ancestors_trans by blast
  next
    case False
    then have "map_of (mem_tree s) a = Some Directory" using assms(1) that(2) by (auto simp: mem_up_def)
    with assms(3) show ?thesis by (auto simp: view)
  qed
  with assms(4) show ?thesis unfolding mem_up_def by blast
qed

lemma mem_get_up: "mem_up s \<Longrightarrow> snd (mem_get s k opt) = s"
  by (simp add: mem_get_def mem_up_fault Let_def split: option.split entry.split)

lemma mem_set_shape:
  assumes "mem_up s"
  shows "case mem_set s k v opts of
      (Inl err, s') \<Rightarrow> s' = s
    | (Inr n, s') \<Rightarrow> \<not> (\<exists>a \<in> set (ancestors (keypath k)). is_file (map_of (mem_tree s) a)) \<and>
        map_of (mem_tree s) (keypath k) \<noteq> Some Directory \<and> mem_faults s' = [] \<and>
        mem_tree s' = AList.update (keypath k) (new_entry opts v (next_index s)) (add_dirs (ancestors (keypath k)) (mem_tree s))"
proof -
  have "mem_faults s = []" using assms by (simp add: mem_up_def)
  then show ?thesis by (simp add: mem_set_def mem_up_fault [OF assms] Let_def)
qed

interpretation mem_serving: serving_etcd mem_api mem_view mem_up
proof
  show "mem_up s'" if "mem_up s" "api_get mem_api s k opt = (r, s')" for s k opt r s'
    using that mem_get_up [OF that(1), of k opt] by (simp add: mem_api_def)
  show "mem_up s'" if up: "mem_up s" and run: "api_set mem_api s k v opts = (r, s')" for s k v opts r s'
    using mem_set_shape [OF up, of k opts v] run mem_set_up [OF up, of "keypath k" s'] up
    by (cases r) (simp_all add: mem_api_def)
  show "\<exists>n s'. api_get mem_api s k opt = (Inr n, s')"
    if "mem_up s" "mem_view s (keypath k) = Some (File v i)" for s k opt v i
    using that mem_up_fault [OF that(1)] by (simp add: mem_api_def mem_get_def mem_view_def)
  show "\<exists>n s'. api_set mem_api s k v opts = (Inr n, s')"
    if "mem_up s" "mem_view s (keypath k) = Some (File w i)" "prev_ok opts (Some (File w i))" for s k v opts w i
  proof -
    have "\<not> (\<exists>a \<in> set (ancestors (keypath k)). is_file (map_of (mem_tree s) a))"
      using that(1,2) by (fastforce simp: mem_up_def mem_view_def)
    moreover have "set_prev_exist opts \<noteq> PrevNoExist" using that(3) by (auto simp: prev_ok_def)
    ultimately show ?thesis
      using that(2,3) mem_up_fault [OF that(1)]
      by (simp add: mem_api_def mem_set_def mem_view_def Let_def)
  qed
qed

end
