(* ===== verification/Election.thy ===== *)
theory Election
  imports Elector
begin

text \<open>
  The nodes of a catalog as they elect a leader in time: each runs the attempts of client-go's elector
  on its own clock, an attempt reads the lock and later writes it, and anything may happen in
  between.  The clocks run at the same speed but may be set differently.  The guarantee of the leases:
  whatever the nodes and the store do, no two nodes hold an unexpired lease.
\<close>

section \<open>An attempt in two phases\<close>

text \<open>\<open>Resting\<close> is between two attempts, \<open>Started\<close> before the read of the lock, the others between the
  read and the write.\<close>

datatype plan = Resting | Started | Creating election_record | Updating election_record

definition acquire_read ::
  "(string \<Rightarrow> election_record option) \<Rightarrow> 's kv_store \<Rightarrow> int \<Rightarrow> int \<Rightarrow> int \<Rightarrow> electing \<Rightarrow> 's \<Rightarrow> plan \<times> electing \<times> 's" where
  "acquire_read dec kv lease now t1 e s =
     (let node = lock_identity (ev_lock e); r = fresh_record node lease now
      in case lock_get dec kv (ev_lock e) s of
           (Inl err, l, s1) \<Rightarrow> (if err \<noteq> LockNotFound then Resting else Creating r, e\<lparr>ev_lock := l\<rparr>, s1)
         | (Inr old, l, s1) \<Rightarrow>
             (let e1 = (observe e old t1)\<lparr>ev_lock := l\<rparr>
              in (if now < ev_time e1 + lease \<and> er_holder old \<noteq> node then Resting
                  else Updating (correct_record old r), e1, s1)))"

definition acquire_write ::
  "(election_record \<Rightarrow> string) \<Rightarrow> 's kv_store \<Rightarrow> int \<Rightarrow> plan \<Rightarrow> electing \<Rightarrow> 's \<Rightarrow> bool \<times> electing \<times> 's" where
  "acquire_write enc kv t2 p e s =
     (case p of
        Creating r \<Rightarrow>
          (case lock_create enc kv (ev_lock e) s r of
             (Inl err, l, s2) \<Rightarrow> (False, e\<lparr>ev_lock := l\<rparr>, s2)
           | (Inr u, l, s2) \<Rightarrow> (True, e\<lparr>ev_lock := l, ev_observed := r, ev_time := t2\<rparr>, s2))
      | Updating r \<Rightarrow>
          (case lock_update enc kv (ev_lock e) s r of
             (Inl err, l, s2) \<Rightarrow> (False, e\<lparr>ev_lock := l\<rparr>, s2)
           | (Inr u, l, s2) \<Rightarrow> (True, e\<lparr>ev_lock := l, ev_observed := r, ev_time := t2\<rparr>, s2))
      | _ \<Rightarrow> (False, e, s))"

text \<open>The two phases are the attempt of theory \<open>Elector\<close>.\<close>

theorem try_acquire_phases:
  "try_acquire enc dec kv lease now t1 t2 mid e s =
     (case acquire_read dec kv lease now t1 e s of
        (p, e1, s1) \<Rightarrow> if p = Resting then (False, e1, s1) else acquire_write enc kv t2 p e1 (mid s1))"
proof -
  obtain res l s1 where g: "lock_get dec kv (ev_lock e) s = (res, l, s1)" by (metis prod.collapse)
  show ?thesis
  proof (cases res)
    case (Inl err)
    then show ?thesis
      by (simp add: try_acquire_def acquire_read_def acquire_write_def Let_def g split: prod.splits sum.splits)
  next
    case (Inr old)
    then show ?thesis by (simp add: try_acquire_def acquire_read_def acquire_write_def Let_def g)
  qed
qed

section \<open>The system\<close>

text \<open>What does not change: the codec of the record, the store, the length of a lease, how each clock is
  set, and the names of the nodes.\<close>

record ('n, 's) election_env =
  en_enc :: "election_record \<Rightarrow> string"
  en_dec :: "string \<Rightarrow> election_record option"
  en_kv :: "'s kv_store"
  en_tree :: "'s \<Rightarrow> tree"
  en_path :: "string list"
  en_lease :: int
  en_skew :: "'n \<Rightarrow> int"
  en_id :: "'n \<Rightarrow> string"

text \<open>\<open>td_begun n\<close> is the time, on the clock of node \<open>n\<close>, at which its latest attempt began, and
  \<open>td_won n\<close> the true time at which the attempt of its last acknowledged write began.  \<open>td_start\<close> is
  the true time at which the attempt began that wrote the record that is now in the store.\<close>

record ('n, 's) timed =
  td_now :: int
  td_nodes :: "'n \<Rightarrow> electing"
  td_plan :: "'n \<Rightarrow> plan"
  td_begun :: "'n \<Rightarrow> int"
  td_store :: 's
  td_start :: int
  td_won :: "'n \<Rightarrow> int option"

definition zero_record :: election_record where
  "zero_record = \<lparr>er_holder = [], er_lease_seconds = 0, er_acquire = 0, er_renew = 0, er_transitions = 0\<rparr>"

text \<open>A process that starts anew has read and observed nothing.\<close>

definition restarted :: "electing \<Rightarrow> electing" where
  "restarted e = e\<lparr>ev_lock := (ev_lock e)\<lparr>el_pair := None\<rparr>, ev_observed := zero_record, ev_time := 0, ev_reported := []\<rparr>"

definition after_read :: "'n \<Rightarrow> plan \<times> electing \<times> 's \<Rightarrow> ('n, 's) timed \<Rightarrow> ('n, 's) timed" where
  "after_read n res c =
     (case res of (p, e, s) \<Rightarrow>
        c\<lparr>td_nodes := (td_nodes c)(n := e), td_plan := (td_plan c)(n := p), td_store := s\<rparr>)"

definition after_write ::
  "('n, 's) election_env \<Rightarrow> 'n \<Rightarrow> bool \<times> electing \<times> 's \<Rightarrow> ('n, 's) timed \<Rightarrow> ('n, 's) timed" where
  "after_write E n res c =
     (case res of (ok, e, s) \<Rightarrow>
        (let began = td_begun c n - en_skew E n
         in c\<lparr>td_nodes := (td_nodes c)(n := e), td_plan := (td_plan c)(n := Resting), td_store := s,
              td_start := (if en_tree E s (en_path E) = en_tree E (td_store c) (en_path E) then td_start c else began),
              td_won := (if ok then (td_won c)(n \<mapsto> began) else td_won c)\<rparr>))"

inductive timed_step :: "('n, 's) election_env \<Rightarrow> ('n, 's) timed \<Rightarrow> ('n, 's) timed \<Rightarrow> bool" for E where
  tick: "td_now c \<le> t \<Longrightarrow> timed_step E c (c\<lparr>td_now := t\<rparr>)"
| begins: "td_plan c n = Resting \<Longrightarrow>
    timed_step E c (c\<lparr>td_plan := (td_plan c)(n := Started), td_begun := (td_begun c)(n := td_now c + en_skew E n)\<rparr>)"
| reads: "td_plan c n = Started \<Longrightarrow>
    timed_step E c (after_read n (acquire_read (en_dec E) (en_kv E) (en_lease E) (td_begun c n)
      (td_now c + en_skew E n) (td_nodes c n) (td_store c)) c)"
| writes: "td_plan c n \<noteq> Resting \<Longrightarrow> td_plan c n \<noteq> Started \<Longrightarrow>
    timed_step E c (after_write E n (acquire_write (en_enc E) (en_kv E) (td_now c + en_skew E n) (td_plan c n)
      (td_nodes c n) (td_store c)) c)"
| restarts: "timed_step E c (c\<lparr>td_nodes := (td_nodes c)(n := restarted (td_nodes c n)),
      td_plan := (td_plan c)(n := Resting)\<rparr>)"
| others: "en_tree E s (en_path E) = en_tree E (td_store c) (en_path E) \<Longrightarrow> timed_step E c (c\<lparr>td_store := s\<rparr>)"

inductive timed_run :: "('n, 's) election_env \<Rightarrow> ('n, 's) timed \<Rightarrow> ('n, 's) timed \<Rightarrow> bool" for E where
  start: "timed_run E c c"
| step: "timed_run E c d \<Longrightarrow> timed_step E d d' \<Longrightarrow> timed_run E c d'"

definition renew_second :: "election_record \<Rightarrow> int" where
  "renew_second r = er_renew r div second"

text \<open>Names are not empty and told apart, and the encoding of a record keeps its holder and the second
  of its renewal: the times of \<open>metav1.Time\<close> are written without fractions of a second.\<close>

definition codec_ok :: "(election_record \<Rightarrow> string) \<Rightarrow> (string \<Rightarrow> election_record option) \<Rightarrow> bool" where
  "codec_ok enc dec \<longleftrightarrow>
     (\<forall>r. \<exists>r'. dec (enc r) = Some r' \<and> er_holder r' = er_holder r \<and> renew_second r' = renew_second r)"

definition env_ok :: "('n, 's) election_env \<Rightarrow> bool" where
  "env_ok E \<longleftrightarrow> inj (en_id E) \<and> (\<forall>n. en_id E n \<noteq> []) \<and> second \<le> en_lease E \<and> codec_ok (en_enc E) (en_dec E)"

text \<open>At first there is no record and nobody has begun.\<close>

definition node_at :: "('n, 's) election_env \<Rightarrow> ('n, 's) timed \<Rightarrow> 'n \<Rightarrow> bool" where
  "node_at E c n \<longleftrightarrow>
     lock_setup (en_kv E) (en_tree E) (ev_lock (td_nodes c n)) \<and>
     lock_path (en_kv E) (ev_lock (td_nodes c n)) = en_path E \<and>
     el_identity (ev_lock (td_nodes c n)) = en_id E n"

definition timed_initial :: "('n, 's) election_env \<Rightarrow> ('n, 's) timed \<Rightarrow> bool" where
  "timed_initial E c \<longleftrightarrow>
     (\<forall>n. node_at E c n \<and> ev_observed (td_nodes c n) = zero_record \<and> td_plan c n = Resting \<and>
        td_begun c n \<le> td_now c + en_skew E n \<and> td_won c n = None) \<and>
     en_tree E (td_store c) (en_path E) = None"

text \<open>The lease of a node, counted from the beginning of the attempt and less the second that the
  record does not tell.\<close>

definition holds_lease :: "('n, 's) election_env \<Rightarrow> ('n, 's) timed \<Rightarrow> 'n \<Rightarrow> bool" where
  "holds_lease E c n \<longleftrightarrow> (case td_won c n of None \<Rightarrow> False | Some w \<Rightarrow> td_now c < w + en_lease E - second)"

section \<open>The invariant\<close>

text \<open>The record in the store is one that a node wrote in an attempt that began at \<open>td_start\<close>.\<close>

definition record_from ::
  "('n, 's) election_env \<Rightarrow> ('n, 's) timed \<Rightarrow> string \<Rightarrow> nat \<Rightarrow> election_record \<Rightarrow> 'n \<Rightarrow> bool" where
  "record_from E c v j r n \<longleftrightarrow>
     en_tree E (td_store c) (en_path E) = Some (File v j) \<and> 0 < j \<and> en_dec E v = Some r \<and>
     er_holder r = en_id E n \<and> renew_second r = (td_start c + en_skew E n) div second \<and>
     td_start c + en_skew E n \<le> td_begun c n"

definition inv_store :: "('n, 's) election_env \<Rightarrow> ('n, 's) timed \<Rightarrow> bool" where
  "inv_store E c \<longleftrightarrow> en_tree E (td_store c) (en_path E) = None \<or> (\<exists>v j r n. record_from E c v j r n)"

definition plan_inv :: "('n, 's) election_env \<Rightarrow> ('n, 's) timed \<Rightarrow> 'n \<Rightarrow> bool" where
  "plan_inv E c n \<longleftrightarrow> (\<forall>r. td_plan c n = Creating r \<or> td_plan c n = Updating r \<longrightarrow>
     er_holder r = en_id E n \<and> renew_second r = td_begun c n div second)"

text \<open>What node \<open>m\<close> observed of node \<open>n\<close> was written in an attempt that began before \<open>m\<close> observed it.\<close>

definition observed_inv :: "('n, 's) election_env \<Rightarrow> electing \<Rightarrow> 'n \<Rightarrow> bool" where
  "observed_inv E e m \<longleftrightarrow> (\<forall>n. er_holder (ev_observed e) = en_id E n \<longrightarrow>
     (\<exists>b. renew_second (ev_observed e) = (b + en_skew E n) div second \<and> b \<le> ev_time e - en_skew E m))"

text \<open>A node that is about to replace the record of another has let its lease pass, or has been
  overtaken and will fail.\<close>

definition update_inv :: "('n, 's) election_env \<Rightarrow> ('n, 's) timed \<Rightarrow> 'n \<Rightarrow> bool" where
  "update_inv E c m \<longleftrightarrow> (\<forall>r'. td_plan c m = Updating r' \<longrightarrow>
     (\<exists>p v j r n. el_pair (ev_lock (td_nodes c m)) = Some p \<and> 0 < kv_index p \<and> record_from E c v j r n \<and>
        kv_index p \<le> j \<and>
        (kv_index p = j \<longrightarrow> n = m \<or> td_start c + en_lease E - second < td_begun c m - en_skew E m)))"

definition node_inv :: "('n, 's) election_env \<Rightarrow> ('n, 's) timed \<Rightarrow> 'n \<Rightarrow> bool" where
  "node_inv E c n \<longleftrightarrow> node_at E c n \<and> td_begun c n \<le> td_now c + en_skew E n \<and> plan_inv E c n \<and>
     observed_inv E (td_nodes c n) n \<and> update_inv E c n"

definition inv_won :: "('n, 's) election_env \<Rightarrow> ('n, 's) timed \<Rightarrow> bool" where
  "inv_won E c \<longleftrightarrow> (\<forall>n w. td_won c n = Some w \<longrightarrow>
     w + en_skew E n \<le> td_begun c n \<and>
     (\<exists>v j r k. record_from E c v j r k \<and>
        (if k = n then w \<le> td_start c else w + en_lease E - second \<le> td_start c)))"

definition timed_inv :: "('n, 's) election_env \<Rightarrow> ('n, 's) timed \<Rightarrow> bool" where
  "timed_inv E c \<longleftrightarrow> inv_store E c \<and> inv_won E c \<and> (\<forall>n. node_inv E c n)"

lemma timed_inv_initial:
  assumes "env_ok E" and "timed_initial E c"
  shows "timed_inv E c"
proof -
  have "[] \<noteq> en_id E n" for n using assms(1) by (metis env_ok_def)
  with assms(2) show ?thesis
    by (simp add: timed_inv_def timed_initial_def inv_store_def node_inv_def plan_inv_def observed_inv_def
        update_inv_def inv_won_def zero_record_def)
qed

lemma record_from_unique:
  assumes "env_ok E" and "record_from E c v j r n" and "record_from E c v' j' r' n'"
  shows "v' = v" and "j' = j" and "r' = r" and "n' = n"
  using assms by (auto simp: record_from_def env_ok_def inj_def)

lemma record_from_now:
  assumes "record_from E c v j r n" and "timed_inv E c"
  shows "td_start c \<le> td_now c"
proof -
  have "td_begun c n \<le> td_now c + en_skew E n" using assms(2) by (simp add: timed_inv_def node_inv_def)
  with assms(1) show ?thesis by (simp add: record_from_def)
qed

text \<open>The guarantee, from the invariant.\<close>

lemma timed_inv_lease:
  assumes "env_ok E" and "timed_inv E c" and "holds_lease E c m" and "holds_lease E c n"
  shows "m = n"
proof -
  have owner: "k = i" if "holds_lease E c i" "record_from E c v j r k" for i k v j r
  proof (rule ccontr)
    assume "k \<noteq> i"
    from that(1) obtain w where w: "td_won c i = Some w" "td_now c < w + en_lease E - second"
      by (auto simp: holds_lease_def split: option.splits)
    from w(1) assms(2) obtain v' j' r' k' where r: "record_from E c v' j' r' k'"
      "if k' = i then w \<le> td_start c else w + en_lease E - second \<le> td_start c"
      unfolding timed_inv_def inv_won_def by blast
    have "k' = k" using record_from_unique(4) [OF assms(1) that(2) r(1)] .
    with r(2) \<open>k \<noteq> i\<close> w(2) record_from_now [OF that(2) assms(2)] show False by simp
  qed
  from assms(3) obtain w where "td_won c m = Some w" by (auto simp: holds_lease_def split: option.splits)
  with assms(2) obtain v j r k where "record_from E c v j r k" unfolding timed_inv_def inv_won_def by blast
  with owner assms(3,4) show ?thesis by metis
qed

section \<open>The steps keep the invariant\<close>

lemma record_from_frame:
  assumes "record_from E c v j r n" and "en_tree E (td_store d) (en_path E) = en_tree E (td_store c) (en_path E)"
    and "td_start d = td_start c" and "td_begun c n \<le> td_begun d n"
  shows "record_from E d v j r n"
  using assms by (auto simp: record_from_def)

lemma node_inv_frame:
  assumes ni: "node_inv E c i" and now: "td_now c \<le> td_now d"
    and o: "td_nodes d i = td_nodes c i" "td_plan d i = td_plan c i" "td_begun d i = td_begun c i"
    and rec: "\<And>v j r k. record_from E c v j r k \<Longrightarrow> record_from E d v j r k" and start: "td_start d = td_start c"
  shows "node_inv E d i"
proof -
  have "update_inv E d i"
    unfolding update_inv_def
  proof (intro allI impI)
    fix r'
    assume "td_plan d i = Updating r'"
    with ni o(2) obtain p v j r n where u: "el_pair (ev_lock (td_nodes c i)) = Some p" "0 < kv_index p"
      "record_from E c v j r n" "kv_index p \<le> j"
      "kv_index p = j \<longrightarrow> n = i \<or> td_start c + en_lease E - second < td_begun c i - en_skew E i"
      unfolding node_inv_def update_inv_def by metis
    with rec [OF u(3)] o start show "\<exists>p v j r n. el_pair (ev_lock (td_nodes d i)) = Some p \<and> 0 < kv_index p \<and>
        record_from E d v j r n \<and> kv_index p \<le> j \<and>
        (kv_index p = j \<longrightarrow> n = i \<or> td_start d + en_lease E - second < td_begun d i - en_skew E i)" by auto
  qed
  with ni o now show ?thesis by (simp add: node_inv_def node_at_def plan_inv_def)
qed

text \<open>A step that leaves the record and the acknowledged writes alone has to care for one node only.\<close>

lemma timed_inv_frame:
  assumes inv: "timed_inv E c"
    and tree: "en_tree E (td_store d) (en_path E) = en_tree E (td_store c) (en_path E)"
    and same: "td_start d = td_start c" "td_won d = td_won c" "td_now c \<le> td_now d"
    and begun: "\<And>i. td_begun c i \<le> td_begun d i"
    and others: "\<And>i. i \<noteq> n \<Longrightarrow> td_nodes d i = td_nodes c i \<and> td_plan d i = td_plan c i \<and> td_begun d i = td_begun c i"
    and chg: "node_inv E d n"
  shows "timed_inv E d"
proof -
  have rec: "record_from E c v j r k \<Longrightarrow> record_from E d v j r k" for v j r k
    using record_from_frame [OF _ tree same(1) begun] .
  have "inv_store E d"
  proof (cases "en_tree E (td_store c) (en_path E) = None")
    case True
    with tree show ?thesis by (simp add: inv_store_def)
  next
    case False
    with inv rec show ?thesis unfolding timed_inv_def inv_store_def by metis
  qed
  moreover have "inv_won E d"
    unfolding inv_won_def
  proof (intro allI impI)
    fix i w
    assume "td_won d i = Some w"
    then have "td_won c i = Some w" using same(2) by simp
    with inv obtain v j r k where "w + en_skew E i \<le> td_begun c i" "record_from E c v j r k"
      "if k = i then w \<le> td_start c else w + en_lease E - second \<le> td_start c"
      unfolding timed_inv_def inv_won_def by blast
    with rec same(1) begun [of i] show "w + en_skew E i \<le> td_begun d i \<and> (\<exists>v j r k. record_from E d v j r k \<and>
        (if k = i then w \<le> td_start d else w + en_lease E - second \<le> td_start d))"
      by (metis order_trans)
  qed
  moreover have "node_inv E d i" for i
  proof (cases "i = n")
    case False
    have "node_inv E c i" using inv by (simp add: timed_inv_def)
    then show ?thesis using others [OF False] same rec by - (rule node_inv_frame [of E c i d], auto)
  qed (use chg in simp)
  ultimately show ?thesis by (simp add: timed_inv_def)
qed

lemma tick_keeps:
  assumes "timed_inv E c" and "td_now c \<le> t"
  shows "timed_inv E (c\<lparr>td_now := t\<rparr>)"
proof -
  have "record_from E c v j r k \<Longrightarrow> record_from E (c\<lparr>td_now := t\<rparr>) v j r k" for v j r k
    by (simp add: record_from_def)
  then have "node_inv E (c\<lparr>td_now := t\<rparr>) i" for i
    using assms by - (rule node_inv_frame [of E c i], simp_all add: timed_inv_def)
  with assms show ?thesis by - (rule timed_inv_frame [of E c], simp_all)
qed

lemma others_keep:
  assumes "timed_inv E c" and "en_tree E s (en_path E) = en_tree E (td_store c) (en_path E)"
  shows "timed_inv E (c\<lparr>td_store := s\<rparr>)"
proof -
  have "record_from E c v j r k \<Longrightarrow> record_from E (c\<lparr>td_store := s\<rparr>) v j r k" for v j r k
    using assms(2) by (simp add: record_from_def)
  then have "node_inv E (c\<lparr>td_store := s\<rparr>) i" for i
    using assms by - (rule node_inv_frame [of E c i], simp_all add: timed_inv_def)
  with assms show ?thesis by - (rule timed_inv_frame [of E c], simp_all)
qed

lemma begins_keeps:
  "timed_inv E c \<Longrightarrow> timed_inv E (c\<lparr>td_plan := (td_plan c)(n := Started),
     td_begun := (td_begun c)(n := td_now c + en_skew E n)\<rparr>)"
  by (rule timed_inv_frame [of E c _ n])
    (auto simp: timed_inv_def node_inv_def node_at_def plan_inv_def update_inv_def)

lemma restarts_keeps:
  assumes "env_ok E" and "timed_inv E c"
  shows "timed_inv E (c\<lparr>td_nodes := (td_nodes c)(n := restarted (td_nodes c n)), td_plan := (td_plan c)(n := Resting)\<rparr>)"
proof -
  have "node_at E c n" "td_begun c n \<le> td_now c + en_skew E n"
    using assms(2) by (simp_all add: timed_inv_def node_inv_def)
  moreover have "[] \<noteq> en_id E i" for i using assms(1) by (metis env_ok_def)
  ultimately show ?thesis
    using assms(2) by - (rule timed_inv_frame [of E c _ n], auto simp: node_inv_def node_at_def plan_inv_def update_inv_def observed_inv_def restarted_def zero_record_def
        lock_setup_def lock_path_def)
qed

subsection \<open>The read\<close>

lemma same_second: "a div second = b div second \<Longrightarrow> a < b + second"
proof -
  assume "a div second = b div second"
  moreover have "a mod second < second" "0 \<le> b mod second" by (simp_all add: second_def)
  moreover have "a = a div second * second + a mod second" "b = b div second * second + b mod second" by simp_all
  moreover from calculation(1) have "a div second * second = b div second * second" by simp
  ultimately show ?thesis by linarith
qed

lemma lock_get_Inr:
  "lock_get dec kv l s = (Inr old, l', s') \<Longrightarrow> \<exists>q. el_pair l' = Some q \<and> dec (kv_value q) = Some old"
  by (auto simp: lock_get_def split: prod.splits sum.splits option.splits)

text \<open>What a read finds is the record in the store.\<close>

lemma read_record:
  assumes "env_ok E" and "timed_inv E c"
    and g: "lock_get (en_dec E) (en_kv E) (ev_lock (td_nodes c n)) (td_store c) = (Inr old, l, s1)"
  shows "\<exists>q v j k. el_pair l = Some q \<and> kv_index q = j \<and> record_from E c v j old k"
proof -
  have at: "lock_setup (en_kv E) (en_tree E) (ev_lock (td_nodes c n))"
    "lock_path (en_kv E) (ev_lock (td_nodes c n)) = en_path E"
    using assms(2) by (simp_all add: timed_inv_def node_inv_def node_at_def)
  note G = lock_get_frame [OF at(1) g, unfolded at(2)]
  obtain q where q: "el_pair l = Some q" "en_dec E (kv_value q) = Some old" using lock_get_Inr [OF g] by blast
  from G(6) [OF q(1)] assms(2) obtain v j r k where r: "record_from E c v j r k"
    unfolding timed_inv_def inv_store_def by metis
  then have "kv_index q = j" "kv_value q = v" using G(5) [OF q(1)] by (simp_all add: record_from_def)
  moreover have "r = old" using r q(2) calculation by (simp add: record_from_def)
  ultimately show ?thesis using q(1) r by blast
qed

lemma observed_record:
  assumes "env_ok E" and "timed_inv E c" and "record_from E c v j old k"
    and "observed_inv E e n" and "t = td_now c + en_skew E n"
  shows "observed_inv E (observe e old t) n"
    and "td_start c < ev_time (observe e old t) - en_skew E n + second"
proof -
  have owner: "k' = k" if "er_holder old = en_id E k'" for k'
    using that assms(1,3) by (auto simp: record_from_def env_ok_def inj_def)
  have r: "er_holder old = en_id E k" "renew_second old = (td_start c + en_skew E k) div second"
    using assms(3) by (simp_all add: record_from_def)
  have now: "td_start c \<le> td_now c" using record_from_now [OF assms(3,2)] .
  show o: "observed_inv E (observe e old t) n"
  proof (cases "ev_observed e = old")
    case True
    with assms(4) show ?thesis by (simp add: observe_def)
  next
    case False
    then have obs: "observe e old t = e\<lparr>ev_observed := old, ev_time := t\<rparr>" by (simp add: observe_def)
    show ?thesis
      unfolding observed_inv_def obs
    proof (intro allI impI exI [of _ "td_start c"])
      fix i
      assume "er_holder (ev_observed (e\<lparr>ev_observed := old, ev_time := t\<rparr>)) = en_id E i"
      then have "i = k" using owner by simp
      with r(2) now assms(5)
      show "renew_second (ev_observed (e\<lparr>ev_observed := old, ev_time := t\<rparr>)) = (td_start c + en_skew E i) div second \<and>
        td_start c \<le> ev_time (e\<lparr>ev_observed := old, ev_time := t\<rparr>) - en_skew E n" by simp
    qed
  qed
  from r(1) have "er_holder (ev_observed (observe e old t)) = en_id E k" by simp
  with o obtain b where "renew_second (ev_observed (observe e old t)) = (b + en_skew E k) div second"
    "b \<le> ev_time (observe e old t) - en_skew E n"
    unfolding observed_inv_def by blast
  with r(2) same_second [of "td_start c + en_skew E k" "b + en_skew E k"]
  show "td_start c < ev_time (observe e old t) - en_skew E n + second" by simp
qed

lemma after_read_simps:
  "td_now (after_read n (p, e, s) c) = td_now c" "td_begun (after_read n (p, e, s) c) = td_begun c"
  "td_start (after_read n (p, e, s) c) = td_start c" "td_won (after_read n (p, e, s) c) = td_won c"
  "td_store (after_read n (p, e, s) c) = s"
  "td_nodes (after_read n (p, e, s) c) = (td_nodes c)(n := e)" "td_plan (after_read n (p, e, s) c) = (td_plan c)(n := p)"
  by (simp_all add: after_read_def)

lemma correct_record_fresh:
  "er_holder (correct_record old (fresh_record i l t)) = i" "renew_second (correct_record old (fresh_record i l t)) = t div second"
  "er_holder (fresh_record i l t) = i" "renew_second (fresh_record i l t) = t div second"
  by (simp_all add: correct_record_def fresh_record_def renew_second_def)

lemma reads_keeps:
  assumes "env_ok E" and "timed_inv E c"
  shows "timed_inv E (after_read n (acquire_read (en_dec E) (en_kv E) (en_lease E) (td_begun c n)
      (td_now c + en_skew E n) (td_nodes c n) (td_store c)) c)"
proof -
  let ?e = "td_nodes c n" and ?t = "td_now c + en_skew E n" and ?node = "en_id E n"
  have ni: "node_at E c n" "td_begun c n \<le> ?t" "observed_inv E ?e n"
    using assms(2) by (simp_all add: timed_inv_def node_inv_def)
  then have at: "lock_setup (en_kv E) (en_tree E) (ev_lock ?e)" "lock_path (en_kv E) (ev_lock ?e) = en_path E"
    "lock_identity (ev_lock ?e) = ?node"
    by (simp_all add: node_at_def lock_identity_def)
  obtain res l s1 where g: "lock_get (en_dec E) (en_kv E) (ev_lock ?e) (td_store c) = (res, l, s1)"
    by (metis prod.collapse)
  note G = lock_get_frame [OF at(1) g]
  have l: "lock_setup (en_kv E) (en_tree E) l" "lock_path (en_kv E) l = en_path E" "el_identity l = ?node"
    using lock_frame_setup [OF at(1) G(2,3)] at(2,3) G(4) by (simp_all add: lock_identity_def)
  have step: "timed_inv E (after_read n (p, e, s1) c)"
    if "ev_lock e = l" "observed_inv E e n" "p \<noteq> Started"
      "\<And>r. p = Creating r \<or> p = Updating r \<Longrightarrow> er_holder r = ?node \<and> renew_second r = td_begun c n div second"
      "\<And>r. p = Updating r \<Longrightarrow> \<exists>q v j old k. el_pair l = Some q \<and> 0 < kv_index q \<and> record_from E c v j old k \<and>
         kv_index q \<le> j \<and>
         (kv_index q = j \<longrightarrow> k = n \<or> td_start c + en_lease E - second < td_begun c n - en_skew E n)" for p e
  proof -
    let ?d = "after_read n (p, e, s1) c"
    have rec: "record_from E (after_read n (p', e, s1) c) v j old k = record_from E c v j old k" for p' v j old k
      by (simp add: record_from_def after_read_simps G(1))
    have "node_inv E ?d n"
      using that l ni(2) by (simp add: node_inv_def node_at_def plan_inv_def update_inv_def rec after_read_simps)
    then show ?thesis
      by - (rule timed_inv_frame [of E c _ n], simp_all add: after_read_simps G(1) assms(2))
  qed
  show ?thesis
  proof (cases res)
    case (Inl err)
    have "timed_inv E (after_read n (if err \<noteq> LockNotFound then Resting
        else Creating (fresh_record ?node (en_lease E) (td_begun c n)), ?e\<lparr>ev_lock := l\<rparr>, s1) c)"
      by (rule step) (use ni(3) in \<open>auto simp: observed_inv_def correct_record_fresh split: if_splits\<close>)
    then show ?thesis by (simp add: acquire_read_def g Inl at(3))
  next
    case (Inr old)
    let ?o = "observe ?e old ?t"
    obtain q v j k where r: "el_pair l = Some q" "kv_index q = j" "record_from E c v j old k"
      using read_record [OF assms g [unfolded Inr]] by blast
    note O = observed_record [OF assms r(3) ni(3) refl]
    let ?p = "if td_begun c n < ev_time ?o + en_lease E \<and> er_holder old \<noteq> ?node then Resting
       else Updating (correct_record old (fresh_record ?node (en_lease E) (td_begun c n)))"
    have own: "er_holder old = ?node \<Longrightarrow> k = n" using r(3) assms(1) by (auto simp: record_from_def env_ok_def inj_def)
    have "0 < j" using r(3) by (simp add: record_from_def)
    with r have upd: "\<exists>q v j old k. el_pair l = Some q \<and> 0 < kv_index q \<and> record_from E c v j old k \<and>
         kv_index q \<le> j \<and>
         (kv_index q = j \<longrightarrow> k = n \<or> td_start c + en_lease E - second < td_begun c n - en_skew E n)"
      if "\<not> (td_begun c n < ev_time ?o + en_lease E \<and> er_holder old \<noteq> ?node)"
      using that own O(2) by (intro exI [of _ q] exI [of _ v] exI [of _ j] exI [of _ old] exI [of _ k]) auto
    have "timed_inv E (after_read n (?p, ?o\<lparr>ev_lock := l\<rparr>, s1) c)"
    proof (rule step)
      show "observed_inv E (?o\<lparr>ev_lock := l\<rparr>) n" using O(1) by (simp add: observed_inv_def)
    qed (use upd in \<open>auto simp: correct_record_fresh split: if_splits\<close>)
    then show ?thesis by (simp add: acquire_read_def g Inr at(3) Let_def)
  qed
qed

subsection \<open>The write\<close>

text \<open>What a write is based on: nothing for the first record, else the pair of the read.\<close>

definition write_basis :: "plan \<Rightarrow> electing \<Rightarrow> election_record \<Rightarrow> kvpair option \<Rightarrow> bool" where
  "write_basis p e r previous \<longleftrightarrow>
     p = Creating r \<and> previous = None \<or> p = Updating r \<and> previous = el_pair (ev_lock e) \<and> previous \<noteq> None"

lemma acquire_write_cases:
  assumes l: "lock_setup kv tree (ev_lock e)" and "acquire_write enc kv t2 p e s = (ok, e', s')"
    and "write_basis p e r previous"
  shows "el_item (ev_lock e') = el_item (ev_lock e) \<and> el_key (ev_lock e') = el_key (ev_lock e) \<and>
      el_identity (ev_lock e') = el_identity (ev_lock e)"
    and "ok \<Longrightarrow> ev_observed e' = r \<and> ev_time e' = t2 \<and>
      (\<exists>i. conditional_put (tree s) (lock_path kv (ev_lock e)) previous (enc r) i (tree s'))"
    and "\<not> ok \<Longrightarrow> ev_observed e' = ev_observed e \<and> ev_time e' = ev_time e \<and>
      (tree s' = tree s \<or>
       (\<exists>i. conditional_put (tree s) (lock_path kv (ev_lock e)) previous (enc r) i (tree s')))"
proof -
  obtain res l' s2 where w: "lock_write enc kv previous (ev_lock e) s r = (res, l', s2)" by (metis prod.collapse)
  note W = lock_write_cases [OF l w]
  have run: "acquire_write enc kv t2 p e s =
      (case res of Inl err \<Rightarrow> (False, e\<lparr>ev_lock := l'\<rparr>, s2)
       | Inr u \<Rightarrow> (True, e\<lparr>ev_lock := l', ev_observed := r, ev_time := t2\<rparr>, s2))"
    using assms(3) w by (auto simp: write_basis_def acquire_write_def lock_create_def lock_update_def split: sum.splits)
  show "el_item (ev_lock e') = el_item (ev_lock e) \<and> el_key (ev_lock e') = el_key (ev_lock e) \<and>
      el_identity (ev_lock e') = el_identity (ev_lock e)"
    using assms(2) run W(1) by (auto split: sum.splits)
  show "ev_observed e' = r \<and> ev_time e' = t2 \<and>
      (\<exists>i. conditional_put (tree s) (lock_path kv (ev_lock e)) previous (enc r) i (tree s'))" if ok
    using assms(2) run W(2) that by (cases res) auto
  show "ev_observed e' = ev_observed e \<and> ev_time e' = ev_time e \<and>
      (tree s' = tree s \<or>
       (\<exists>i. conditional_put (tree s) (lock_path kv (ev_lock e)) previous (enc r) i (tree s')))" if "\<not> ok"
    using assms(2) run W(3) that by (cases res) auto
qed

lemma after_write_simps:
  "td_now (after_write E n (ok, e, s) c) = td_now c" "td_begun (after_write E n (ok, e, s) c) = td_begun c"
  "td_store (after_write E n (ok, e, s) c) = s" "td_nodes (after_write E n (ok, e, s) c) = (td_nodes c)(n := e)"
  "td_plan (after_write E n (ok, e, s) c) = (td_plan c)(n := Resting)"
  "td_won (after_write E n (ok, e, s) c) =
     (if ok then (td_won c)(n \<mapsto> td_begun c n - en_skew E n) else td_won c)"
  "td_start (after_write E n (ok, e, s) c) =
     (if en_tree E s (en_path E) = en_tree E (td_store c) (en_path E) then td_start c else td_begun c n - en_skew E n)"
  by (simp_all add: after_write_def Let_def)

text \<open>What node \<open>n\<close> is based on when it writes: there is no record, or the pair it holds is that of the
  store and the lease of its owner is over.\<close>

definition may_write :: "('n, 's) election_env \<Rightarrow> ('n, 's) timed \<Rightarrow> 'n \<Rightarrow> bool" where
  "may_write E c n \<longleftrightarrow> en_tree E (td_store c) (en_path E) = None \<or>
     (\<exists>v j r k. record_from E c v j r k \<and>
        (k = n \<or> td_start c + en_lease E - second < td_begun c n - en_skew E n))"

lemma put_may_write:
  assumes "node_inv E c n" and "write_basis (td_plan c n) (td_nodes c n) r previous"
    and put: "conditional_put (en_tree E (td_store c)) (en_path E) previous v i t'"
  shows "may_write E c n" and "t' (en_path E) = Some (File v i)" and "0 < i"
    and "en_tree E (td_store c) (en_path E) = Some (File v' j') \<Longrightarrow> j' < i"
proof -
  have pos: "0 < kv_index p" if "previous = Some p" for p
    using assms(1,2) that by (auto simp: write_basis_def node_inv_def update_inv_def)
  have P: "0 < i" "previous = None \<Longrightarrow> en_tree E (td_store c) (en_path E) = None"
    "\<And>p. previous = Some p \<Longrightarrow> lock_file (en_tree E (td_store c)) (en_path E) (kv_index p)"
    "\<And>j. lock_file (en_tree E (td_store c)) (en_path E) j \<Longrightarrow> j < i"
    using conditional_put_lock [OF put pos] by blast+
  show "t' (en_path E) = Some (File v i)" using put by (auto simp: conditional_put_def dest: set_at_same)
  show "0 < i" using P(1) .
  show "en_tree E (td_store c) (en_path E) = Some (File v' j') \<Longrightarrow> j' < i" using P(4) by (simp add: lock_file_def)
  show "may_write E c n"
  proof (cases previous)
    case None
    with P(2) show ?thesis by (simp add: may_write_def)
  next
    case (Some p)
    with assms(2) have up: "td_plan c n = Updating r" "el_pair (ev_lock (td_nodes c n)) = Some p"
      by (auto simp: write_basis_def)
    with assms(1) obtain v j r k where u: "record_from E c v j r k"
      "kv_index p = j \<longrightarrow> k = n \<or> td_start c + en_lease E - second < td_begun c n - en_skew E n"
      unfolding node_inv_def update_inv_def by fastforce
    moreover have "kv_index p = j" using P(3) [OF Some] u(1) by (auto simp: record_from_def lock_file_def)
    ultimately show ?thesis unfolding may_write_def by blast
  qed
qed

text \<open>A write that took effect.\<close>

lemma effective_write_keeps:
  assumes env: "env_ok E" and inv: "timed_inv E c" and may: "may_write E c n"
    and at: "lock_setup (en_kv E) (en_tree E) (ev_lock e)" "lock_path (en_kv E) (ev_lock e) = en_path E"
      "el_identity (ev_lock e) = en_id E n"
    and r: "er_holder r = en_id E n" "renew_second r = td_begun c n div second"
    and new: "en_tree E s (en_path E) = Some (File (en_enc E r) i)" "0 < i"
      "\<And>v j. en_tree E (td_store c) (en_path E) = Some (File v j) \<Longrightarrow> j < i"
    and obs: "observed_inv E e n"
  shows "timed_inv E (after_write E n (ok, e, s) c)"
proof -
  let ?d = "after_write E n (ok, e, s) c" and ?began = "td_begun c n - en_skew E n"
  have "en_tree E s (en_path E) \<noteq> en_tree E (td_store c) (en_path E)" using new(1) new(3) [of "en_enc E r" i] by auto
  then have start: "td_start ?d = ?began" by (simp add: after_write_simps)
  obtain r' where r': "en_dec E (en_enc E r) = Some r'" "er_holder r' = en_id E n"
    "renew_second r' = td_begun c n div second"
    using env r unfolding env_ok_def codec_ok_def by metis
  have rec: "record_from E ?d (en_enc E r) i r' n"
    using new(1,2) r' start by (simp add: record_from_def after_write_simps)
  have "inv_store E ?d" using rec unfolding inv_store_def by blast
  moreover have "inv_won E ?d"
    unfolding inv_won_def
  proof (intro allI impI)
    fix m w
    assume won: "td_won ?d m = Some w"
    have "w + en_skew E m \<le> td_begun c m \<and> (if n = m then w \<le> ?began else w + en_lease E - second \<le> ?began)"
    proof (cases "ok \<and> m = n")
      case True
      with won show ?thesis by (simp add: after_write_simps)
    next
      case False
      with won have old: "td_won c m = Some w" by (auto simp: after_write_simps split: if_splits)
      with inv obtain v j q k where q: "w + en_skew E m \<le> td_begun c m" "record_from E c v j q k"
        "if k = m then w \<le> td_start c else w + en_lease E - second \<le> td_start c"
        unfolding timed_inv_def inv_won_def by blast
      with may obtain v' j' q' k' where "record_from E c v' j' q' k'"
        "k' = n \<or> td_start c + en_lease E - second < ?began"
        unfolding may_write_def record_from_def by auto
      then have k: "k = n \<or> td_start c + en_lease E - second < ?began"
        using record_from_unique(4) [OF env q(2)] by blast
      have "second \<le> en_lease E" using env by (simp add: env_ok_def)
      moreover have "td_start c \<le> ?began" if "k = n" using q(2) that by (simp add: record_from_def)
      ultimately show ?thesis using k q(1,3) by (auto split: if_splits)
    qed
    with rec start show "w + en_skew E m \<le> td_begun ?d m \<and> (\<exists>v j r k. record_from E ?d v j r k \<and>
        (if k = m then w \<le> td_start ?d else w + en_lease E - second \<le> td_start ?d))"
      unfolding after_write_simps(2) by (metis (full_types))
  qed
  moreover have "node_inv E ?d m" for m
  proof -
    have ni: "node_inv E c m" using inv by (simp add: timed_inv_def)
    show ?thesis
    proof (cases "m = n")
      case True
      with ni at obs show ?thesis
        by (simp add: node_inv_def node_at_def plan_inv_def update_inv_def after_write_simps)
    next
      case False
      have "update_inv E ?d m"
        unfolding update_inv_def
      proof (intro allI impI)
        fix r''
        assume "td_plan ?d m = Updating r''"
        with False ni obtain p v j q k where p: "el_pair (ev_lock (td_nodes c m)) = Some p" "0 < kv_index p"
          "record_from E c v j q k" "kv_index p \<le> j"
          unfolding node_inv_def update_inv_def after_write_simps by (metis fun_upd_other)
        from new(3) p(3,4) have "kv_index p < i" by (force simp: record_from_def)
        with p False rec show "\<exists>p v j r k. el_pair (ev_lock (td_nodes ?d m)) = Some p \<and> 0 < kv_index p \<and>
            record_from E ?d v j r k \<and> kv_index p \<le> j \<and>
            (kv_index p = j \<longrightarrow> k = m \<or> td_start ?d + en_lease E - second < td_begun ?d m - en_skew E m)"
          by (intro exI [of _ p] exI [of _ "en_enc E r"] exI [of _ i] exI [of _ r'] exI [of _ n])
            (simp add: after_write_simps)
      qed
      with ni False show ?thesis
        by (simp add: node_inv_def node_at_def plan_inv_def after_write_simps)
    qed
  qed
  ultimately show ?thesis by (simp add: timed_inv_def)
qed

lemma failed_write_keeps:
  assumes "timed_inv E c" and "node_at E (after_write E n (False, e, s) c) n"
    and "en_tree E s (en_path E) = en_tree E (td_store c) (en_path E)" and "observed_inv E e n"
  shows "timed_inv E (after_write E n (False, e, s) c)"
proof -
  let ?d = "after_write E n (False, e, s) c"
  have "node_inv E c n" using assms(1) by (simp add: timed_inv_def)
  then have "node_inv E ?d n"
    using assms(2,4) by (simp add: node_inv_def plan_inv_def update_inv_def after_write_simps)
  then show ?thesis
    by - (rule timed_inv_frame [of E c _ n], simp_all add: after_write_simps assms(1,3))
qed

lemma writes_keeps:
  assumes env: "env_ok E" and inv: "timed_inv E c" and "td_plan c n \<noteq> Resting" and "td_plan c n \<noteq> Started"
  shows "timed_inv E (after_write E n (acquire_write (en_enc E) (en_kv E) (td_now c + en_skew E n) (td_plan c n)
      (td_nodes c n) (td_store c)) c)"
proof -
  let ?e = "td_nodes c n"
  have ni: "node_inv E c n" using inv by (simp add: timed_inv_def)
  then have at: "lock_setup (en_kv E) (en_tree E) (ev_lock ?e)" "lock_path (en_kv E) (ev_lock ?e) = en_path E"
    "el_identity (ev_lock ?e) = en_id E n" and obs: "observed_inv E ?e n" and begun: "td_begun c n \<le> td_now c + en_skew E n"
    by (simp_all add: node_inv_def node_at_def)
  obtain r previous where basis: "write_basis (td_plan c n) ?e r previous"
  proof (cases "td_plan c n")
    case (Creating r)
    then show ?thesis by (intro that) (simp add: write_basis_def)
  next
    case (Updating r)
    with ni obtain p where "el_pair (ev_lock ?e) = Some p" by (auto simp: node_inv_def update_inv_def)
    with Updating show ?thesis by (intro that [of r "Some p"]) (simp add: write_basis_def)
  qed (use assms(3,4) in simp_all)
  have r: "er_holder r = en_id E n" "renew_second r = td_begun c n div second"
    using ni basis by (auto simp: node_inv_def plan_inv_def write_basis_def)
  obtain ok e s where w: "acquire_write (en_enc E) (en_kv E) (td_now c + en_skew E n) (td_plan c n) ?e (td_store c) = (ok, e, s)"
    by (metis prod.collapse)
  note W = acquire_write_cases [OF at(1) w basis, unfolded at(2)]
  have at': "lock_setup (en_kv E) (en_tree E) (ev_lock e)" "lock_path (en_kv E) (ev_lock e) = en_path E"
    "el_identity (ev_lock e) = en_id E n"
    using lock_frame_setup [OF at(1), of "ev_lock e"] W(1) at(2,3) by simp_all
  have obs': "observed_inv E e n"
  proof (cases ok)
    case True
    have "er_holder r = en_id E k \<Longrightarrow> k = n" for k using r(1) env by (auto simp: env_ok_def inj_def)
    with W(2) [OF True] r(2) begun show ?thesis
      by (auto simp: observed_inv_def intro!: exI [of _ "td_begun c n - en_skew E n"])
  next
    case False
    with W(3) obs show ?thesis by (simp add: observed_inv_def)
  qed
  have "timed_inv E (after_write E n (ok, e, s) c)"
  proof (cases "\<exists>i. conditional_put (en_tree E (td_store c)) (en_path E) previous (en_enc E r) i (en_tree E s)")
    case True
    then obtain i where put: "conditional_put (en_tree E (td_store c)) (en_path E) previous (en_enc E r) i (en_tree E s)" ..
    note P = put_may_write [OF ni basis put]
    show ?thesis by (rule effective_write_keeps [OF env inv P(1) at' r P(2,3,4) obs'])
  next
    case False
    with W(2,3) have "\<not> ok" "en_tree E s = en_tree E (td_store c)" by blast+
    with failed_write_keeps [OF inv, of n e s] at' obs' show ?thesis
      by (simp add: node_at_def after_write_simps)
  qed
  then show ?thesis unfolding w .
qed

theorem timed_step_inv: "timed_step E c d \<Longrightarrow> env_ok E \<Longrightarrow> timed_inv E c \<Longrightarrow> timed_inv E d"
  by (induction rule: timed_step.induct)
    (simp_all add: tick_keeps begins_keeps reads_keeps writes_keeps restarts_keeps others_keep)

lemma timed_run_inv: "timed_run E c d \<Longrightarrow> env_ok E \<Longrightarrow> timed_inv E c \<Longrightarrow> timed_inv E d"
  by (induction rule: timed_run.induct) (simp_all add: timed_step_inv)

text \<open>C7: mutual exclusion of the leases.  Several nodes run the attempts of client-go's elector over the
  program's etcd lock, each attempt reading and later writing at times of its own, on clocks set
  differently, with failing and falsely reported calls, restarts and other users of the store in
  between: two nodes never hold at the same time a lease that, counted from the start of the
  attempt that won it and less the second the record does not tell, has not run out.\<close>

theorem one_lease_at_a_time:
  assumes "env_ok E" and "timed_initial E c" and "timed_run E c d"
    and "holds_lease E d m" and "holds_lease E d n"
  shows "m = n"
  using timed_inv_lease [OF assms(1) timed_run_inv [OF assms(3,1) timed_inv_initial [OF assms(1,2)]] assms(4,5)] .

section \<open>Two nodes on the in-memory server\<close>

text \<open>A codec that keeps what the hypothesis asks for: the second of the renewal and the holder.\<close>

definition demo_enc :: "election_record \<Rightarrow> string" where
  "demo_enc r = itoa (renew_second r) @ CHR '','' # er_holder r"

definition demo_int :: "string \<Rightarrow> int" where
  "demo_int s = (if has_prefix s ''-'' then - int (dec_val (tl s)) else int (dec_val s))"

definition demo_dec :: "string \<Rightarrow> election_record option" where
  "demo_dec s = (case split_on CHR '','' s of
      [] \<Rightarrow> None
    | t # rest \<Rightarrow> Some (zero_record\<lparr>er_holder := join_with CHR '','' rest, er_renew := demo_int t * second\<rparr>))"

lemma itoa_no_comma: "CHR '','' \<notin> set (itoa i)"
proof -
  have "CHR '','' \<notin> set (itoa_nat n)" for n
    using itoa_nat_digits [of "CHR '',''" n] by (auto simp: is_digit_def)
  then show ?thesis by (simp add: itoa_def)
qed

lemma demo_int_itoa: "demo_int (itoa i) = i"
proof (cases "i < 0")
  case True
  then show ?thesis by (simp add: demo_int_def itoa_def)
next
  case False
  obtain c cs where c: "itoa_nat (nat i) = c # cs" by (cases "itoa_nat (nat i)") simp_all
  have "c \<noteq> CHR ''-''" using itoa_nat_digits [of c "nat i"] c by (auto simp: is_digit_def)
  with False c show ?thesis
    using dec_val_itoa_nat [of "nat i"] by (simp add: demo_int_def itoa_def)
qed

lemma demo_codec: "codec_ok demo_enc demo_dec"
  unfolding codec_ok_def
proof
  fix r
  have "split_on CHR '','' (demo_enc r) = itoa (renew_second r) # split_on CHR '','' (er_holder r)"
    unfolding demo_enc_def split_on_append_sep by (simp add: split_on_no_sep itoa_no_comma)
  then show "\<exists>r'. demo_dec (demo_enc r) = Some r' \<and> er_holder r' = er_holder r \<and> renew_second r' = renew_second r"
    by (simp add: demo_dec_def demo_int_itoa) (simp add: renew_second_def second_def)
qed

text \<open>The clock of node b is five seconds ahead.\<close>

definition demo_timed_env :: "(bool, mem) election_env" where
  "demo_timed_env =
     \<lparr>en_enc = demo_enc, en_dec = demo_dec, en_kv = demo_kv, en_tree = mem_view, en_path = demo_lock_path,
      en_lease = default_lease_duration, en_skew = (\<lambda>n. if n then 0 else 5 * second),
      en_id = (\<lambda>n. if n then ''a'' else ''b'')\<rparr>"

definition demo_timed :: "(bool, mem) timed" where
  "demo_timed =
     \<lparr>td_now = 0,
      td_nodes = (\<lambda>n. \<lparr>ev_lock = lock_new ''prod'' ''leader'' (if n then ''a'' else ''b''), ev_observed = zero_record,
        ev_time = 0, ev_reported = []\<rparr>),
      td_plan = (\<lambda>n. Resting), td_begun = (\<lambda>n. 0),
      td_store = \<lparr>mem_tree = [([''lb''], Directory)], mem_index = 1, mem_faults = []\<rparr>, td_start = 0, td_won = (\<lambda>n. None)\<rparr>"

definition begin_read :: "bool \<Rightarrow> int \<Rightarrow> (bool, mem) timed \<Rightarrow> (bool, mem) timed" where
  "begin_read n t c =
     (let c1 = c\<lparr>td_now := t\<rparr>;
          c2 = c1\<lparr>td_plan := (td_plan c1)(n := Started), td_begun := (td_begun c1)(n := td_now c1 + en_skew demo_timed_env n)\<rparr>
      in after_read n (acquire_read demo_dec demo_kv default_lease_duration (td_begun c2 n)
           (td_now c2 + en_skew demo_timed_env n) (td_nodes c2 n) (td_store c2)) c2)"

definition then_write :: "bool \<Rightarrow> (bool, mem) timed \<Rightarrow> (bool, mem) timed" where
  "then_write n c = after_write demo_timed_env n (acquire_write demo_enc demo_kv (td_now c + en_skew demo_timed_env n) (td_plan c n)
      (td_nodes c n) (td_store c)) c"

lemma begin_read_run:
  assumes "timed_run demo_timed_env c0 c" and "td_plan c n = Resting" and "td_now c \<le> t"
  shows "timed_run demo_timed_env c0 (begin_read n t c)"
proof -
  have r: "timed_step demo_timed_env c' (after_read n (acquire_read demo_dec demo_kv default_lease_duration (td_begun c' n)
      (td_now c' + en_skew demo_timed_env n) (td_nodes c' n) (td_store c')) c')" if "td_plan c' n = Started" for c'
    using timed_step.reads [of c' n demo_timed_env, OF that] by (simp add: demo_timed_env_def)
  show ?thesis
    unfolding begin_read_def Let_def
    by (rule timed_run.step [OF timed_run.step [OF timed_run.step [OF assms(1) timed_step.tick [OF assms(3)]]
      timed_step.begins] r]) (simp_all add: assms(2))
qed

lemma then_write_run:
  assumes "timed_run demo_timed_env c0 c" and "td_plan c n \<noteq> Resting" and "td_plan c n \<noteq> Started"
  shows "timed_run demo_timed_env c0 (then_write n c)"
  using timed_run.step [OF assms(1) timed_step.writes [OF assms(2,3)]]
  by (simp add: then_write_def demo_timed_env_def)

text \<open>Node a gets the lease at 0 and stops; node b looks at 1 second and in vain, and takes over at 12.\<close>

definition demo_won :: "(bool, mem) timed" where
  "demo_won = then_write True (begin_read True 0 demo_timed)"

definition demo_looked :: "(bool, mem) timed" where
  "demo_looked = begin_read False second demo_won"

definition demo_taken :: "(bool, mem) timed" where
  "demo_taken = then_write False (begin_read False (12 * second) demo_looked)"

definition settled :: "plan \<Rightarrow> bool" where
  "settled p = (case p of Resting \<Rightarrow> True | _ \<Rightarrow> False)"

definition writing :: "plan \<Rightarrow> bool" where
  "writing p = (case p of Creating r \<Rightarrow> True | Updating r \<Rightarrow> True | _ \<Rightarrow> False)"

lemma plan_tests: "settled p \<Longrightarrow> p = Resting" "writing p \<Longrightarrow> p \<noteq> Resting" "writing p \<Longrightarrow> p \<noteq> Started"
  by (auto simp: settled_def writing_def split: plan.splits)

lemma demo_timed_run: "timed_run demo_timed_env demo_timed demo_taken"
proof -
  have p: "writing (td_plan (begin_read True 0 demo_timed) True)" "settled (td_plan demo_won False)"
    "settled (td_plan demo_looked False)" "writing (td_plan (begin_read False (12 * second) demo_looked) False)"
    by code_simp+
  have t: "td_now demo_won \<le> second" "td_now demo_looked \<le> 12 * second" by code_simp+
  have "timed_run demo_timed_env demo_timed (begin_read True 0 demo_timed)"
    by (rule begin_read_run [OF timed_run.start]) (simp_all add: demo_timed_def)
  then have "timed_run demo_timed_env demo_timed demo_won"
    unfolding demo_won_def by (rule then_write_run) (use p(1) plan_tests in blast)+
  then have "timed_run demo_timed_env demo_timed demo_looked"
    unfolding demo_looked_def by (rule begin_read_run) (use p(2) plan_tests t(1) in blast)+
  then have "timed_run demo_timed_env demo_timed (begin_read False (12 * second) demo_looked)"
    by (rule begin_read_run) (use p(3) plan_tests t(2) in blast)+
  then show ?thesis
    unfolding demo_taken_def by (rule then_write_run) (use p(4) plan_tests in blast)+
qed

lemma demo_timed_env_ok: "env_ok demo_timed_env"
  using demo_codec by (simp add: env_ok_def demo_timed_env_def inj_def default_lease_duration_def second_def)

lemma demo_timed_initial: "timed_initial demo_timed_env demo_timed"
  using demo_lock_setup
  by (simp add: timed_initial_def node_at_def demo_timed_env_def demo_timed_def mem_view_def demo_lock_path_def second_def)
    (simp add: lock_new_def)

lemma demo_taken_holds: "holds_lease demo_timed_env demo_taken False"
  by code_simp

lemma one_lease_at_a_time_witness:
  "holds_lease demo_timed_env demo_taken False \<and> \<not> holds_lease demo_timed_env demo_taken True"
  using one_lease_at_a_time [OF demo_timed_env_ok demo_timed_initial demo_timed_run demo_taken_holds, of True]
    demo_taken_holds by blast

end
