(* ===== verification/Renewal.thy ===== *)
theory Renewal
  imports Election
begin

text \<open>
  How long a node goes on leading: the renewal loop of client-go's elector, \<open>wait.Poll\<close> over attempts of
  known length, with the durations of \<open>pkg/leader/leader.go\<close>, and what follows for the leases of theory
  \<open>Election\<close>.  Delays of the scheduler count as part of an attempt.
\<close>

section \<open>wait.Poll\<close>

text \<open>The ticker fires every \<open>interval\<close> after the start \<open>s\<close>; a tick finds the loop waiting or is dropped.
  After \<open>timeout\<close> the channel is closed, and the condition is tried one last time.  \<open>t\<close> is the time
  from which the loop waits; an attempt is its length and its result.  Should a tick and the timeout
  fall together, which they cannot with the program's 2 and 5 seconds, the timeout is taken first.\<close>

definition next_tick :: "int \<Rightarrow> int \<Rightarrow> int \<Rightarrow> int" where
  "next_tick interval s t = s + ((t - s) div interval + 1) * interval"

fun poll :: "int \<Rightarrow> int \<Rightarrow> int \<Rightarrow> int \<Rightarrow> (int \<times> bool) list \<Rightarrow> (bool \<times> int) option" where
  "poll interval timeout s t [] = None"
| "poll interval timeout s t ((d, ok) # attempts) =
     (let tick = next_tick interval s t
      in if tick < s + timeout then
           (if ok then Some (True, tick + d) else poll interval timeout s (tick + d) attempts)
         else Some (ok, max t (s + timeout) + d))"

text \<open>\<open>renew\<close>: one \<open>Poll\<close> after the other until one fails.  The result is the time at which the last
  successful attempt returned and the time at which the loop gives up.\<close>

fun renew :: "int \<Rightarrow> int \<Rightarrow> int \<Rightarrow> (int \<times> bool) list list \<Rightarrow> (int \<times> int) option" where
  "renew interval timeout s [] = None"
| "renew interval timeout s (attempts # rounds) =
     (case poll interval timeout s s attempts of
        None \<Rightarrow> None
      | Some (True, e) \<Rightarrow> renew interval timeout e rounds
      | Some (False, e) \<Rightarrow> Some (s, e))"

definition within :: "int \<Rightarrow> (int \<times> bool) list \<Rightarrow> bool" where
  "within D attempts \<longleftrightarrow> (\<forall>x \<in> set attempts. 0 \<le> fst x \<and> fst x \<le> D)"

lemma next_tick_after:
  assumes "0 < interval"
  shows "t < next_tick interval s t" and "next_tick interval s t \<le> t + interval"
proof -
  have m: "t - s = (t - s) div interval * interval + (t - s) mod interval" by simp
  have "0 \<le> (t - s) mod interval" "(t - s) mod interval < interval" using assms by simp_all
  with m show "t < next_tick interval s t" "next_tick interval s t \<le> t + interval"
    unfolding next_tick_def distrib_right by linarith+
qed

text \<open>A \<open>Poll\<close> ends at the latest two attempts after its deadline.\<close>

lemma poll_bound:
  "poll interval timeout s t attempts = Some (ok, e) \<Longrightarrow> within D attempts \<Longrightarrow> t \<le> s + timeout + D \<Longrightarrow> 0 \<le> D \<Longrightarrow>
     e \<le> s + timeout + 2 * D"
proof (induction attempts arbitrary: t)
  case Nil
  then show ?case by simp
next
  case (Cons x xs)
  obtain d r where x: "x = (d, r)" by (cases x)
  with Cons.prems(2) have d: "0 \<le> d" "d \<le> D" "within D xs" by (simp_all add: within_def)
  show ?case
  proof (cases "next_tick interval s t < s + timeout")
    case True
    show ?thesis
    proof (cases r)
      case True
      with Cons.prems(1) x \<open>next_tick interval s t < s + timeout\<close> d Cons.prems(4) show ?thesis
        by (auto simp: Let_def)
    next
      case False
      with Cons.prems(1) x True have "poll interval timeout s (next_tick interval s t + d) xs = Some (ok, e)"
        by (simp add: Let_def)
      with Cons.IH d True Cons.prems(4) show ?thesis by simp
    qed
  next
    case False
    with Cons.prems x d show ?thesis by (auto simp: Let_def)
  qed
qed

text \<open>It does end: there are no more attempts than intervals in the timeout.\<close>

lemma poll_ends:
  assumes "0 < interval" and "within D attempts" and "attempts \<noteq> []"
    and "timeout \<le> ((t - s) div interval + int (length attempts)) * interval"
  shows "poll interval timeout s t attempts \<noteq> None"
  using assms(2-4)
proof (induction attempts arbitrary: t)
  case Nil
  then show ?case by simp
next
  case (Cons x xs)
  obtain d r where x: "x = (d, r)" by (cases x)
  with Cons.prems(1) have d: "0 \<le> d" "within D xs" by (simp_all add: within_def)
  let ?q = "(t - s) div interval" and ?k = "next_tick interval s t"
  show ?case
  proof (cases "?k < s + timeout \<and> \<not> r")
    case True
    then have k: "(?q + 1) * interval < timeout" by (simp add: next_tick_def)
    have len: "timeout \<le> (?q + 1 + int (length xs)) * interval"
      using Cons.prems(3) by (simp add: ac_simps)
    have ne: "xs \<noteq> []"
    proof
      assume "xs = []"
      with len k show False by simp
    qed
    have "?q + 1 = (?k - s) div interval" using assms(1) by (simp add: next_tick_def)
    also have "\<dots> \<le> (?k + d - s) div interval" using assms(1) d(1) by (intro zdiv_mono1) simp_all
    finally have "(?q + 1 + int (length xs)) * interval \<le> ((?k + d - s) div interval + int (length xs)) * interval"
      using assms(1) by (intro mult_right_mono) simp_all
    with len have "timeout \<le> ((?k + d - s) div interval + int (length xs)) * interval" by linarith
    from Cons.IH [OF d(2) ne this] show ?thesis using True x by (simp add: Let_def)
  next
    case False
    with x show ?thesis by (auto simp: Let_def)
  qed
qed

lemma renew_bound:
  "renew interval timeout s0 rounds = Some (s, e) \<Longrightarrow> \<forall>as \<in> set rounds. within D as \<Longrightarrow> 0 \<le> D \<Longrightarrow> 0 \<le> timeout \<Longrightarrow>
     e \<le> s + timeout + 2 * D"
proof (induction interval timeout s0 rounds rule: renew.induct)
  case (1 interval timeout s)
  then show ?case by simp
next
  case (2 interval timeout s0 attempts rounds)
  then obtain ok t where p: "poll interval timeout s0 s0 attempts = Some (ok, t)" by (auto split: option.splits)
  show ?case
  proof (cases ok)
    case True
    with 2 p show ?thesis by simp
  next
    case False
    with 2 p have "s = s0" "e = t" by simp_all
    with poll_bound [OF p, of D] 2 show ?thesis by simp
  qed
qed

section \<open>The program's durations\<close>

text \<open>A node acts as the leader: the attempt of its last acknowledged write began at \<open>b\<close>, took at most
  \<open>D\<close> as any other, and the renewal loop that followed has not given up.\<close>

definition acting :: "int \<Rightarrow> ('n, 's) timed \<Rightarrow> 'n \<Rightarrow> bool" where
  "acting D c n \<longleftrightarrow> (\<exists>b s0 rounds s e. td_won c n = Some b \<and> s \<le> b + D \<and> (\<forall>as \<in> set rounds. within D as) \<and>
     renew default_retry_period default_renew_deadline s0 rounds = Some (s, e) \<and> td_now c < e)"

lemma acting_holds_lease:
  assumes "acting D c n" and "0 \<le> D" and "3 * D \<le> 4 * second" and "en_lease E = default_lease_duration"
  shows "holds_lease E c n"
proof -
  obtain b s0 rounds s e where a: "td_won c n = Some b" "s \<le> b + D" "\<forall>as \<in> set rounds. within D as"
    "renew default_retry_period default_renew_deadline s0 rounds = Some (s, e)" "td_now c < e"
    using assms(1) unfolding acting_def by blast
  have "e \<le> s + default_renew_deadline + 2 * D"
    using renew_bound [OF a(4,3) assms(2)] by (simp add: default_renew_deadline_def second_def)
  with a(2,5) assms(3) have "td_now c < b + default_lease_duration - second"
    by (simp add: default_renew_deadline_def default_lease_duration_def)
  with a(1) assms(4) show ?thesis by (simp add: holds_lease_def)
qed

text \<open>C8: with the durations of the program there is one leader at a time, as long as no attempt, from
  its first reading of the clock to its return, takes longer than four thirds of a second: a leader
  that cannot renew gives up before another node may take the lease.\<close>

theorem one_acting_leader:
  assumes "env_ok E" and "en_lease E = default_lease_duration" and "timed_initial E c" and "timed_run E c d"
    and "0 \<le> D" and "3 * D \<le> 4 * second" and "acting D d m" and "acting D d n"
  shows "m = n"
  using timed_inv_lease [OF assms(1) timed_run_inv [OF assms(4,1) timed_inv_initial [OF assms(1,3)]]]
    acting_holds_lease [OF _ assms(5,6,2)] assms(7,8) by blast

text \<open>Node b, which took over at 12 seconds, leads; its attempts from then on fail.\<close>

lemma demo_acting: "acting second demo_taken False"
proof -
  let ?fail = "replicate 3 (second, False)"
  have "renew default_retry_period default_renew_deadline (13 * second) [?fail] = Some (13 * second, 19 * second)"
    by code_simp
  moreover have "td_won demo_taken False = Some (12 * second)" by code_simp
  moreover have "td_now demo_taken < 19 * second" by code_simp
  moreover have "within second ?fail" by (simp add: within_def second_def)
  ultimately show ?thesis
    unfolding acting_def
    by (intro exI [of _ "12 * second"] exI [of _ "13 * second"] exI [of _ "[?fail]"] exI [of _ "19 * second"]) simp
qed

lemma one_acting_leader_witness: "acting second demo_taken False \<and> \<not> acting second demo_taken True"
proof -
  have "en_lease demo_timed_env = default_lease_duration" by (simp add: demo_timed_env_def)
  from one_acting_leader [OF demo_timed_env_ok this demo_timed_initial demo_timed_run _ _ demo_acting, of True]
  show ?thesis using demo_acting by (auto simp: second_def)
qed

end
