(* ===== verification/Takeover.thy ===== *)
theory Takeover
  imports Serving Renewal
begin

text \<open>
  The way to the leadership: the loop of client-go's elector that tries to acquire the lease, with
  \<open>wait.JitterUntil\<close> between the attempts, and how long it takes to get a lease that is no longer renewed
  from a store that serves.
\<close>

section \<open>acquire\<close>

text \<open>One round of the loop: when the attempt reads the clock again, after the read and after the write of
  the lock, and when it returns, counted from its start; what others do to the store between the read
  and the write, and after the attempt; and how long the loop then waits.\<close>

record 's attempt =
  at_read :: int
  at_write :: int
  at_return :: int
  at_mid :: "'s \<Rightarrow> 's"
  at_rest :: "'s \<Rightarrow> 's"
  at_wait :: int

text \<open>\<open>Jitter\<close> adds to the period at most 1.2 times as much.\<close>

definition jittered :: "int \<Rightarrow> int \<Rightarrow> bool" where
  "jittered period wait \<longleftrightarrow> period \<le> wait \<and> 5 * wait \<le> 11 * period"

fun acquire ::
  "(election_record \<Rightarrow> string) \<Rightarrow> (string \<Rightarrow> election_record option) \<Rightarrow> 's kv_store \<Rightarrow> int \<Rightarrow>
   int \<Rightarrow> electing \<Rightarrow> 's \<Rightarrow> 's attempt list \<Rightarrow> (int \<times> electing \<times> 's) option" where
  "acquire enc dec kv lease t e s [] = None"
| "acquire enc dec kv lease t e s (a # as) =
     (case try_acquire enc dec kv lease t (t + at_read a) (t + at_write a) (at_mid a) e s of
        (succeeded, e', s') \<Rightarrow>
          (let e'' = snd (maybe_report e')
           in if succeeded then
                Some (t + at_return a, e''\<lparr>ev_lock := lock_record_event (ev_lock e'') ''became leader''\<rparr>, s')
              else acquire enc dec kv lease (t + at_return a + at_wait a) e'' (at_rest a s') as))"

section \<open>The lock on a store that serves\<close>

definition quiet :: "('s \<Rightarrow> bool) \<Rightarrow> ('s \<Rightarrow> tree) \<Rightarrow> string list \<Rightarrow> ('s \<Rightarrow> 's) \<Rightarrow> bool" where
  "quiet up tree path f \<longleftrightarrow> (\<forall>s. up s \<longrightarrow> up (f s) \<and> tree (f s) path = tree s path)"

text \<open>A lock over a record that is in the store and that nobody else writes.\<close>

definition lock_serves ::
  "'s kv_store \<Rightarrow> ('s \<Rightarrow> tree) \<Rightarrow> ('s \<Rightarrow> bool) \<Rightarrow> (string \<Rightarrow> election_record option) \<Rightarrow> election_record \<Rightarrow>
   etcd_lock \<Rightarrow> 's \<Rightarrow> bool" where
  "lock_serves kv tree up dec old l s \<longleftrightarrow>
     serving_etcd (kvs_api kv) tree up \<and> lock_setup kv tree l \<and> up s \<and>
     (\<exists>v i. tree s (lock_path kv l) = Some (File v i) \<and> dec v = Some old)"

lemma lock_get_serves:
  assumes "lock_serves kv tree up dec old l s"
  obtains l' s' p where "lock_get dec kv l s = (Inr old, l', s')" and "lock_serves kv tree up dec old l' s'"
    and "lock_path kv l' = lock_path kv l" and "el_identity l' = el_identity l" and "el_pair l' = Some p"
    and "tree s' (lock_path kv l) = Some (File (kv_value p) (kv_index p))" and "tree s' = tree s"
proof -
  from assms obtain v i where a: "serving_etcd (kvs_api kv) tree up" "lock_setup kv tree l" "up s"
    "tree s (lock_path kv l) = Some (File v i)" "dec v = Some old"
    unfolding lock_serves_def by blast
  note K = lock_key [OF a(2)]
  from serving_etcd.lk_get_serves [OF a(1) K(2) a(3), of v i] K(3) a(4) obtain p s' where
    g: "lk_get (kvs_api kv) s (get_store_key kv (el_item l) (el_key l)) = (Inr p, s')"
    "kv_value p = v" "kv_index p = i" "up s'" "tree s' = tree s" by auto
  have run: "lock_get dec kv l s = (Inr old, l\<lparr>el_pair := Some p\<rparr>, s')"
    using g(1,2) a(5) by (simp add: lock_get_def kv_read_obj_def)
  have l': "lock_setup kv tree (l\<lparr>el_pair := Some p\<rparr>)" "lock_path kv (l\<lparr>el_pair := Some p\<rparr>) = lock_path kv l"
    using lock_frame_setup [OF a(2), of "l\<lparr>el_pair := Some p\<rparr>"] by simp_all
  show thesis
    by (rule that [OF run _ l'(2)]) (use a g l' in \<open>auto simp: lock_serves_def\<close>)
qed

lemma lock_update_serves:
  assumes "lock_serves kv tree up dec old l s" and "el_pair l = Some p"
    and "tree s (lock_path kv l) = Some (File (kv_value p) (kv_index p))"
  obtains l' s' i where "lock_update enc kv l s r = (Inr (), l', s')"
    and "tree s' (lock_path kv l) = Some (File (enc r) i)"
proof -
  from assms(1) have a: "serving_etcd (kvs_api kv) tree up" "lock_setup kv tree l" "up s"
    unfolding lock_serves_def by blast+
  note K = lock_key [OF a(2)]
  have "tree s (keypath (get_store_key kv (el_item l) (el_key l))) = Some (File (kv_value p) (kv_index p))"
    using K(3) assms(3) by simp
  from serving_etcd.lk_atomic_put_serves [OF a(1) K(2) a(3) this, of "enc r" None] obtain q s' where
    w: "lk_atomic_put (kvs_api kv) s (get_store_key kv (el_item l) (el_key l)) (enc r) (Some p) None = (Inr q, s')"
    by blast
  then have run: "lock_update enc kv l s r = (Inr (), l\<lparr>el_pair := Some q\<rparr>, s')"
    using assms(2) by (simp add: lock_update_def lock_write_def kv_write_atomic_def)
  from run assms(2) have "lock_write enc kv (Some p) l s r = (Inr (), l\<lparr>el_pair := Some q\<rparr>, s')"
    by (simp add: lock_update_def)
  from lock_write_cases(2) [OF a(2) this refl] show thesis
    using that [OF run] by (auto simp: conditional_put_def dest: set_at_same)
qed

lemma lock_serves_quiet:
  "lock_serves kv tree up dec old l s \<Longrightarrow> quiet up tree (lock_path kv l) f \<Longrightarrow> lock_serves kv tree up dec old l (f s)"
  by (auto simp: lock_serves_def quiet_def)

section \<open>One attempt\<close>

text \<open>On such a store an attempt fails only because the lease of another node has not run out, and then
  it leaves everything as it was.\<close>

lemma try_acquire_serves:
  assumes "lock_serves kv tree up dec old (ev_lock e) s" and "quiet up tree (lock_path kv (ev_lock e)) mid"
    and "try_acquire enc dec kv lease now t1 t2 mid e s = (ok, e', s')"
  shows "ok \<longleftrightarrow> \<not> (now < ev_time (observe e old t1) + lease \<and> er_holder old \<noteq> el_identity (ev_lock e))"
    and "ok \<Longrightarrow> er_holder (ev_observed e') = el_identity (ev_lock e) \<and>
      (\<exists>i. tree s' (lock_path kv (ev_lock e)) = Some (File (enc (ev_observed e')) i))"
    and "\<not> ok \<Longrightarrow> lock_serves kv tree up dec old (ev_lock e') s' \<and> lock_path kv (ev_lock e') = lock_path kv (ev_lock e) \<and>
      el_identity (ev_lock e') = el_identity (ev_lock e) \<and> ev_observed e' = old \<and>
      ev_time e' = ev_time (observe e old t1)"
proof -
  let ?held = "now < ev_time (observe e old t1) + lease \<and> er_holder old \<noteq> el_identity (ev_lock e)"
  let ?r = "correct_record old (fresh_record (el_identity (ev_lock e)) lease now)"
  obtain l s1 p where g: "lock_get dec kv (ev_lock e) s = (Inr old, l, s1)"
    and l: "lock_serves kv tree up dec old l s1" "lock_path kv l = lock_path kv (ev_lock e)"
      "el_identity l = el_identity (ev_lock e)" "el_pair l = Some p"
      "tree s1 (lock_path kv (ev_lock e)) = Some (File (kv_value p) (kv_index p))"
    using lock_get_serves [OF assms(1)] by blast
  have up: "up s1" using l(1) by (simp add: lock_serves_def)
  have mid: "lock_serves kv tree up dec old l (mid s1)"
    "tree (mid s1) (lock_path kv l) = Some (File (kv_value p) (kv_index p))"
    using lock_serves_quiet [OF l(1)] assms(2) l(2,5) up by (simp_all add: quiet_def)
  obtain l2 s2 i where u: "lock_update enc kv l (mid s1) ?r = (Inr (), l2, s2)"
    "tree s2 (lock_path kv l) = Some (File (enc ?r) i)"
    using lock_update_serves [OF mid(1) l(4) mid(2), where enc = enc and r = ?r] by blast
  have run: "try_acquire enc dec kv lease now t1 t2 mid e s =
      (if ?held then (False, (observe e old t1)\<lparr>ev_lock := l\<rparr>, s1)
       else (True, (observe e old t1)\<lparr>ev_lock := l2, ev_observed := ?r, ev_time := t2\<rparr>, s2))"
    using g u(1) by (simp add: try_acquire_def Let_def lock_identity_def)
  then show "ok \<longleftrightarrow> \<not> ?held" using assms(3) by (simp split: if_splits)
  show "er_holder (ev_observed e') = el_identity (ev_lock e) \<and>
      (\<exists>i. tree s' (lock_path kv (ev_lock e)) = Some (File (enc (ev_observed e')) i))" if ok
    using run assms(3) that u(2) l(2) by (auto simp: correct_record_def fresh_record_def split: if_splits)
  show "lock_serves kv tree up dec old (ev_lock e') s' \<and> lock_path kv (ev_lock e') = lock_path kv (ev_lock e) \<and>
      el_identity (ev_lock e') = el_identity (ev_lock e) \<and> ev_observed e' = old \<and>
      ev_time e' = ev_time (observe e old t1)" if "\<not> ok"
    using run assms(3) that l(1-3) by (auto split: if_splits)
qed

section \<open>The loop\<close>

text \<open>An attempt takes at most \<open>D\<close>, others leave the record alone, and the wait is a jittered period.\<close>

definition attempt_ok ::
  "('s \<Rightarrow> bool) \<Rightarrow> ('s \<Rightarrow> tree) \<Rightarrow> string list \<Rightarrow> int \<Rightarrow> int \<Rightarrow> 's attempt \<Rightarrow> bool" where
  "attempt_ok up tree path D period a \<longleftrightarrow>
     0 \<le> at_read a \<and> at_read a \<le> at_return a \<and> at_return a \<le> D \<and> jittered period (at_wait a) \<and>
     quiet up tree path (at_mid a) \<and> quiet up tree path (at_rest a)"

text \<open>What the loop ends with: the time, the node as the holder, and its record in the store.\<close>

definition leads_by ::
  "(election_record \<Rightarrow> string) \<Rightarrow> ('s \<Rightarrow> tree) \<Rightarrow> string list \<Rightarrow> string \<Rightarrow> int \<Rightarrow> (int \<times> electing \<times> 's) option \<Rightarrow> bool" where
  "leads_by enc tree path node limit res \<longleftrightarrow>
     (\<exists>t e s i. res = Some (t, e, s) \<and> t \<le> limit \<and> er_holder (ev_observed e) = node \<and>
        tree s path = Some (File (enc (ev_observed e)) i))"

lemma leads_by_mono: "leads_by enc tree path node limit res \<Longrightarrow> limit \<le> limit' \<Longrightarrow> leads_by enc tree path node limit' res"
  unfolding leads_by_def using order_trans by blast

lemma maybe_report_frame [simp, frame_simps]:
  "ev_lock (snd (maybe_report e)) = ev_lock e" "ev_observed (snd (maybe_report e)) = ev_observed e"
  "ev_time (snd (maybe_report e)) = ev_time e"
  by (simp_all add: maybe_report_def)

text \<open>One round: the loop ends, or it goes on with the record observed.\<close>

lemma acquire_round:
  assumes "lock_serves kv tree up dec old (ev_lock e) s" and "attempt_ok up tree (lock_path kv (ev_lock e)) D period a"
  obtains (ends) "leads_by enc tree (lock_path kv (ev_lock e)) (el_identity (ev_lock e)) (t + D)
      (acquire enc dec kv lease t e s (a # as))"
  | (goes_on) e' s' where "t < ev_time (observe e old (t + at_read a)) + lease"
    and "lock_serves kv tree up dec old (ev_lock e') s'" and "lock_path kv (ev_lock e') = lock_path kv (ev_lock e)"
    and "el_identity (ev_lock e') = el_identity (ev_lock e)" and "ev_observed e' = old"
    and "ev_time e' = ev_time (observe e old (t + at_read a))"
    and "acquire enc dec kv lease t e s (a # as) = acquire enc dec kv lease (t + at_return a + at_wait a) e' s' as"
proof -
  obtain ok e1 s1 where run: "try_acquire enc dec kv lease t (t + at_read a) (t + at_write a) (at_mid a) e s = (ok, e1, s1)"
    by (metis prod.collapse)
  from assms(2) have q: "quiet up tree (lock_path kv (ev_lock e)) (at_mid a)" "at_return a \<le> D"
    "quiet up tree (lock_path kv (ev_lock e)) (at_rest a)"
    by (simp_all add: attempt_ok_def)
  note A = try_acquire_serves [OF assms(1) q(1) run]
  show thesis
  proof (cases ok)
    case True
    with A(2) run q(2) show thesis by (intro ends) (auto simp: leads_by_def)
  next
    case False
    note f = A(3) [OF False]
    have "lock_serves kv tree up dec old (ev_lock e1) (at_rest a s1)"
      using lock_serves_quiet f q(3) by metis
    with f A(1) False run show thesis
      by (intro goes_on [of "snd (maybe_report e1)" "at_rest a s1"]) simp_all
  qed
qed

lemma acquire_watching:
  assumes "lock_serves kv tree up dec old (ev_lock e) s" and "ev_observed e = old" and "ev_time e \<le> T"
    and "\<forall>a \<in> set as. attempt_ok up tree (lock_path kv (ev_lock e)) D period a" and "as \<noteq> []" and "0 < period"
    and "T + lease \<le> t + (int (length as) - 1) * period" and "5 * t \<le> 5 * (T + lease + D) + 11 * period"
    and "5 * limit = 5 * (T + lease + 2 * D) + 11 * period"
  shows "leads_by enc tree (lock_path kv (ev_lock e)) (el_identity (ev_lock e)) limit (acquire enc dec kv lease t e s as)"
  using assms(1-5,7,8)
proof (induction as arbitrary: t e s)
  case Nil
  then show ?case by simp
next
  case (Cons a as)
  from Cons.prems(4) have ok: "attempt_ok up tree (lock_path kv (ev_lock e)) D period a" by simp
  then have d: "0 \<le> at_return a" "at_return a \<le> D" "period \<le> at_wait a" "5 * at_wait a \<le> 11 * period"
    by (simp_all add: attempt_ok_def jittered_def)
  have obs: "observe e old (t + at_read a) = e" using Cons.prems(2) by (simp add: observe_def)
  show ?case
  proof (cases rule: acquire_round [OF Cons.prems(1) ok, where enc = enc and t = t and lease = lease and as = as,
        case_names ends goes_on])
    case ends
    then show ?thesis using Cons.prems(7) assms(9) by (elim leads_by_mono) simp
  next
    case (goes_on e' s')
    let ?t = "t + at_return a + at_wait a"
    from goes_on(1) obs Cons.prems(3) have t: "t < T + lease" by simp
    have len: "T + lease \<le> t + int (length as) * period" using Cons.prems(6) by simp
    with t have "as \<noteq> []" by auto
    moreover have "T + lease \<le> ?t + (int (length as) - 1) * period"
      using len d(1,3) by (simp add: left_diff_distrib)
    moreover have "5 * ?t \<le> 5 * (T + lease + D) + 11 * period" using t d by (simp add: distrib_left)
    ultimately show ?thesis
      using Cons.IH [OF goes_on(2,5), of ?t] goes_on(3,4,6,7) obs Cons.prems(3,4) by simp
  qed
qed

lemma acquire_ends:
  assumes "lock_serves kv tree up dec old (ev_lock e) s" and "ev_time e \<le> t"
    and "\<forall>a \<in> set as. attempt_ok up tree (lock_path kv (ev_lock e)) D period a" and "0 < period"
    and "0 < lease" and "lease + D \<le> (int (length as) - 1) * period" and "0 \<le> D"
    and "5 * limit = 5 * (t + lease + 3 * D) + 11 * period"
  shows "leads_by enc tree (lock_path kv (ev_lock e)) (el_identity (ev_lock e)) limit (acquire enc dec kv lease t e s as)"
proof (cases as)
  case Nil
  with assms(4-7) show ?thesis by simp
next
  case (Cons a as')
  with assms(3) have ok: "attempt_ok up tree (lock_path kv (ev_lock e)) D period a" by simp
  then have d: "0 \<le> at_read a" "at_read a \<le> D" "0 \<le> at_return a" "at_return a \<le> D"
    "period \<le> at_wait a" "5 * at_wait a \<le> 11 * period"
    by (simp_all add: attempt_ok_def jittered_def)
  have obs: "ev_time (observe e old (t + at_read a)) \<le> t + D" using assms(2,7) d(1,2) by (simp add: observe_def)
  show ?thesis unfolding Cons
  proof (cases rule: acquire_round [OF assms(1) ok, where enc = enc and t = t and lease = lease and as = as',
        case_names ends goes_on])
    case ends
    then show "leads_by enc tree (lock_path kv (ev_lock e)) (el_identity (ev_lock e)) limit
        (acquire enc dec kv lease t e s (a # as'))"
      using assms(4,5,7,8) by (elim leads_by_mono) simp
  next
    case (goes_on e' s')
    let ?t = "t + at_return a + at_wait a"
    have len: "lease + D \<le> int (length as') * period" using assms(6) Cons by simp
    with assms(5,7) have ne: "as' \<noteq> []" by auto
    have enough: "t + D + lease \<le> ?t + (int (length as') - 1) * period"
      using len d(3,5) by (simp add: left_diff_distrib)
    have early: "5 * ?t \<le> 5 * (t + D + lease + D) + 11 * period"
      using d assms(5,7) by (simp add: distrib_left)
    have oks: "\<forall>a \<in> set as'. attempt_ok up tree (lock_path kv (ev_lock e')) D period a"
      using assms(3) Cons goes_on(3) by simp
    have e': "ev_time e' \<le> t + D" using obs goes_on(6) by simp
    have lim: "5 * limit = 5 * (t + D + lease + 2 * D) + 11 * period" using assms(8) by simp
    from acquire_watching [OF goes_on(2,5) e' oks ne assms(4) enough early lim, where enc = enc] goes_on(3,4,7)
    show "leads_by enc tree (lock_path kv (ev_lock e)) (el_identity (ev_lock e)) limit
        (acquire enc dec kv lease t e s (a # as'))" by simp
  qed
qed

text \<open>C9: a lease that is not renewed is taken over in time.  When the record of a former leader stays in a
  store that serves and no other node writes it, the loop that tries to acquire the lease ends with
  this node as the holder, its record in the store, at the latest when the lease has run out, three
  attempts and one jittered retry period (4.4 seconds) have passed since the loop began; seven
  attempts are enough when they take at most a second each.\<close>

theorem takeover_in_time:
  assumes "lock_serves kv tree up dec old (ev_lock e) s" and "ev_time e \<le> t" and "0 \<le> D"
    and "\<forall>a \<in> set as. attempt_ok up tree (lock_path kv (ev_lock e)) D default_retry_period a"
    and "default_lease_duration + D \<le> (int (length as) - 1) * default_retry_period"
  shows "\<exists>t' e' s' i. acquire enc dec kv default_lease_duration t e s as = Some (t', e', s') \<and>
    t' \<le> t + default_lease_duration + 3 * D + 44 * second div 10 \<and>
    er_holder (ev_observed e') = el_identity (ev_lock e) \<and>
    tree s' (lock_path kv (ev_lock e)) = Some (File (enc (ev_observed e')) i)"
  using acquire_ends [OF assms(1,2,4) _ _ assms(5,3), where enc = enc
      and limit = "t + default_lease_duration + 3 * D + 44 * second div 10"]
  unfolding leads_by_def by (simp add: default_lease_duration_def default_retry_period_def second_def)

text \<open>Node a stopped; node b starts 20 seconds later, and needs a second for an attempt.\<close>

definition demo_attempt :: "mem attempt" where
  "demo_attempt = \<lparr>at_read = 0, at_write = second, at_return = second, at_mid = (\<lambda>s. s), at_rest = (\<lambda>s. s),
     at_wait = 3 * second\<rparr>"

definition demo_newcomer :: electing where
  "demo_newcomer = \<lparr>ev_lock = lock_new ''prod'' ''leader'' ''b'', ev_observed = zero_record, ev_time = 0,
     ev_reported = []\<rparr>"

lemma demo_serves: "lock_serves demo_kv mem_view mem_up (Some \<circ> held_by) (held_by ''a'') (ev_lock demo_newcomer) (ec_store demo_read)"
proof -
  have "mem_up (ec_store demo_read)" by (rule mem_upI) code_simp+
  then show ?thesis
    using demo_try_setup(2) [of "''b''"] demo_lock_setup mem_serving.serving_etcd_axioms
    by (simp add: lock_serves_def demo_newcomer_def demo_elector_def demo_kv_def)
qed

lemma takeover_in_time_witness:
  "\<exists>t' e' s'. acquire er_holder (Some \<circ> held_by) demo_kv default_lease_duration (20 * second) demo_newcomer
       (ec_store demo_read) (replicate 7 demo_attempt) = Some (t', e', s') \<and>
     t' \<le> 38 * second \<and> er_holder (ev_observed e') = ''b''"
proof -
  have a: "\<forall>a \<in> set (replicate 7 demo_attempt). attempt_ok mem_up mem_view
      (lock_path demo_kv (ev_lock demo_newcomer)) second default_retry_period a"
    by (simp add: attempt_ok_def demo_attempt_def quiet_def jittered_def second_def default_retry_period_def)
  from takeover_in_time [OF demo_serves _ _ a, of "20 * second", where enc = er_holder]
  show ?thesis
    by (auto simp: demo_newcomer_def lock_new_def second_def default_lease_duration_def default_retry_period_def)
qed

end
