(* ===== verification/Filesync.thy ===== *)
theory Filesync
  imports Nginx Lvs
begin

text \<open>
  What an event leaves on disk.  The locale \<open>file_node\<close> is the contract of an implementation of \<open>ILB\<close>
  that keeps one file per service: LVS on a node that does not lead, and nginx when all its services
  are of one kind.  Its lemmas say that after every event the files are those of the table.
\<close>

section \<open>The contract\<close>

definition key_name :: "string \<Rightarrow> string" where
  "key_name k = last (split_on CHR ''/'' k)"

definition plain :: "string \<Rightarrow> bool" where
  "plain n \<longleftrightarrow> CHR ''/'' \<notin> set n"

lemma plain_key_name [simp]: "plain (key_name k)"
  using split_on_pieces [OF last_in_set [OF split_on_nonempty]] by (simp add: plain_def key_name_def)

text \<open>\<open>body\<close> is what is written for a service, if anything, \<open>files\<close> the files by the name of the service,
  and \<open>fine\<close> the services the contract is about.\<close>

definition put_file :: "('lb \<Rightarrow> string) \<Rightarrow> ('lb \<Rightarrow> string option) \<Rightarrow> 'lb \<Rightarrow> (string \<Rightarrow> string option) \<Rightarrow> string \<Rightarrow> string option"
  where "put_file name body lb F = (case body lb of None \<Rightarrow> F | Some t \<Rightarrow> F(name lb \<mapsto> t))"

locale file_node =
  fixes i :: "('lb, 'e) ilb" and ldr :: bool and good :: "'e \<Rightarrow> bool" and fine :: "'lb \<Rightarrow> bool"
    and body :: "'lb \<Rightarrow> string option" and files :: "'e \<Rightarrow> string \<Rightarrow> string option"
  assumes config_files: "good e \<Longrightarrow> fine lb \<Longrightarrow> plain (ilb_name i lb) \<Longrightarrow>
      \<exists>r e'. ilb_config i ldr e lb = Some (r, lb, e') \<and> good e' \<and>
        files e' = put_file (ilb_name i) body lb (files e)"
    and delete_files: "good e \<Longrightarrow> plain n \<Longrightarrow> ilb_delete i ldr e n = (r, e') \<Longrightarrow>
      good e' \<and> files e' = (files e)(n := None)"
    and reload_files: "good e \<Longrightarrow> good (ilb_reload i e) \<and> files (ilb_reload i e) = files e"

text \<open>Every service of the table has its file, under the last part of its key.\<close>

definition files_agree ::
  "('lb, 'e) ilb \<Rightarrow> ('lb \<Rightarrow> string option) \<Rightarrow> ('e \<Rightarrow> string \<Rightarrow> string option) \<Rightarrow> ('lb, 'e) lb_base \<Rightarrow> bool" where
  "files_agree i body files b \<longleftrightarrow>
     (\<forall>k lb. elem_view b k = Some lb \<longrightarrow> ilb_name i lb = key_name k \<and>
        (\<forall>t. body lb = Some t \<longrightarrow> files (b_env b) (key_name k) = Some t))"

definition files_post ::
  "('lb, 'e) ilb \<Rightarrow> ('lb \<Rightarrow> string option) \<Rightarrow> ('e \<Rightarrow> string \<Rightarrow> string option) \<Rightarrow> kvpair list \<Rightarrow>
   ('lb, 'e) lb_base \<Rightarrow> ('lb, 'e) lb_base \<Rightarrow> bool" where
  "files_post i body files li b b' \<longleftrightarrow>
     files_agree i body files b' \<and>
     (\<forall>k \<in> dom (elem_view b) - list_keys li. files (b_env b') (key_name k) = None) \<and>
     (\<forall>n. n \<notin> key_name ` (list_keys li \<union> dom (elem_view b)) \<longrightarrow> files (b_env b') n = files (b_env b) n)"

lemma put_all_other:
  "\<forall>lb \<in> set lbs. name lb \<noteq> n \<Longrightarrow> foldl (\<lambda>F lb. put_file name body lb F) F lbs n = F n"
  by (induction lbs arbitrary: F) (auto simp: put_file_def split: option.splits)

lemma put_all_mem:
  assumes "distinct (map name lbs)" and "lb \<in> set lbs" and "body lb = Some t"
  shows "foldl (\<lambda>F lb. put_file name body lb F) F lbs (name lb) = Some t"
  using assms
proof (induction lbs arbitrary: F)
  case Nil
  then show ?case by simp
next
  case (Cons a lbs)
  show ?case
  proof (cases "lb = a")
    case True
    with Cons.prems(1) have "\<forall>b \<in> set lbs. name b \<noteq> name lb" by (simp add: image_iff) metis
    from put_all_other [OF this, of body] Cons.prems(3) True show ?thesis by (simp add: put_file_def)
  next
    case False
    with Cons show ?thesis by simp
  qed
qed

context file_node
begin

lemma spec_config_files:
  assumes "good e" and "\<forall>x \<in> set xs. fine (snd x) \<and> plain (ilb_name i (snd x))"
  shows "\<exists>n e'. spec_config i ldr xs need e = Some (n, xs, e') \<and> good e' \<and>
    files e' = foldl (\<lambda>F lb. put_file (ilb_name i) body lb F) (files e) (map snd xs)"
  using assms
proof (induction xs arbitrary: need e)
  case Nil
  then show ?case by simp
next
  case (Cons x xs)
  obtain k lb where x: "x = (k, lb)" by (cases x)
  with Cons.prems config_files [of e lb] obtain r e1 where c: "ilb_config i ldr e lb = Some (r, lb, e1)" "good e1"
    "files e1 = put_file (ilb_name i) body lb (files e)" by auto
  from Cons.IH [OF c(2), of "need \<or> r"] Cons.prems(2) obtain n e2
    where "spec_config i ldr xs (need \<or> r) e1 = Some (n, xs, e2)" "good e2"
      "files e2 = foldl (\<lambda>F lb. put_file (ilb_name i) body lb F) (files e1) (map snd xs)" by auto
  with c x show ?case by simp
qed

lemma delete_all_files:
  "good e \<Longrightarrow> \<forall>n \<in> set ns. plain n \<Longrightarrow> delete_all i ldr ns need e = (r, e') \<Longrightarrow>
     good e' \<and> files e' = (\<lambda>n. if n \<in> set ns then None else files e n)"
proof (induction ns arbitrary: need e)
  case Nil
  then show ?case by simp
next
  case (Cons n ns)
  obtain q e1 where d: "ilb_delete i ldr e n = (q, e1)" by fastforce
  from delete_files [OF Cons.prems(1) _ d] Cons.prems(2) have e1: "good e1" "files e1 = (files e)(n := None)" by simp_all
  from Cons.IH [OF e1(1), of "need \<or> q"] Cons.prems(2,3) d
  have "good e'" "files e' = (\<lambda>m. if m \<in> set ns then None else files e1 m)" by simp_all
  with e1(2) show ?case by (auto simp: fun_eq_iff)
qed

lemma event_files:
  assumes ok: "base_ok b" "distinct (map kv_key li)" "is_range_order ord" and ldr: "b_leader b = ldr"
    and good: "good (b_env b)" and agree: "files_agree i body files b"
    and names: "inj_on key_name (list_keys li \<union> dom (elem_view b))"
    and fine: "\<forall>it \<in> set li. \<forall>lb. accepted i (b_cluster b) (b_env b) it = Some lb \<longrightarrow> fine lb"
  shows "\<exists>b'. handler_event ord i li b = Some b' \<and> good (b_env b') \<and> base_ok b' \<and> b_leader b' = b_leader b \<and>
    b_cluster b' = b_cluster b \<and> files_post i body files li b b' \<and>
    elem_view b' = (elem_view b ++ map_of (to_config i (b_cluster b) (b_env b) (elem_view b) li)) |` list_keys li"
proof -
  let ?V = "elem_view b"
  let ?xs = "to_config i (b_cluster b) (b_env b) ?V li"
  have xs: "fine lb \<and> ilb_name i lb = key_name k \<and> k \<in> list_keys li" if "(k, lb) \<in> set ?xs" for k lb
    using that fine accepted_name [of i "b_cluster b" "b_env b"]
    by (auto simp: to_config_mem list_keys_def key_name_def)
  then have "\<forall>x \<in> set ?xs. fine (snd x) \<and> plain (ilb_name i (snd x))" by auto
  from spec_config_files [OF good this] obtain n e1 where sc:
    "spec_config i ldr ?xs False (b_env b) = Some (n, ?xs, e1)" "good e1"
    "files e1 = foldl (\<lambda>F lb. put_file (ilb_name i) body lb F) (files (b_env b)) (map snd ?xs)" by blast
  obtain ks where ks: "set ks = dom ?V - list_keys li"
    "map_option (\<lambda>b'. (elem_view b', b_env b')) (handler_event ord i li b)
      = sync i li (b_leader b) (b_cluster b) ks ?V (b_env b)"
    "\<forall>b'. handler_event ord i li b = Some b' \<longrightarrow> base_ok b' \<and> b_leader b' = b_leader b \<and> b_cluster b' = b_cluster b"
    using handler_event_cases [OF ok] by blast
  let ?ns = "map (\<lambda>k. ilb_name i (the (?V k))) ks"
  have ns: "set ?ns = key_name ` (dom ?V - list_keys li)"
    unfolding set_map ks(1) by (rule image_cong) (use agree in \<open>auto simp: files_agree_def\<close>)
  obtain n2 e2 where del: "delete_all i ldr ?ns False e1 = (n2, e2)" by fastforce
  have "\<forall>m \<in> set ?ns. plain m" unfolding ns by auto
  from delete_all_files [OF sc(2) this del]
  have e2: "good e2" "files e2 = (\<lambda>m. if m \<in> set ?ns then None else files e1 m)" by simp_all
  define e3 where "e3 = (if n \<or> n2 then ilb_reload i e2 else e2)"
  have e3: "good e3" "files e3 = files e2" using reload_files [OF e2(1)] e2(1) by (simp_all add: e3_def)
  have "sync i li (b_leader b) (b_cluster b) ks ?V (b_env b) = Some ((?V ++ map_of ?xs) |` list_keys li, e3)"
    unfolding sync_def ldr using sc(1) del by (simp add: e3_def)
  with ks(2) have "map_option (\<lambda>b'. (elem_view b', b_env b')) (handler_event ord i li b)
      = Some ((?V ++ map_of ?xs) |` list_keys li, e3)" by (simp only:)
  then obtain b' where b': "handler_event ord i li b = Some b'"
    "elem_view b' = (?V ++ map_of ?xs) |` list_keys li" "b_env b' = e3"
    unfolding map_option_eq_Some prod.inject by blast
  have keep: "files e3 (key_name k) = files e1 (key_name k)" if "k \<in> list_keys li" for k
  proof -
    have "key_name k \<notin> set ?ns"
      unfolding ns using that names by (auto simp: inj_on_def)
    then show ?thesis by (simp add: e3(2) e2(2))
  qed
  have xs_names: "distinct (map (ilb_name i) (map snd ?xs))"
  proof -
    have "map (ilb_name i) (map snd ?xs) = map key_name (map fst ?xs)" using xs by auto
    moreover have "inj_on key_name (set (map fst ?xs))"
      by (rule inj_on_subset [OF names]) (use xs in force)
    moreover have "distinct (map fst ?xs)" by (rule to_config_distinct [OF ok(2)])
    ultimately show ?thesis by (simp only: distinct_map)
  qed
  have other: "files e1 m = files (b_env b) m" if "m \<notin> key_name ` fst ` set ?xs" for m
    unfolding sc(3) by (rule put_all_other) (use that xs in force)
  have "files_agree i body files b'"
    unfolding files_agree_def b'(3)
  proof (intro allI impI conjI)
    fix k lb t
    assume v: "elem_view b' k = Some lb"
    then have k: "k \<in> list_keys li" by (auto simp: b'(2) restrict_map_def split: if_splits)
    with v have "(?V ++ map_of ?xs) k = Some lb" by (simp add: b'(2))
    then consider (new) "(k, lb) \<in> set ?xs" | (old) "?V k = Some lb" "map_of ?xs k = None"
      unfolding map_add_Some_iff by (auto dest: map_of_SomeD)
    then have "ilb_name i lb = key_name k \<and> (body lb = Some t \<longrightarrow> files e3 (key_name k) = Some t)" for t
    proof cases
      case new
      with xs have nm: "ilb_name i lb = key_name k" by blast
      from new have "lb \<in> set (map snd ?xs)" by force
      from put_all_mem [OF xs_names this] nm keep [OF k] show ?thesis by (simp add: sc(3))
    next
      case old
      have "key_name k \<notin> key_name ` fst ` set ?xs"
      proof
        assume "key_name k \<in> key_name ` fst ` set ?xs"
        then obtain k' lb' where k': "(k', lb') \<in> set ?xs" "key_name k' = key_name k" by force
        with names k xs have "k' = k" by (auto simp: inj_on_def)
        with k'(1) old(2) show False by (simp add: map_of_eq_None_iff image_iff) force
      qed
      with agree old(1) keep [OF k] other show ?thesis by (simp add: files_agree_def)
    qed
    then show "ilb_name i lb = key_name k" "body lb = Some t \<Longrightarrow> files e3 (key_name k) = Some t" by blast+
  qed
  moreover have "\<forall>k \<in> dom ?V - list_keys li. files e3 (key_name k) = None"
    using ns by (auto simp: e3(2) e2(2))
  moreover have "files e3 m = files (b_env b) m" if "m \<notin> key_name ` (list_keys li \<union> dom ?V)" for m
  proof -
    from that have "m \<notin> set ?ns" unfolding ns by blast
    moreover have "m \<notin> key_name ` fst ` set ?xs" using that xs by force
    ultimately show ?thesis using other by (simp add: e3(2) e2(2))
  qed
  ultimately have "files_post i body files li b b'" unfolding files_post_def b'(3) by blast
  then show ?thesis using b' e3(1) ks(3) by blast
qed

end

section \<open>A directory of configuration files\<close>

definition dir_ok :: "os \<Rightarrow> string \<Rightarrow> bool" where
  "dir_ok w d \<longleftrightarrow>
     clean_dir d \<and> os_fs w d = Some Folder \<and> \<not> os_denied w d \<and>
     (\<forall>n. plain n \<longrightarrow> \<not> os_denied w (config_file_path d n) \<and>
        (\<forall>nd. os_fs w (config_file_path d n) = Some nd \<longrightarrow> (\<exists>c. nd = Regular c)))"

definition dir_files :: "os \<Rightarrow> string \<Rightarrow> string \<Rightarrow> string option" where
  "dir_files w d n =
     (if plain n then (case os_fs w (config_file_path d n) of Some (Regular c) \<Rightarrow> Some c | _ \<Rightarrow> None) else None)"

lemma config_path:
  assumes "clean_dir d" and "plain n"
  shows "config_file_path d n = d @ CHR ''/'' # n @ ''.conf''" and "parent_path (config_file_path d n) = d"
    and "config_file_path d n \<noteq> d"
proof -
  show p: "config_file_path d n = d @ CHR ''/'' # n @ ''.conf''"
    using config_file_path_plain [OF assms(1)] assms(2) by (simp add: plain_def)
  have "\<forall>c \<in> set (rev (n @ ''.conf'')). c \<noteq> CHR ''/''" using assms(2) by (auto simp: plain_def)
  then have "dropWhile (\<lambda>c. c \<noteq> CHR ''/'') (rev (n @ ''.conf'') @ CHR ''/'' # rev d) = CHR ''/'' # rev d"
    by (subst dropWhile_append2) auto
  moreover have "rev (d @ CHR ''/'' # n @ ''.conf'') = rev (n @ ''.conf'') @ CHR ''/'' # rev d" by simp
  ultimately show "parent_path (config_file_path d n) = d" unfolding p parent_path_def by (simp only:) simp
  show "config_file_path d n \<noteq> d" unfolding p by simp
qed

lemma config_path_eq:
  assumes "clean_dir d" and "clean_dir d'" and "plain n" and "plain m"
  shows "config_file_path d n = config_file_path d' m \<longleftrightarrow> d = d' \<and> n = m"
proof
  assume eq: "config_file_path d n = config_file_path d' m"
  then have "d = d'" using config_path(2) [OF assms(1,3)] config_path(2) [OF assms(2,4)] by simp
  then show "d = d' \<and> n = m"
    using eq config_path(1) [OF assms(1,3)] config_path(1) [OF assms(2,4)] by simp
qed simp

text \<open>Writing and removing one file of the directory.\<close>

lemma dir_put:
  assumes "dir_ok w d" and "plain n" and "w' = w\<lparr>os_fs := (os_fs w)(config_file_path d n := nd)\<rparr>"
    and "nd = None \<or> nd = Some (Regular c)"
  shows "dir_ok w' d" and "dir_files w' d = (dir_files w d)(n := (if nd = None then None else Some c))"
proof -
  have d: "clean_dir d" using assms(1) by (simp add: dir_ok_def)
  note eq = config_path_eq [OF d d]
  have ne: "config_file_path d n \<noteq> d" by (rule config_path(3) [OF d assms(2)])
  show "dir_ok w' d" using assms ne by (auto simp: dir_ok_def)
  show "dir_files w' d = (dir_files w d)(n := (if nd = None then None else Some c))"
  proof
    fix m
    show "dir_files w' d m = ((dir_files w d)(n := (if nd = None then None else Some c))) m"
      using assms(2-4) eq [of m n] by (auto simp: dir_files_def)
  qed
qed

lemma dir_node:
  assumes "dir_ok w d" and "plain n"
  shows "os_fs w (config_file_path d n) = None \<or> (\<exists>c. os_fs w (config_file_path d n) = Some (Regular c))"
    and "\<not> os_denied w (config_file_path d n)"
proof -
  show "os_fs w (config_file_path d n) = None \<or> (\<exists>c. os_fs w (config_file_path d n) = Some (Regular c))"
    using assms by (cases "os_fs w (config_file_path d n)") (auto simp: dir_ok_def)
  show "\<not> os_denied w (config_file_path d n)" using assms by (simp add: dir_ok_def)
qed

lemma render_dir:
  assumes "dir_ok w d" and "plain n" and "lb_render w (config_file_path d n) c = (r, w')"
  shows "dir_ok w' d" and "dir_files w' d = (dir_files w d)(n \<mapsto> c)"
    and "p \<noteq> config_file_path d n \<Longrightarrow> os_fs w' p = os_fs w p"
proof -
  let ?p = "config_file_path d n"
  have d: "clean_dir d" "os_fs w d = Some Folder" "\<not> os_denied w d" using assms(1) by (simp_all add: dir_ok_def)
  note par = config_path(2) [OF d(1) assms(2)]
  have w': "w' = w\<lparr>os_fs := (os_fs w)(?p := Some (Regular c))\<rparr>"
    using dir_node(1) [OF assms(1,2)]
  proof
    assume "os_fs w ?p = None"
    with assms(3) d(2,3) dir_node(2) [OF assms(1,2)] show ?thesis
      by (auto simp: lb_render_def os_read_file_def write_content_def os_write_file_def max_links_def eval_nat_numeral par)
  next
    assume "\<exists>b. os_fs w ?p = Some (Regular b)"
    then obtain b where b: "os_fs w ?p = Some (Regular b)" ..
    show ?thesis
    proof (cases "b = c")
      case True
      with assms(3) b dir_node(2) [OF assms(1,2)] have "w' = w"
        by (auto simp: lb_render_def os_read_file_def max_links_def eval_nat_numeral)
      with b True show ?thesis by (simp add: fun_upd_idem)
    next
      case False
      with assms(3) b dir_node(2) [OF assms(1,2)] show ?thesis
        by (auto simp: lb_render_def os_read_file_def write_content_def os_write_file_def max_links_def eval_nat_numeral)
    qed
  qed
  from dir_put [OF assms(1,2) w'] show "dir_ok w' d" "dir_files w' d = (dir_files w d)(n \<mapsto> c)" by simp_all
  show "p \<noteq> ?p \<Longrightarrow> os_fs w' p = os_fs w p" by (simp add: w')
qed

lemma delete_dir:
  assumes "dir_ok w d" and "plain n" and "delete_file w (config_file_path d n) = (r, w')"
  shows "dir_ok w' d" and "dir_files w' d = (dir_files w d)(n := None)"
    and "p \<noteq> config_file_path d n \<Longrightarrow> os_fs w' p = os_fs w p"
proof -
  let ?p = "config_file_path d n"
  have w': "w' = w\<lparr>os_fs := (os_fs w)(?p := None)\<rparr>"
    using dir_node(1) [OF assms(1,2)]
  proof
    assume none: "os_fs w ?p = None"
    then have "os_stat w ?p \<noteq> None" using stat_ok_denied by blast
    with assms(3) none show ?thesis by (auto simp: delete_file_eq fun_upd_idem)
  next
    assume "\<exists>b. os_fs w ?p = Some (Regular b)"
    then show ?thesis
      using assms(3) stat_regular dir_node(2) [OF assms(1,2)] by (auto simp: delete_file_eq)
  qed
  from dir_put [OF assms(1,2) w'] show "dir_ok w' d" "dir_files w' d = (dir_files w d)(n := None)" by simp_all
  show "p \<noteq> ?p \<Longrightarrow> os_fs w' p = os_fs w p" by (simp add: w')
qed

section \<open>LVS on a node that does not lead\<close>

definition lvs_dir :: "'s lvs_ctx \<Rightarrow> string" where
  "lvs_dir x = lvs_config_path (vx_conf x)"

definition lvs_body :: "'s lvs_ctx \<Rightarrow> lvs \<Rightarrow> string option" where
  "lvs_body x l = (if lvs_check_valid l then Some (lvs_tmpl (lvs_inner_of x l)) else None)"

definition lvs_files :: "'s lvs_ctx \<Rightarrow> 's lvs_env \<Rightarrow> string \<Rightarrow> string option" where
  "lvs_files x e = dir_files (ve_os e) (lvs_dir x)"

definition lvs_dir_ok :: "'s lvs_ctx \<Rightarrow> 's lvs_env \<Rightarrow> bool" where
  "lvs_dir_ok x e = dir_ok (ve_os e) (lvs_dir x)"

lemma lvs_render_eq:
  "lvs_render x w l = lb_render w (config_file_path (lvs_dir x) (lb_name (lvs_common l))) (lvs_tmpl (lvs_inner_of x l))"
  by (simp add: lvs_render_def lvs_dir_def render_service_eq [OF run_lvs_template])

interpretation lfn: file_node "lvs_impl x" False "lvs_dir_ok x" "\<lambda>l. True" "lvs_body x" "lvs_files x"
proof
  fix e l
  assume ok: "lvs_dir_ok x e" and n: "plain (ilb_name (lvs_impl x) l)"
  let ?n = "lb_name (lvs_common l)"
  show "\<exists>r e'. ilb_config (lvs_impl x) False e l = Some (r, l, e') \<and> lvs_dir_ok x e' \<and>
      lvs_files x e' = put_file (ilb_name (lvs_impl x)) (lvs_body x) l (lvs_files x e)"
  proof (cases "lvs_check_valid l")
    case False
    with ok show ?thesis by (auto simp: lvs_impl_def lvs_config_def put_file_def lvs_body_def)
  next
    case True
    obtain r w where r: "lvs_render x (ve_os e) l = (r, w)" by fastforce
    have "plain ?n" using n by (simp add: lvs_impl_def get_name_def)
    from render_dir [OF ok [unfolded lvs_dir_ok_def] this r [unfolded lvs_render_eq]] True r show ?thesis
      by (simp add: lvs_impl_def lvs_config_def put_file_def lvs_body_def lvs_files_def lvs_dir_ok_def get_name_def)
  qed
next
  fix e n r e'
  assume "lvs_dir_ok x e" "plain n" "ilb_delete (lvs_impl x) False e n = (r, e')"
  then show "lvs_dir_ok x e' \<and> lvs_files x e' = (lvs_files x e)(n := None)"
    using delete_dir [of "ve_os e" "lvs_dir x" n]
    by (auto simp: lvs_impl_def lvs_delete_def lvs_dir_def lvs_files_def lvs_dir_ok_def split: prod.splits)
qed (simp_all add: lvs_impl_def lvs_reload_def lvs_files_def lvs_dir_ok_def)

text \<open>C12: a node that does not lead keeps its files in line with its table: after every event each
  service of the table that has an address and a port has on disk exactly the text of its template, a
  service that is no longer listed has no file, and the files of others are untouched.  This is for a
  writable directory that holds regular files only under the names of services, and keys whose last
  parts differ.\<close>

theorem lvs_follower_files:
  assumes "base_ok b" and "\<not> b_leader b" and "distinct (map kv_key li)" and "is_range_order ord"
    and "dir_ok (ve_os (b_env b)) (lvs_dir x)" and "files_agree (lvs_impl x) (lvs_body x) (lvs_files x) b"
    and "inj_on key_name (list_keys li \<union> dom (elem_view b))"
  shows "\<exists>b'. handler_event ord (lvs_impl x) li b = Some b' \<and>
    files_post (lvs_impl x) (lvs_body x) (lvs_files x) li b b' \<and> dir_ok (ve_os (b_env b')) (lvs_dir x)"
  using lfn.event_files [of b li ord x] assms by (auto simp: lvs_dir_ok_def)

section \<open>nginx with services of one kind\<close>

text \<open>One kind of service uses one of the two directories, and the other one is empty.\<close>

definition ng_dir :: "lb_conf \<Rightarrow> bool \<Rightarrow> string" where
  "ng_dir c http = (if http then ng_http_path c else ng_stream_path c)"

definition ng_dir_ok :: "lb_conf \<Rightarrow> bool \<Rightarrow> os \<Rightarrow> bool" where
  "ng_dir_ok c http w \<longleftrightarrow> dir_ok w (ng_dir c http) \<and> clean_dir (ng_dir c (\<not> http)) \<and>
     ng_dir c (\<not> http) \<noteq> ng_dir c http \<and>
     (\<forall>n. plain n \<longrightarrow> os_fs w (config_file_path (ng_dir c (\<not> http)) n) = None)"

lemma nginx_file_dir: "nginx_config_file c tp n = config_file_path (ng_dir c (tp = ''HTTP'')) n"
  by (simp add: nginx_config_file_def ng_dir_def config_file_path_def)

lemma ng_dir_ok_frame:
  assumes "ng_dir_ok c http w" and "dir_ok w' (ng_dir c http)" and "plain m"
    and "\<And>p. p \<noteq> config_file_path (ng_dir c http) m \<Longrightarrow> os_fs w' p = os_fs w p"
  shows "ng_dir_ok c http w'"
proof -
  have "os_fs w' (config_file_path (ng_dir c (\<not> http)) n) = os_fs w (config_file_path (ng_dir c (\<not> http)) n)"
    if "plain n" for n
    using assms(1) config_path_eq [of "ng_dir c (\<not> http)" "ng_dir c http" n m] that assms(3)
    by (intro assms(4)) (auto simp: ng_dir_ok_def dir_ok_def)
  with assms(1,2) show ?thesis by (simp add: ng_dir_ok_def)
qed

lemma absent_not_exist: "os_fs w p = None \<Longrightarrow> \<not> fst (is_file_exist w p)"
  using stat_ok_denied [of w p] by (auto simp: is_file_exist_def split: option.splits)

lemma delete_absent: "\<not> fst (is_file_exist w p) \<Longrightarrow> delete_file w p = (False, w)"
  by (simp add: delete_file_def)

text \<open>With one directory empty the loop of \<open>DeleteService\<close> comes down to one file.\<close>

lemma nginx_delete_one:
  assumes "ng_dir_ok c http w" and "plain n"
  shows "nginx_delete c w n = delete_file w (config_file_path (ng_dir c http) n)"
proof -
  have "\<not> fst (is_file_exist w (config_file_path (ng_dir c (\<not> http)) n))"
    using assms by (intro absent_not_exist) (simp add: ng_dir_ok_def)
  then show ?thesis
    by (cases http) (auto simp: nginx_delete_def nginx_file_dir delete_absent)
qed

lemma shell_out_fs: "shell_out w cmd = (e, w') \<Longrightarrow> os_fs w' = os_fs w \<and> os_denied w' = os_denied w"
  by (auto simp: shell_out_def split: sh_outcome.splits)

lemma nginx_reload_fs: "os_fs (nginx_reload w) = os_fs w \<and> os_denied (nginx_reload w) = os_denied w"
proof -
  obtain e w1 where a: "shell_out w ng_check_command = (e, w1)" by fastforce
  obtain e' w2 where b: "shell_out w1 ng_reload_command = (e', w2)" by fastforce
  show ?thesis using shell_out_fs [OF a] shell_out_fs [OF b] a b by (auto simp: nginx_reload_def split: option.splits)
qed

interpretation nfn: file_node "nginx_impl c" ldr "ng_dir_ok c http" "\<lambda>n. (lb_protocol (ng_common n) = ''HTTP'') = http"
  "\<lambda>n. Some (nginx_tmpl n)" "\<lambda>w. dir_files w (ng_dir c http)"
proof
  fix w n
  assume ok: "ng_dir_ok c http w" and kind: "(lb_protocol (ng_common n) = ''HTTP'') = http"
    and nm: "plain (ilb_name (nginx_impl c) n)"
  obtain r w' where r: "lb_render w (config_file_path (ng_dir c http) (lb_name (ng_common n))) (nginx_tmpl n) = (r, w')"
    by fastforce
  have p: "plain (lb_name (ng_common n))" and d: "dir_ok w (ng_dir c http)"
    using nm ok by (simp_all add: nginx_impl_def get_name_def ng_dir_ok_def)
  note R = render_dir [OF d p r]
  have "ilb_config (nginx_impl c) ldr w n = Some (r, n, w')"
    using r kind by (simp add: nginx_impl_def nginx_config_eq nginx_file_dir)
  with R(2) ng_dir_ok_frame [OF ok R(1) p R(3)]
  show "\<exists>r e'. ilb_config (nginx_impl c) ldr w n = Some (r, n, e') \<and> ng_dir_ok c http e' \<and>
      dir_files e' (ng_dir c http) = put_file (ilb_name (nginx_impl c)) (\<lambda>n. Some (nginx_tmpl n)) n (dir_files w (ng_dir c http))"
    by (simp add: put_file_def nginx_impl_def get_name_def)
next
  fix w n r w'
  assume ok: "ng_dir_ok c http w" and p: "plain n" and del: "ilb_delete (nginx_impl c) ldr w n = (r, w')"
  then have r: "delete_file w (config_file_path (ng_dir c http) n) = (r, w')"
    by (simp add: nginx_impl_def nginx_delete_one)
  have d: "dir_ok w (ng_dir c http)" using ok by (simp add: ng_dir_ok_def)
  note D = delete_dir [OF d p r]
  from D(2) ng_dir_ok_frame [OF ok D(1) p D(3)]
  show "ng_dir_ok c http w' \<and> dir_files w' (ng_dir c http) = (dir_files w (ng_dir c http))(n := None)" by simp
next
  fix w
  assume "ng_dir_ok c http w"
  then show "ng_dir_ok c http (ilb_reload (nginx_impl c) w) \<and>
      dir_files (ilb_reload (nginx_impl c) w) (ng_dir c http) = dir_files w (ng_dir c http)"
    using nginx_reload_fs [of w] by (simp add: nginx_impl_def ng_dir_ok_def dir_ok_def dir_files_def fun_eq_iff)
qed

text \<open>C23: an nginx node, leading or not, keeps its files in line with its table as long as all its
  services are of one kind (HTTP, or not): after every event each service of the table has on disk
  exactly the text of its template, a service that is no longer listed has no file, and the files of
  others are untouched.  This is for a writable directory of that kind, an empty one of the other kind,
  and keys whose last parts differ.\<close>

theorem nginx_files_follow:
  assumes "base_ok b" and "distinct (map kv_key li)" and "is_range_order ord" and "ng_dir_ok c http (b_env b)"
    and "files_agree (nginx_impl c) (\<lambda>n. Some (nginx_tmpl n)) (\<lambda>w. dir_files w (ng_dir c http)) b"
    and "inj_on key_name (list_keys li \<union> dom (elem_view b))"
    and "\<forall>it \<in> set li. \<forall>n. nginx_parse (kv_value it) = Some n \<longrightarrow> (lb_protocol (ng_common n) = ''HTTP'') = http"
  shows "\<exists>b'. handler_event ord (nginx_impl c) li b = Some b' \<and> ng_dir_ok c http (b_env b') \<and>
    files_post (nginx_impl c) (\<lambda>n. Some (nginx_tmpl n)) (\<lambda>w. dir_files w (ng_dir c http)) li b b'"
proof -
  have "\<forall>it \<in> set li. \<forall>n. accepted (nginx_impl c) (b_cluster b) (b_env b) it = Some n \<longrightarrow>
      (lb_protocol (ng_common n) = ''HTTP'') = http"
    using assms(7) by (auto simp: accepted_def nginx_impl_def split: option.splits if_splits)
  from nfn.event_files [OF assms(1-3) refl assms(4-6) this] show ?thesis by blast
qed

section \<open>Leader and follower\<close>

text \<open>When every address is in at most one group, the order in which the map of groups is ranged over
  does not matter.\<close>

definition one_group :: "laddr_map \<Rightarrow> bool" where
  "one_group m \<longleftrightarrow> (\<forall>ip k v k' v'. (k, v) \<in> set m \<longrightarrow> (k', v') \<in> set m \<longrightarrow>
     net_contains v ip \<longrightarrow> net_contains v' ip \<longrightarrow> k = k')"

lemma group_order:
  assumes "one_group m" and "is_range_order ord" and "is_range_order ord'"
  shows "get_laddr_group_name ord m ip = get_laddr_group_name ord' m ip"
proof (cases "get_laddr_group_name ord m ip")
  case None
  then show ?thesis
    using range_order_set [OF assms(2)] range_order_set [OF assms(3)]
    by (simp add: get_laddr_group_name_def first_containing_None) (metis first_containing_None)
next
  case (Some k)
  then obtain v where v: "(k, v) \<in> set m" "net_contains v (parse_ip ip)"
    using first_containing_Some range_order_set [OF assms(2)] unfolding get_laddr_group_name_def by metis
  then have "get_laddr_group_name ord' m ip \<noteq> None"
    using range_order_set [OF assms(3), of m] by (auto simp: get_laddr_group_name_def first_containing_None)
  then obtain k' where k': "get_laddr_group_name ord' m ip = Some k'" by blast
  then obtain v' where "(k', v') \<in> set m" "net_contains v' (parse_ip ip)"
    using first_containing_Some range_order_set [OF assms(3)] unfolding get_laddr_group_name_def by metis
  with v assms(1) have "k = k'" unfolding one_group_def by blast
  with Some k' show ?thesis by simp
qed

lemma check_servers_order:
  assumes "one_group m" and "\<And>j. is_range_order (ords j)" and "\<And>j. is_range_order (ords' j)"
  shows "lvs_check_servers ords m j grp bs = lvs_check_servers ords' m j grp bs"
proof (induction bs arbitrary: j grp)
  case Nil
  then show ?case by simp
next
  case (Cons b bs)
  obtain e be where r: "backend_check b = (e, be)" by fastforce
  show ?case
    using Cons.IH group_order [OF assms(1) assms(2) [of j] assms(3) [of j], of "be_ip be"]
    by (cases e) (auto simp: r split: option.splits)
qed

text \<open>Two nodes of a cluster: the same configuration and the same groups, whatever the order of their
  maps.\<close>

definition same_cluster :: "'s lvs_ctx \<Rightarrow> 's lvs_ctx \<Rightarrow> bool" where
  "same_cluster x y \<longleftrightarrow> vx_conf y = vx_conf x \<and> vx_groups y = vx_groups x \<and> one_group (vx_groups x) \<and>
     (\<forall>j. is_range_order (vx_ords x j) \<and> is_range_order (vx_ords y j)) \<and>
     is_range_order (vx_ord x) \<and> is_range_order (vx_ord y)"

lemma same_cluster_parse: "same_cluster x y \<Longrightarrow> lvs_parse y data = lvs_parse x data"
proof -
  assume s: "same_cluster x y"
  then have "lvs_check_servers (vx_ords y) (vx_groups x) j grp bs = lvs_check_servers (vx_ords x) (vx_groups x) j grp bs"
    for j grp bs
    unfolding same_cluster_def by (intro check_servers_order) auto
  then have "lvs_validate (vx_ords y) (vx_groups x) l = lvs_validate (vx_ords x) (vx_groups x) l" for l
    by (simp add: lvs_validate_def cong: option.case_cong)
  with s show ?thesis by (simp add: lvs_parse_def same_cluster_def cong: option.case_cong)
qed

lemma same_cluster_text: "same_cluster x y \<Longrightarrow> lvs_inner_of y l = lvs_inner_of x l"
proof -
  assume s: "same_cluster x y"
  then have "get_laddr_group_name (vx_ord y) (vx_groups x) ip = get_laddr_group_name (vx_ord x) (vx_groups x) ip" for ip
    unfolding same_cluster_def by (intro group_order) auto
  with s show ?thesis by (simp add: lvs_inner_of_def same_cluster_def split: list.split)
qed

lemma alloc_vip_os: "alloc_vip x e l = Some (err, l', e') \<Longrightarrow> ve_os e' = ve_os e"
  by (auto simp: alloc_vip_def Let_def split: option.splits sum.splits prod.splits if_splits)

text \<open>C6: leader and follower serve a placed service alike: when the leader has given an accepted service
  its address and port, the file it writes is, character for character, the one another node has
  after the event that lists the record the leader wrote back.  This holds under these conditions,
  and not for every configuration: \<open>PortBase\<close> is from 5000 to 65280 (above that the record may be one
  that all nodes refuse); the service has integers in range and survives encoding over the defaults
  (\<open>lvs_over l = l\<close>: no explicit zero in a field with a non-zero default); the nodes have the same
  configuration and the same local address groups, and no address is in two groups (\<open>one_group\<close>); the
  directories of both nodes are writable and the follower's files agreed with its table before; the
  listing has no duplicate keys, and no two of its and the table's keys have the same last part.\<close>

theorem follower_agrees_with_leader:
  assumes "lvs_setup x tree item" and "ipam_inv (vx_alc x) (vx_kv x) tree item (ve_kv e)"
    and "visible_name (lb_name (lvs_common l))" and "lvs_parse x data = Some l" and "lvs_wf l" and "lvs_over l = l"
    and "5000 \<le> l4_port_base (lc_l4 (vx_conf x))" and "l4_port_base (lc_l4 (vx_conf x)) \<le> 65280"
    and "alloc_vip x e l = Some (None, l', e1)" and "lvs_config x True e l = Some (r, l', e2)"
    and "dir_ok (ve_os e) (lvs_dir x)"
    and "same_cluster x y"
    and "base_ok b" and "\<not> b_leader b" and "distinct (map kv_key li)" and "is_range_order ord"
    and "dir_ok (ve_os (b_env b)) (lvs_dir y)" and "files_agree (lvs_impl y) (lvs_body y) (lvs_files y) b"
    and "inj_on key_name (list_keys li \<union> dom (elem_view b))"
    and "it \<in> set li" and "key_name (kv_key it) = lb_name (lvs_common l)" and "lb_cluster (lvs_common l) = b_cluster b"
    and "kv_value it = lvs_marshal l'"
  shows "\<exists>t b'. lvs_files x e2 (lb_name (lvs_common l)) = Some t \<and> handler_event ord (lvs_impl y) li b = Some b' \<and>
    elem_view b' (kv_key it) = Some l' \<and> lvs_files y (b_env b') (lb_name (lvs_common l)) = Some t"
proof -
  let ?n = "lb_name (lvs_common l)" and ?t = "lvs_tmpl (lvs_inner_of x l')"
  from alloc_vip_settled [OF assms(1-9)] have settled: "lvs_parse x (lvs_marshal l') = Some l'" "lvs_check_valid l'" by simp_all
  have common: "lvs_common l' = lvs_common l"
    using alloc_vip_cases [OF assms(1,2,3)] assms(9) by (metis option.inject prod.inject)
  have plain: "plain ?n" using assms(21) plain_key_name [of "kv_key it"] by simp
  obtain q w where rend: "lvs_render x (ve_os e) l' = (q, w)" by fastforce
  have "e2 = e1\<lparr>ve_os := w\<rparr>" using assms(9,10) rend alloc_vip_os [OF assms(9)] by (simp add: lvs_config_def)
  moreover have "dir_files w (lvs_dir x) = (dir_files (ve_os e) (lvs_dir x))(?n \<mapsto> ?t)"
    using render_dir(2) [OF assms(11) plain] rend common by (simp add: lvs_render_eq)
  ultimately have leader: "lvs_files x e2 ?n = Some ?t" by (simp add: lvs_files_def)
  have body: "lvs_body y l' = Some ?t"
    using settled(2) same_cluster_text [OF assms(12)] by (simp add: lvs_body_def)
  have acc: "accepted (lvs_impl y) (b_cluster b) (b_env b) it = Some l'"
    using settled(1) same_cluster_parse [OF assms(12)] assms(21-23) common
    by (simp add: accepted_def lvs_impl_def get_name_def get_cluster_name_def key_name_def)
  from lfn.event_files [of b li ord y] assms(13-19) obtain b' where b': "handler_event ord (lvs_impl y) li b = Some b'"
    "files_post (lvs_impl y) (lvs_body y) (lvs_files y) li b b'"
    "elem_view b' = (elem_view b ++ map_of (to_config (lvs_impl y) (b_cluster b) (b_env b) (elem_view b) li)) |` list_keys li"
    by (auto simp: lvs_dir_ok_def)
  have "kv_key it \<in> list_keys li" using assms(20) by (simp add: list_keys_def)
  moreover have "(elem_view b ++ map_of (to_config (lvs_impl y) (b_cluster b) (b_env b) (elem_view b) li)) (kv_key it) = Some l'"
  proof (cases "elem_view b (kv_key it) = Some l'")
    case True
    have "kv_key it \<notin> fst ` set (to_config (lvs_impl y) (b_cluster b) (b_env b) (elem_view b) li)"
      using True acc by (intro to_config_notin [OF assms(15,20)]) simp
    then have "map_of (to_config (lvs_impl y) (b_cluster b) (b_env b) (elem_view b) li) (kv_key it) = None"
      by (simp add: map_of_eq_None_iff)
    with True show ?thesis by (simp add: map_add_def)
  next
    case False
    have "(kv_key it, l') \<in> set (to_config (lvs_impl y) (b_cluster b) (b_env b) (elem_view b) li)"
      using acc False assms(20) unfolding to_config_mem by blast
    then have "map_of (to_config (lvs_impl y) (b_cluster b) (b_env b) (elem_view b) li) (kv_key it) = Some l'"
      by (rule map_of_is_SomeI [OF to_config_distinct [OF assms(15)]])
    then show ?thesis by simp
  qed
  ultimately have view: "elem_view b' (kv_key it) = Some l'" by (simp add: b'(3))
  with b'(2) body have "lvs_files y (b_env b') (key_name (kv_key it)) = Some ?t"
    unfolding files_post_def files_agree_def by blast
  with leader view b'(1) assms(21) show ?thesis by auto
qed

section \<open>Examples\<close>

lemma demo_lvs_dir: "lvs_dir (demo_ctx base) = ''/etc/lb/conf.d''"
  using clean_dir_join(1) [OF demo_clean_dir, of "''conf.d''"]
  by (simp add: lvs_dir_def lvs_config_path_def demo_ctx_def) (simp add: demo_conf_def)

lemma demo_dirs: "clean_dir ''/etc/lb/conf.d''" "clean_dir ''/etc/lb/stream.conf.d''"
proof -
  show "clean_dir ''/etc/lb/conf.d''"
    unfolding clean_dir_def by (rule exI [of _ "[''etc'', ''lb'', ''conf.d'']"]) simp
  show "clean_dir ''/etc/lb/stream.conf.d''"
    unfolding clean_dir_def by (rule exI [of _ "[''etc'', ''lb'', ''stream.conf.d'']"]) simp
qed

lemma demo_dir_ok: "dir_ok demo_os ''/etc/lb/conf.d''"
  using demo_dirs(1) config_path(1) [OF demo_dirs(1)] by (simp add: dir_ok_def demo_os_def)

lemma demo_files_agree: "files_agree i body files (demo_base ldr)"
  by (simp add: files_agree_def)

definition demo_placed :: lvs where
  "demo_placed = demo_lb\<lparr>lvs_port := 10001\<rparr>"

lemma lvs_follower_files_witness:
  "\<exists>b'. handler_event rev (lvs_impl (demo_ctx 10000)) [demo_item_a (lvs_marshal demo_placed)] (demo_base False) = Some b' \<and>
     files_post (lvs_impl (demo_ctx 10000)) (lvs_body (demo_ctx 10000)) (lvs_files (demo_ctx 10000))
       [demo_item_a (lvs_marshal demo_placed)] (demo_base False) b'"
proof -
  have "dir_ok (ve_os (b_env (demo_base False))) (lvs_dir (demo_ctx 10000))"
    using demo_dir_ok by (simp add: demo_lvs_dir demo_env_def)
  from lvs_follower_files [OF _ _ _ _ this demo_files_agree, of "[demo_item_a (lvs_marshal demo_placed)]" rev]
  show ?thesis by (auto simp: list_keys_def)
qed

lemma demo_same_cluster:
  "same_cluster (demo_ctx 10000) ((demo_ctx 10000)\<lparr>vx_ord := rev, vx_ords := (\<lambda>_. rev)\<rparr>)"
  by (simp add: same_cluster_def demo_ctx_def one_group_def demo_groups_def)

text \<open>The leader places service a; a node that ranges over its maps the other way round follows.\<close>

lemma follower_agrees_with_leader_witness:
  "\<exists>e2 t b'. lvs_config (demo_ctx 10000) True (demo_env [False]) demo_lb = Some (True, demo_placed, e2) \<and>
     lvs_files (demo_ctx 10000) e2 ''a'' = Some t \<and>
     handler_event rev (lvs_impl ((demo_ctx 10000)\<lparr>vx_ord := rev, vx_ords := (\<lambda>_. rev)\<rparr>))
       [demo_item_a (lvs_marshal demo_placed)] (demo_base False) = Some b' \<and>
     elem_view b' ''/lb/lb/prod/l4/a'' = Some demo_placed"
proof -
  let ?x = "demo_ctx 10000"
  let ?y = "?x\<lparr>vx_ord := rev, vx_ords := (\<lambda>_. rev)\<rparr>"
  obtain e1 where run: "alloc_vip ?x (demo_env [False]) demo_lb = Some (None, demo_placed, e1)"
    using demo_alloc [of 10001 10000] by (auto simp: demo_placed_def)
  have d: "dir_ok (ve_os (demo_env [False])) (lvs_dir ?x)"
    using demo_dir_ok by (simp add: demo_lvs_dir demo_env_def)
  have names: "lb_name (lvs_common demo_placed) = ''a''" "lb_name (lvs_common demo_lb) = ''a''"
    "lb_cluster (lvs_common demo_lb) = ''c1''"
    by (simp_all add: demo_placed_def demo_lb_def demo_svc_def)
  have os: "ve_os e1 = demo_os" using alloc_vip_os [OF run] by (simp add: demo_env_def)
  have "plain ''a''" by (simp add: plain_def)
  then have "config_file_path ''/etc/lb/conf.d'' ''a'' = ''/etc/lb/conf.d/a.conf''"
    "parent_path (config_file_path ''/etc/lb/conf.d'' ''a'') = ''/etc/lb/conf.d''"
    using config_path(1,2) [OF demo_dirs(1), of "''a''"] by simp_all
  then have "\<exists>w. lvs_render ?x demo_os demo_placed = (True, w)"
    using demo_render [of demo_os "''/etc/lb/conf.d/a.conf''"]
    by (simp add: lvs_render_eq demo_lvs_dir names(1)) (simp add: demo_os_def)
  then obtain w where "lvs_render ?x demo_os demo_placed = (True, w)" ..
  then have cfg: "lvs_config ?x True (demo_env [False]) demo_lb = Some (True, demo_placed, e1\<lparr>ve_os := w\<rparr>)"
    using run os by (simp add: lvs_config_def)
  have dy: "dir_ok (ve_os (b_env (demo_base False))) (lvs_dir ?y)"
    using d by (simp add: lvs_dir_def)
  have p: "lvs_parse ?x (lvs_marshal demo_lb) = Some demo_lb" by (rule demo_lb_parse)
  have key: "key_name (kv_key (demo_item_a (lvs_marshal demo_placed))) = ''a''" by (simp add: key_name_def)
  from follower_agrees_with_leader [OF demo_setup _ _ p demo_lb_wf _ _ run cfg d demo_same_cluster _ _ _ _ dy
      demo_files_agree, of "[demo_item_a (lvs_marshal demo_placed)]" rev "demo_item_a (lvs_marshal demo_placed)"]
  obtain t b' where "lvs_files ?x (e1\<lparr>ve_os := w\<rparr>) ''a'' = Some t"
    "handler_event rev (lvs_impl ?y) [demo_item_a (lvs_marshal demo_placed)] (demo_base False) = Some b'"
    "elem_view b' (kv_key (demo_item_a (lvs_marshal demo_placed))) = Some demo_placed"
    using key names by (auto simp: demo_inv demo_visible list_keys_def demo_env_def demo_item_a_def)
  with cfg show ?thesis by (auto simp: demo_item_a_def)
qed

text \<open>An HTTP site with its file, and a listing without it.\<close>

definition demo_site_os :: os where
  "demo_site_os = nginx_os\<lparr>os_fs := (os_fs nginx_os)(''/etc/lb/conf.d/a.conf'' \<mapsto> Regular (nginx_tmpl demo_site))\<rparr>"

definition demo_site_base :: "(nginx, os) lb_base" where
  "demo_site_base = (new_lb demo_conf demo_site_os)\<lparr>b_heap := [demo_site], b_elem := [(''/lb/lb/prod/l7/a'', 0)]\<rparr>"

lemma demo_ng_dirs: "ng_dir demo_conf True = ''/etc/lb/conf.d''" "ng_dir demo_conf False = ''/etc/lb/stream.conf.d''"
  using clean_dir_join(1) [OF demo_clean_dir, of "''conf.d''"] clean_dir_join(1) [OF demo_clean_dir, of "''stream.conf.d''"]
  by (simp_all add: ng_dir_def ng_http_path_def ng_stream_path_def) (simp_all add: demo_conf_def)

lemma demo_site_path: "plain ''a'' \<and> config_file_path ''/etc/lb/conf.d'' ''a'' = ''/etc/lb/conf.d/a.conf''"
  using config_path(1) [OF demo_dirs(1), of "''a''"] by (simp add: plain_def)

lemma demo_site_ok: "ng_dir_ok demo_conf True demo_site_os"
proof -
  have fs: "os_fs demo_site_os p = (if p = ''/etc/lb/conf.d/a.conf'' then Some (Regular (nginx_tmpl demo_site))
      else os_fs nginx_os p)" "\<not> os_denied demo_site_os p" for p
    by (simp_all add: demo_site_os_def nginx_os_def)
  have "dir_ok demo_site_os ''/etc/lb/conf.d''"
    using demo_dirs(1) config_path(1) [OF demo_dirs(1)] by (auto simp: dir_ok_def fs nginx_os_def)
  moreover have "os_fs demo_site_os (config_file_path ''/etc/lb/stream.conf.d'' n) = None" if "plain n" for n
    using config_path(1) [OF demo_dirs(2) that] by (simp add: fs nginx_os_def)
  ultimately show ?thesis using demo_dirs(2) by (simp add: ng_dir_ok_def demo_ng_dirs)
qed

lemma nginx_files_follow_witness:
  "dir_files demo_site_os ''/etc/lb/conf.d'' ''a'' = Some (nginx_tmpl demo_site) \<and>
   (\<exists>b'. handler_event rev (nginx_impl demo_conf) [] demo_site_base = Some b' \<and>
     dir_files (b_env b') ''/etc/lb/conf.d'' ''a'' = None)"
proof -
  let ?files = "\<lambda>w. dir_files w (ng_dir demo_conf True)"
  have in_dir: "dir_files demo_site_os ''/etc/lb/conf.d'' ''a'' = Some (nginx_tmpl demo_site)"
    using demo_site_path by (simp add: dir_files_def demo_site_os_def)
  have view: "elem_view demo_site_base = [''/lb/lb/prod/l7/a'' \<mapsto> demo_site]" "base_ok demo_site_base"
    "b_env demo_site_base = demo_site_os"
    by (simp_all add: demo_site_base_def elem_view_def base_ok_def new_lb_def fun_eq_iff)
  have key: "key_name ''/lb/lb/prod/l7/a'' = ''a''" by (simp add: key_name_def)
  have name: "ilb_name (nginx_impl demo_conf) demo_site = ''a''"
    by (simp add: nginx_impl_def get_name_def demo_site_def)
  have agree: "files_agree (nginx_impl demo_conf) (\<lambda>n. Some (nginx_tmpl n)) ?files demo_site_base"
    using in_dir name key view(1,3) by (simp add: files_agree_def demo_ng_dirs)
  have ok: "ng_dir_ok demo_conf True (b_env demo_site_base)" using demo_site_ok view(3) by simp
  from nginx_files_follow [OF view(2) _ _ ok agree, of "[]" rev] obtain b' where
    "handler_event rev (nginx_impl demo_conf) [] demo_site_base = Some b'"
    "files_post (nginx_impl demo_conf) (\<lambda>n. Some (nginx_tmpl n)) ?files [] demo_site_base b'"
    by (auto simp: list_keys_def view(1))
  moreover from this(2) have "dir_files (b_env b') ''/etc/lb/conf.d'' ''a'' = None"
    by (simp add: files_post_def list_keys_def view(1) key demo_ng_dirs)
  ultimately show ?thesis using in_dir by blast
qed

end
