(* ===== verification/Handlersteps.thy ===== *)
theory Handlersteps
  imports Lbimpl
begin

text \<open>
  The handler of a listing as a goroutine that does one access to the table, or one call of the
  implementation, at a time, so that several can interleave (theory \<open>Overlap\<close>).  One that runs alone does
  what \<open>handler_event\<close> says.
\<close>

section \<open>One handler, step by step\<close>

text \<open>\<open>HAdd\<close> holds the entries still to be looked at and the changed services, \<open>HPut\<close> is about to write the
  table, \<open>HConfig\<close> configures.  \<open>HScan\<close> is the walk of \<open>handlerDelete\<close>: the keys to come, those that came up
  at all, the names of the services that are gone, and whether a reload is needed.\<close>

datatype 'lb hpc =
    HAdd "kvpair list" "nat list"
  | HPut string 'lb "kvpair list" "nat list"
  | HConfig "nat list" bool
  | HScan "string list" "string list" "string list" bool
  | HDelete "string list" bool
  | HDone
  | HPanic

definition put_elem :: "string \<Rightarrow> 'lb \<Rightarrow> ('lb, 'e) lb_base \<Rightarrow> ('lb, 'e) lb_base" where
  "put_elem k lb b = b\<lparr>b_heap := b_heap b @ [lb], b_elem := AList.update k (length (b_heap b)) (b_elem b)\<rparr>"

text \<open>A walk over a map visits the keys that are there when it starts, unless they are gone before it
  comes to them; keys that are added meanwhile may come up (\<open>more\<close>).\<close>

inductive handler_step ::
  "('lb, 'e) ilb \<Rightarrow> (string \<times> nat) range_order \<Rightarrow> kvpair list \<Rightarrow>
   'lb hpc \<Rightarrow> ('lb, 'e) lb_base \<Rightarrow> 'lb hpc \<Rightarrow> ('lb, 'e) lb_base \<Rightarrow> bool"
  for i ord li where
  refused: "accepted i (b_cluster b) (b_env b) it = None \<Longrightarrow>
    handler_step i ord li (HAdd (it # its) as) b (HAdd its as) b"
| same: "accepted i (b_cluster b) (b_env b) it = Some lb \<Longrightarrow> elem_view b (kv_key it) = Some lb \<Longrightarrow>
    handler_step i ord li (HAdd (it # its) as) b (HAdd its as) b"
| differs: "accepted i (b_cluster b) (b_env b) it = Some lb \<Longrightarrow> elem_view b (kv_key it) \<noteq> Some lb \<Longrightarrow>
    handler_step i ord li (HAdd (it # its) as) b (HPut (kv_key it) lb its as) b"
| puts: "handler_step i ord li (HPut k lb its as) b (HAdd its (as @ [length (b_heap b)])) (put_elem k lb b)"
| added: "handler_step i ord li (HAdd [] as) b (HConfig as False) b"
| configures: "ilb_config i (b_leader b) (b_env b) (b_heap b ! a) = Some (r, lb', e') \<Longrightarrow>
    handler_step i ord li (HConfig (a # as) need) b (HConfig as (need \<or> r))
      (b\<lparr>b_heap := (b_heap b)[a := lb'], b_env := e'\<rparr>)"
| config_panics: "ilb_config i (b_leader b) (b_env b) (b_heap b ! a) = None \<Longrightarrow>
    handler_step i ord li (HConfig (a # as) need) b HPanic b"
| configured: "handler_step i ord li (HConfig [] need) b
    (HScan (map fst (ord (b_elem b))) (map fst (b_elem b)) [] need) b"
| more: "map_of (b_elem b) k \<noteq> None \<Longrightarrow> k \<notin> set seen \<Longrightarrow>
    handler_step i ord li (HScan ks seen names need) b (HScan (k # ks) (k # seen) names need) b"
| stays: "k \<in> list_keys li \<or> map_of (b_elem b) k = None \<Longrightarrow>
    handler_step i ord li (HScan (k # ks) seen names need) b (HScan ks seen names need) b"
| goes: "k \<notin> list_keys li \<Longrightarrow> map_of (b_elem b) k = Some a \<Longrightarrow>
    handler_step i ord li (HScan (k # ks) seen names need) b
      (HScan ks seen (names @ [ilb_name i (b_heap b ! a)]) need) (b\<lparr>b_elem := AList.delete k (b_elem b)\<rparr>)"
| scanned: "handler_step i ord li (HScan [] seen names need) b (HDelete names need) b"
| deletes: "ilb_delete i (b_leader b) (b_env b) n = (r, e') \<Longrightarrow>
    handler_step i ord li (HDelete (n # ns) need) b (HDelete ns (need \<or> r)) (b\<lparr>b_env := e'\<rparr>)"
| deleted: "handler_step i ord li (HDelete [] need) b HDone
    (if need then b\<lparr>b_env := ilb_reload i (b_env b)\<rparr> else b)"

inductive_cases handler_step_cases: "handler_step i ord li pc b pc' b'"

inductive handler_run ::
  "('lb, 'e) ilb \<Rightarrow> (string \<times> nat) range_order \<Rightarrow> kvpair list \<Rightarrow>
   'lb hpc \<Rightarrow> ('lb, 'e) lb_base \<Rightarrow> 'lb hpc \<Rightarrow> ('lb, 'e) lb_base \<Rightarrow> bool"
  for i ord li where
  run_refl: "handler_run i ord li pc b pc b"
| run_step: "handler_step i ord li pc b pc1 b1 \<Longrightarrow> handler_run i ord li pc1 b1 pc2 b2 \<Longrightarrow>
    handler_run i ord li pc b pc2 b2"

section \<open>Alone\<close>

text \<open>What is left to do from a state on, as the sequential functions do it.\<close>

fun walk_keys :: "('lb, 'e) ilb \<Rightarrow> kvpair list \<Rightarrow> string list \<Rightarrow> string list \<Rightarrow> ('lb, 'e) lb_base \<Rightarrow>
   string list \<times> ('lb, 'e) lb_base"
where
  "walk_keys i li [] names b = (names, b)"
| "walk_keys i li (k # ks) names b =
     (if k \<in> list_keys li then walk_keys i li ks names b
      else case map_of (b_elem b) k of
             None \<Rightarrow> walk_keys i li ks names b
           | Some a \<Rightarrow> walk_keys i li ks (names @ [ilb_name i (b_heap b ! a)]) (b\<lparr>b_elem := AList.delete k (b_elem b)\<rparr>))"

definition finish_delete :: "('lb, 'e) ilb \<Rightarrow> string list \<Rightarrow> bool \<Rightarrow> ('lb, 'e) lb_base \<Rightarrow> ('lb, 'e) lb_base" where
  "finish_delete i ns need b =
     (let (n, e) = delete_all i (b_leader b) ns need (b_env b) in b\<lparr>b_env := (if n then ilb_reload i e else e)\<rparr>)"

definition finish_scan ::
  "('lb, 'e) ilb \<Rightarrow> kvpair list \<Rightarrow> string list \<Rightarrow> string list \<Rightarrow> bool \<Rightarrow> ('lb, 'e) lb_base \<Rightarrow> ('lb, 'e) lb_base" where
  "finish_scan i li ks names need b = (let (ns, b') = walk_keys i li ks names b in finish_delete i ns need b')"

definition finish_config ::
  "('lb, 'e) ilb \<Rightarrow> (string \<times> nat) range_order \<Rightarrow> kvpair list \<Rightarrow> nat list \<Rightarrow> bool \<Rightarrow> ('lb, 'e) lb_base \<Rightarrow>
   ('lb, 'e) lb_base option" where
  "finish_config i ord li as need b =
     map_option (\<lambda>(need', b'). finish_scan i li (map fst (ord (b_elem b'))) [] need' b') (config_all i as need b)"

definition finish_add ::
  "('lb, 'e) ilb \<Rightarrow> (string \<times> nat) range_order \<Rightarrow> kvpair list \<Rightarrow> kvpair list \<Rightarrow> nat list \<Rightarrow> ('lb, 'e) lb_base \<Rightarrow>
   ('lb, 'e) lb_base option" where
  "finish_add i ord li its as b = (let (as', b') = collect_changed i its as b in finish_config i ord li as' False b')"

fun finish ::
  "('lb, 'e) ilb \<Rightarrow> (string \<times> nat) range_order \<Rightarrow> kvpair list \<Rightarrow> 'lb hpc \<Rightarrow> ('lb, 'e) lb_base \<Rightarrow> ('lb, 'e) lb_base option"
where
  "finish i ord li (HAdd its as) b = finish_add i ord li its as b"
| "finish i ord li (HPut k lb its as) b = finish_add i ord li its (as @ [length (b_heap b)]) (put_elem k lb b)"
| "finish i ord li (HConfig as need) b = finish_config i ord li as need b"
| "finish i ord li (HScan ks seen names need) b = Some (finish_scan i li ks names need b)"
| "finish i ord li (HDelete ns need) b = Some (finish_delete i ns need b)"
| "finish i ord li HDone b = Some b"
| "finish i ord li HPanic b = None"

fun all_seen :: "'lb hpc \<Rightarrow> ('lb, 'e) lb_base \<Rightarrow> bool" where
  "all_seen (HScan ks seen names need) b \<longleftrightarrow> dom (map_of (b_elem b)) \<subseteq> set seen"
| "all_seen _ b \<longleftrightarrow> True"

lemma step_all_seen: "handler_step i ord li pc b pc' b' \<Longrightarrow> all_seen pc b \<Longrightarrow> all_seen pc' b'"
  by (erule handler_step_cases) (auto simp: delete_conv' dom_map_of_conv_image_fst split: if_splits)

text \<open>A step leaves the rest as it was.\<close>

lemma step_finish:
  "handler_step i ord li pc b pc' b' \<Longrightarrow> all_seen pc b \<Longrightarrow> finish i ord li pc' b' = finish i ord li pc b"
  by (erule handler_step_cases)
    (auto simp: finish_add_def finish_config_def finish_scan_def finish_delete_def put_elem_def collect_changed_cons
      simp del: collect_changed.simps(2) split: option.splits prod.splits)

lemma run_finish:
  "handler_run i ord li pc b pc' b' \<Longrightarrow> all_seen pc b \<Longrightarrow> finish i ord li pc' b' = finish i ord li pc b"
  by (induction rule: handler_run.induct) (simp_all add: step_finish step_all_seen)

text \<open>Every state has a run to the end.\<close>

definition ends_from ::
  "('lb, 'e) ilb \<Rightarrow> (string \<times> nat) range_order \<Rightarrow> kvpair list \<Rightarrow> 'lb hpc \<Rightarrow> ('lb, 'e) lb_base \<Rightarrow> bool" where
  "ends_from i ord li pc b \<longleftrightarrow> (\<exists>pc' b'. (pc' = HDone \<or> pc' = HPanic) \<and> handler_run i ord li pc b pc' b')"

lemma ends_step: "handler_step i ord li pc b pc' b' \<Longrightarrow> ends_from i ord li pc' b' \<Longrightarrow> ends_from i ord li pc b"
  unfolding ends_from_def by (blast intro: run_step)

lemma ends_final: "ends_from i ord li HDone b" "ends_from i ord li HPanic b"
  unfolding ends_from_def by (blast intro: run_refl)+

lemma ends_delete: "ends_from i ord li (HDelete ns need) b"
proof (induction ns arbitrary: need b)
  case Nil
  show ?case by (rule ends_step [OF deleted ends_final(1)])
next
  case (Cons n ns need b)
  obtain r e' where "ilb_delete i (b_leader b) (b_env b) n = (r, e')" by fastforce
  from ends_step [OF deletes [OF this] Cons.IH] show ?case .
qed

lemma ends_scan: "ends_from i ord li (HScan ks seen names need) b"
proof (induction ks arbitrary: names b)
  case Nil
  show ?case by (rule ends_step [OF scanned ends_delete])
next
  case (Cons k ks names b)
  show ?case
  proof (cases "k \<in> list_keys li \<or> map_of (b_elem b) k = None")
    case True
    from ends_step [OF stays [OF this] Cons.IH] show ?thesis .
  next
    case False
    then obtain a where "k \<notin> list_keys li" "map_of (b_elem b) k = Some a" by auto
    from ends_step [OF goes [OF this] Cons.IH] show ?thesis .
  qed
qed

lemma ends_config: "ends_from i ord li (HConfig as need) b"
proof (induction as arbitrary: need b)
  case Nil
  show ?case by (rule ends_step [OF configured ends_scan])
next
  case (Cons a as need b)
  show ?case
  proof (cases "ilb_config i (b_leader b) (b_env b) (b_heap b ! a)")
    case None
    from ends_step [OF config_panics [OF None] ends_final(2)] show ?thesis .
  next
    case (Some x)
    obtain r lb' e' where "x = (r, lb', e')" by (cases x)
    from ends_step [OF configures [OF Some [unfolded this]] Cons.IH] show ?thesis .
  qed
qed

lemma ends_add: "ends_from i ord li (HAdd its as) b"
proof (induction its arbitrary: as b)
  case Nil
  show ?case by (rule ends_step [OF added ends_config])
next
  case (Cons it its as b)
  show ?case
  proof (cases "accepted i (b_cluster b) (b_env b) it")
    case None
    from ends_step [OF refused [OF None] Cons.IH] show ?thesis .
  next
    case (Some lb)
    show ?thesis
    proof (cases "elem_view b (kv_key it) = Some lb")
      case True
      from ends_step [OF same [OF Some this] Cons.IH] show ?thesis .
    next
      case False
      from ends_step [OF differs [OF Some this] ends_step [OF puts Cons.IH]] show ?thesis .
    qed
  qed
qed

text \<open>The walk over the keys is the walk over the entries.\<close>

lemma walk_keys_entries:
  "distinct (map fst es) \<Longrightarrow> \<forall>(k, a) \<in> set es. map_of (b_elem b) k = Some a \<Longrightarrow>
     walk_keys i li (map fst es) names b = collect_gone i li es names b"
proof (induction es arbitrary: names b)
  case Nil
  then show ?case by simp
next
  case (Cons x es)
  obtain k a where x: "x = (k, a)" by (cases x)
  have ex: "list_ex (\<lambda>it. k = kv_key it) li \<longleftrightarrow> k \<in> list_keys li"
    by (auto simp: list_ex_iff list_keys_def)
  have rest: "\<forall>(l, c) \<in> set es. map_of (AList.delete k (b_elem b)) l = Some c"
    using Cons.prems x by (force simp: delete_conv')
  show ?case
  proof (cases "k \<in> list_keys li")
    case True
    with Cons x ex show ?thesis by simp
  next
    case False
    with Cons.prems x ex Cons.IH [of "b\<lparr>b_elem := AList.delete k (b_elem b)\<rparr>"] rest show ?thesis by simp
  qed
qed

lemma range_entries:
  assumes "base_ok b" and "is_range_order ord"
  shows "distinct (map fst (ord (b_elem b)))"
    and "\<forall>(k, a) \<in> set (ord (b_elem b)). map_of (b_elem b) k = Some a"
proof -
  have dk: "distinct (map fst (b_elem b))" using assms(1) by (simp add: base_ok_def)
  then have "distinct (b_elem b)" "inj_on fst (set (b_elem b))" by (simp_all add: distinct_map)
  with assms(2) show "distinct (map fst (ord (b_elem b)))"
    by (simp add: distinct_map range_order_set range_order_distinct)
  show "\<forall>(k, a) \<in> set (ord (b_elem b)). map_of (b_elem b) k = Some a"
    using dk assms(2) by (auto simp: range_order_set)
qed

lemma delete_all_need: "delete_all i ldr ns need e = (need \<or> fst (delete_all i ldr ns False e), snd (delete_all i ldr ns False e))"
proof (induction ns arbitrary: need e)
  case Nil
  then show ?case by simp
next
  case (Cons n ns)
  obtain r e' where d: "ilb_delete i ldr e n = (r, e')" by fastforce
  from Cons.IH [of "need \<or> r" e'] Cons.IH [of r e'] d show ?case by simp
qed

lemma finish_scan_handler_delete:
  assumes "base_ok b" and "is_range_order ord"
  shows "finish_scan i li (map fst (ord (b_elem b))) [] need b =
    (let (need', b2) = handler_delete ord i li b
     in if need \<or> need' then b2\<lparr>b_env := ilb_reload i (b_env b2)\<rparr> else b2)"
proof -
  obtain ns c where g: "collect_gone i li (ord (b_elem b)) [] b = (ns, c)" by fastforce
  obtain n e where d: "delete_all i (b_leader c) ns False (b_env c) = (n, e)" by fastforce
  from d have "delete_all i (b_leader c) ns need (b_env c) = (need \<or> n, e)"
    using delete_all_need [of i "b_leader c" ns need "b_env c"] by simp
  with g d walk_keys_entries [OF range_entries [OF assms], of i li "[]"] show ?thesis
    by (simp add: finish_scan_def finish_delete_def handler_delete_def)
qed

lemma config_all_base_ok:
  "config_all i as need b = Some (need', b') \<Longrightarrow> base_ok b \<Longrightarrow> base_ok b'"
proof (induction as arbitrary: need b)
  case Nil
  then show ?case by simp
next
  case (Cons a as)
  from Cons.prems(1) obtain r lb' e' where c: "ilb_config i (b_leader b) (b_env b) (b_heap b ! a) = Some (r, lb', e')"
    "config_all i as (need \<or> r) (b\<lparr>b_heap := (b_heap b)[a := lb'], b_env := e'\<rparr>) = Some (need', b')"
    by (auto split: option.splits)
  from Cons.IH [OF c(2)] Cons.prems(2) show ?case by (simp add: base_ok_def)
qed

lemma base_ok_put: "base_ok b \<Longrightarrow> base_ok (put_elem k lb b)"
  unfolding put_elem_def by (rule base_ok_insert)

lemma collect_changed_base_ok:
  "base_ok b \<Longrightarrow> base_ok (snd (collect_changed i its as b))"
proof (induction its arbitrary: as b)
  case Nil
  then show ?case by simp
next
  case (Cons it its)
  then show ?case
    using base_ok_put [OF Cons.prems, of "kv_key it"]
    by (simp add: collect_changed_cons put_elem_def del: collect_changed.simps(2) split: option.splits)
qed

lemma finish_handler_event:
  assumes "base_ok b" and "is_range_order ord"
  shows "finish i ord li (HAdd li []) b = handler_event ord i li b"
proof -
  obtain as c where col: "collect_changed i li [] b = (as, c)" by fastforce
  with assms(1) have c: "base_ok c" using collect_changed_base_ok [of b i li "[]"] by simp
  show ?thesis
  proof (cases "config_all i as False c")
    case None
    with col show ?thesis
      by (simp add: finish_add_def finish_config_def handler_event_def handler_add_or_update_def)
  next
    case (Some x)
    obtain need d where x: "x = (need, d)" by (cases x)
    have d: "base_ok d" using config_all_base_ok [OF Some [unfolded x] c] .
    from finish_scan_handler_delete [OF d assms(2)] col Some x show ?thesis
      by (simp add: finish_add_def finish_config_def handler_event_def handler_add_or_update_def Let_def split: prod.splits)
  qed
qed

text \<open>A handler that runs alone computes what \<open>handlerEvent\<close> computes in one go, and ends in a panic just
  when that has no result.\<close>

lemma handler_run_event:
  assumes "base_ok b" and "is_range_order ord"
  shows "handler_event ord i li b = Some b' \<longleftrightarrow> handler_run i ord li (HAdd li []) b HDone b'"
    and "handler_event ord i li b = None \<longleftrightarrow> (\<exists>b'. handler_run i ord li (HAdd li []) b HPanic b')"
proof -
  have run: "finish i ord li pc c = handler_event ord i li b" if "handler_run i ord li (HAdd li []) b pc c" for pc c
    using run_finish [OF that] finish_handler_event [OF assms] by simp
  obtain pc c where "pc = HDone \<or> pc = HPanic" "handler_run i ord li (HAdd li []) b pc c"
    using ends_add [of i ord li li "[]" b] by (auto simp: ends_from_def)
  with run show "handler_event ord i li b = Some b' \<longleftrightarrow> handler_run i ord li (HAdd li []) b HDone b'"
    "handler_event ord i li b = None \<longleftrightarrow> (\<exists>b'. handler_run i ord li (HAdd li []) b HPanic b')"
    by fastforce+
qed

section \<open>Examples\<close>

lemma demo_table_event:
  assumes "base_ok b" and "b_env b = b_env demo_table" and "distinct (map kv_key li)"
    and "\<forall>it \<in> set li. visible_name (last (split_on CHR ''/'' (kv_key it)))"
  obtains b' where "handler_event rev (lvs_impl (demo_ctx 10000)) li b = Some b'"
    and "ipam_inv (vx_alc (demo_ctx 10000)) (vx_kv (demo_ctx 10000)) mem_view demo_item (ve_kv (b_env b'))"
proof -
  have "ipam_inv (vx_alc (demo_ctx 10000)) (vx_kv (demo_ctx 10000)) mem_view demo_item (ve_kv (b_env b))"
    using assms(2) by (simp add: demo_table_def demo_inv)
  from demo_node.node_event [OF assms(1,3) _ this assms(4), of rev] that show thesis by auto
qed

end
