(* ===== verification/Overlap.thy ===== *)
theory Overlap
  imports Handlersteps
begin

text \<open>
  Handlers that overlap.  Every run of \<open>pkg/lbm/lbm.go\<close> starts a watch of its own, and a watch that was
  stopped or forgotten may still handle a listing while the watch of a later run does; they all work on
  the one table of the node, without a lock.  Any number of handlers of theory \<open>Handlersteps\<close> interleave
  here.  The locales \<open>keeps_names\<close> and \<open>fixed_impl\<close> are what the promises need of an implementation.
\<close>

section \<open>Many handlers on one table\<close>

text \<open>The handlers of a node, each with its listing.  Handlers begin with any of the listings \<open>L\<close>, and \<open>Run\<close>
  may change the role of the node to one of \<open>R\<close> meanwhile.\<close>

type_synonym 'lb handlers = "(kvpair list \<times> 'lb hpc) list"

inductive overlap_step ::
  "('lb, 'e) ilb \<Rightarrow> (string \<times> nat) range_order \<Rightarrow> kvpair list set \<Rightarrow> bool set \<Rightarrow>
   ('lb, 'e) lb_base \<Rightarrow> 'lb handlers \<Rightarrow> ('lb, 'e) lb_base \<Rightarrow> 'lb handlers \<Rightarrow> bool"
  for i ord L R where
  begins: "li \<in> L \<Longrightarrow> overlap_step i ord L R b hs b (hs @ [(li, HAdd li [])])"
| acts: "n < length hs \<Longrightarrow> hs ! n = (li, pc) \<Longrightarrow> handler_step i ord li pc b pc' b' \<Longrightarrow>
    overlap_step i ord L R b hs b' (hs[n := (li, pc')])"
| roles: "ldr \<in> R \<Longrightarrow> overlap_step i ord L R b hs (b\<lparr>b_leader := ldr\<rparr>) hs"

inductive overlap_run ::
  "('lb, 'e) ilb \<Rightarrow> (string \<times> nat) range_order \<Rightarrow> kvpair list set \<Rightarrow> bool set \<Rightarrow>
   ('lb, 'e) lb_base \<Rightarrow> 'lb handlers \<Rightarrow> ('lb, 'e) lb_base \<Rightarrow> 'lb handlers \<Rightarrow> bool"
  for i ord L R b0 hs0 where
  at_first: "overlap_run i ord L R b0 hs0 b0 hs0"
| one_more: "overlap_run i ord L R b0 hs0 b hs \<Longrightarrow> overlap_step i ord L R b hs b' hs' \<Longrightarrow>
    overlap_run i ord L R b0 hs0 b' hs'"

lemma overlap_run_trans:
  "overlap_run i ord L R b1 hs1 b2 hs2 \<Longrightarrow> overlap_run i ord L R b0 hs0 b1 hs1 \<Longrightarrow> overlap_run i ord L R b0 hs0 b2 hs2"
  by (induction rule: overlap_run.induct) (blast intro: one_more)+

lemma all_handlers_update:
  assumes "\<forall>h \<in> set hs. P h" and "n < length hs" and "P h"
  shows "\<forall>h \<in> set (hs[n := h]). P h"
  using assms set_update_subset_insert [of hs n h] by blast

lemma handler_at: "n < length hs \<Longrightarrow> hs ! n = h \<Longrightarrow> h \<in> set hs"
  by auto

lemma step_base_ok:
  assumes "handler_step i ord li pc b pc' b'" and "base_ok b"
  shows "base_ok b'"
  using assms(1)
proof cases
  case (goes k a ks seen names need)
  note assms(2)
  moreover from this have "distinct (map snd (AList.delete k (b_elem b)))"
    by (simp add: base_ok_def AList.delete_eq distinct_map_filter)
  moreover have "set (AList.delete k (b_elem b)) \<subseteq> set (b_elem b)" by (auto simp: AList.delete_eq)
  ultimately show ?thesis unfolding goes(3) by (auto simp: base_ok_def distinct_delete)
next
  case (puts k lb its as)
  with assms(2) show ?thesis by (simp add: base_ok_put)
qed (use assms(2) in \<open>auto simp: base_ok_def\<close>)

lemma overlap_base_ok: "overlap_run i ord L R b hs b' hs' \<Longrightarrow> base_ok b \<Longrightarrow> base_ok b'"
proof (induction rule: overlap_run.induct)
  case (one_more c hs1 c' hs1')
  from one_more.hyps(2) show ?case
  proof cases
    case (acts n li pc pc')
    from step_base_ok [OF acts(4)] one_more show ?thesis by simp
  next
    case (roles ldr)
    with one_more show ?thesis by (simp add: base_ok_def)
  qed (use one_more in simp)
qed simp

section \<open>What overlapping keeps\<close>

lemma list_keys_append [simp]: "list_keys (xs @ ys) = list_keys xs \<union> list_keys ys"
  by (auto simp: list_keys_def)

lemma list_keys_Cons [simp]: "list_keys (it # its) = insert (kv_key it) (list_keys its)" "list_keys [] = {}"
  by (auto simp: list_keys_def)

definition part_of :: "string \<Rightarrow> string" where
  "part_of k = last (split_on CHR ''/'' k)"

text \<open>Every service stands under its own name, and is one of this cluster.\<close>

definition fits :: "('lb, 'e) ilb \<Rightarrow> string \<Rightarrow> string \<Rightarrow> 'lb \<Rightarrow> bool" where
  "fits i cl k lb \<longleftrightarrow> ilb_name i lb = part_of k \<and> ilb_cluster i lb = cl"

definition table_fits :: "('lb, 'e) ilb \<Rightarrow> ('lb, 'e) lb_base \<Rightarrow> bool" where
  "table_fits i b \<longleftrightarrow> (\<forall>k lb. elem_view b k = Some lb \<longrightarrow> fits i (b_cluster b) k lb)"

text \<open>A handler puts only keys of its own listing, and the names that it is about to delete are those of keys
  \<open>D\<close> in play that its listing does not have, never the name of a listed key.\<close>

definition names_gone :: "string set \<Rightarrow> kvpair list \<Rightarrow> string list \<Rightarrow> bool" where
  "names_gone D li names \<longleftrightarrow>
     set names \<subseteq> part_of ` (D - list_keys li) \<and> set names \<inter> part_of ` list_keys li = {}"

fun handler_fits :: "('lb, 'e) ilb \<Rightarrow> string \<Rightarrow> string set \<Rightarrow> kvpair list \<times> 'lb hpc \<Rightarrow> bool" where
  "handler_fits i cl D (li, HAdd its as) \<longleftrightarrow> list_keys its \<subseteq> list_keys li"
| "handler_fits i cl D (li, HPut k lb its as) \<longleftrightarrow>
     fits i cl k lb \<and> k \<in> list_keys li \<and> list_keys its \<subseteq> list_keys li"
| "handler_fits i cl D (li, HScan ks seen names need) \<longleftrightarrow> names_gone D li names"
| "handler_fits i cl D (li, HDelete names need) \<longleftrightarrow> names_gone D li names"
| "handler_fits i cl D _ \<longleftrightarrow> True"

lemma names_gone_more:
  assumes "names_gone D li names" and "inj_on part_of D" and "list_keys li \<subseteq> D" and "k \<in> D" and "k \<notin> list_keys li"
  shows "names_gone D li (names @ [part_of k])"
proof -
  have "part_of k \<notin> part_of ` list_keys li"
    using inj_on_image_mem_iff [OF assms(2,4,3)] assms(5) by simp
  with assms show ?thesis by (auto simp: names_gone_def)
qed

lemma names_gone_less: "names_gone D li (n # names) \<Longrightarrow> names_gone D li names" "names_gone D li []"
  by (auto simp: names_gone_def)

locale keeps_names =
  fixes i :: "('lb, 'e) ilb"
  assumes config_names: "ilb_config i ldr e lb = Some (r, lb', e') \<Longrightarrow>
    ilb_name i lb' = ilb_name i lb \<and> ilb_cluster i lb' = ilb_cluster i lb"
begin

lemma config_fits:
  assumes "table_fits i b" and "base_ok b" and "ilb_config i ldr e (b_heap b ! a) = Some (r, lb', e')"
  shows "table_fits i (b\<lparr>b_heap := (b_heap b)[a := lb'], b_env := e'\<rparr>)"
proof -
  have "fits i (b_cluster b) k lb" if "elem_view (b\<lparr>b_heap := (b_heap b)[a := lb'], b_env := e'\<rparr>) k = Some lb" for k lb
  proof -
    from that obtain c where c: "map_of (b_elem b) k = Some c" "lb = (b_heap b)[a := lb'] ! c"
      by (auto simp: elem_view_def)
    from base_ok_lookup [OF assms(2) c(1)] c(2) have "lb = (if c = a then lb' else b_heap b ! c)"
      by (simp add: nth_list_update)
    moreover have "fits i (b_cluster b) k (b_heap b ! c)"
      using assms(1) c(1) by (simp add: table_fits_def elem_view_def)
    ultimately show ?thesis using config_names [OF assms(3)] by (simp add: fits_def split: if_splits)
  qed
  then show ?thesis by (simp add: table_fits_def)
qed

lemma step_fits:
  assumes "handler_step i ord li pc b pc' b'" and "base_ok b" and "table_fits i b"
    and "inj_on part_of D" and "list_keys li \<subseteq> D" and "dom (elem_view b) \<subseteq> D"
    and "handler_fits i (b_cluster b) D (li, pc)"
  shows "table_fits i b' \<and> b_cluster b' = b_cluster b \<and> dom (elem_view b') \<subseteq> D \<and>
    handler_fits i (b_cluster b) D (li, pc')"
  using assms(1)
proof cases
  case (differs it lb its as)
  then show ?thesis
    using assms(3,6,7) by (auto simp: fits_def part_of_def accepted_def split: option.splits if_splits)
next
  case (puts k lb its as)
  have "elem_view b' = (elem_view b)(k \<mapsto> lb)"
    unfolding puts(3) put_elem_def by (rule elem_view_insert [OF assms(2)])
  with puts assms(3,5-7) show ?thesis by (auto simp: table_fits_def put_elem_def)
next
  case (configures a r lb' e' as need)
  have "dom (elem_view b') = dom (elem_view b)" unfolding configures(3) by (auto simp: elem_view_def)
  with config_fits [OF assms(3,2) configures(4)] configures assms(6) show ?thesis by simp
next
  case (goes k a ks seen names need)
  have view: "elem_view b k = Some (b_heap b ! a)" using goes(5) by (simp add: elem_view_def)
  with assms(3) have "ilb_name i (b_heap b ! a) = part_of k" by (simp add: table_fits_def fits_def)
  moreover have "k \<in> D" using view assms(6) by auto
  ultimately have "names_gone D li (names @ [ilb_name i (b_heap b ! a)])"
    using names_gone_more [OF _ assms(4,5) _ goes(4)] assms(7) goes(1) by simp
  moreover have "elem_view b' = (elem_view b)(k := None)"
    unfolding goes(3) by (simp add: elem_view_def fun_eq_iff delete_conv')
  ultimately show ?thesis
    using assms(3,6) goes(2,3) by (auto simp: table_fits_def)
next
  case (deletes n r e' ns need)
  with assms(3,6,7) show ?thesis
    by (auto simp: table_fits_def elem_view_def intro: names_gone_less(1))
qed (use assms(3,6,7) in \<open>auto simp: table_fits_def elem_view_def names_gone_less(2)\<close>)

lemma overlap_fits:
  assumes "overlap_run i ord L R b [] b' hs" and "base_ok b" and "table_fits i b"
    and "inj_on part_of D" and "dom (elem_view b) \<union> (\<Union>li \<in> L. list_keys li) \<subseteq> D"
  shows "table_fits i b' \<and> b_cluster b' = b_cluster b \<and> dom (elem_view b') \<subseteq> D \<and>
    (\<forall>h \<in> set hs. fst h \<in> L \<and> handler_fits i (b_cluster b) D h)"
  using assms(1)
proof (induction rule: overlap_run.induct)
  case at_first
  with assms(3,5) show ?case by simp
next
  case (one_more c hs c' hs')
  from one_more.IH have inv: "table_fits i c" "b_cluster c = b_cluster b" "dom (elem_view c) \<subseteq> D"
    "\<forall>h \<in> set hs. fst h \<in> L \<and> handler_fits i (b_cluster b) D h" by simp_all
  from one_more(2) show ?case
  proof cases
    case (begins li)
    with inv show ?thesis by auto
  next
    case (acts n li pc pc')
    have h: "li \<in> L" "handler_fits i (b_cluster c) D (li, pc)" using handler_at [OF acts(2,3)] inv(2,4) by auto
    from h(1) assms(5) have "list_keys li \<subseteq> D" by auto
    from step_fits [OF acts(4) overlap_base_ok [OF one_more(1) assms(2)] inv(1) assms(4) this inv(3) h(2)] inv(2)
    have step: "table_fits i c'" "b_cluster c' = b_cluster b" "dom (elem_view c') \<subseteq> D"
      "handler_fits i (b_cluster b) D (li, pc')" by simp_all
    from step(1-3) all_handlers_update [OF inv(4) acts(2), of "(li, pc')"] step(4) h(1)
    show ?thesis unfolding acts(1) by simp
  next
    case (roles ldr)
    have "elem_view (c\<lparr>b_leader := ldr\<rparr>) = elem_view c" by (simp add: elem_view_def fun_eq_iff)
    with roles inv show ?thesis by (simp add: table_fits_def)
  qed
qed

end

section \<open>Handlers of the same listing\<close>

text \<open>What becomes of a key: it goes when it is not listed, and a record that is refused leaves what there was.\<close>

definition settled :: "('lb, 'e) ilb \<Rightarrow> ('lb, 'e) lb_base \<Rightarrow> kvpair list \<Rightarrow> string \<Rightarrow> 'lb option" where
  "settled i b li k =
     (case filter (\<lambda>it. kv_key it = k) li of
        [] \<Rightarrow> None
      | it # _ \<Rightarrow> (case accepted i (b_cluster b) (b_env b) it of None \<Rightarrow> elem_view b k | Some lb \<Rightarrow> Some lb))"

lemma settled_gone: "k \<notin> list_keys li \<Longrightarrow> settled i b li k = None"
proof -
  assume "k \<notin> list_keys li"
  then have "filter (\<lambda>it. kv_key it = k) li = []" by (auto simp: filter_empty_conv list_keys_def)
  then show ?thesis by (simp add: settled_def)
qed

lemma settled_listed:
  assumes "distinct (map kv_key li)" and "it \<in> set li"
  shows "settled i b li (kv_key it) =
    (case accepted i (b_cluster b) (b_env b) it of None \<Rightarrow> elem_view b (kv_key it) | Some lb \<Rightarrow> Some lb)"
proof -
  have "filter (\<lambda>x. kv_key x = kv_key it) li = [it]"
    using assms
  proof (induction li)
    case Nil
    then show ?case by simp
  next
    case (Cons x li)
    show ?case
    proof (cases "x = it")
      case True
      with Cons.prems(1) have "filter (\<lambda>y. kv_key y = kv_key it) li = []"
        by (auto simp: filter_empty_conv image_iff)
      with True show ?thesis by simp
    next
      case False
      with Cons.prems have "it \<in> set li" by simp
      with Cons.prems(1) have "kv_key x \<noteq> kv_key it" by (metis distinct.simps(2) list.simps(9) image_eqI list.set_map)
      with Cons \<open>it \<in> set li\<close> show ?thesis by simp
    qed
  qed
  then show ?thesis by (simp add: settled_def)
qed

text \<open>How far a handler has brought the table \<open>V\<close> towards \<open>T\<close>.\<close>

definition done_for :: "(string \<Rightarrow> 'lb option) \<Rightarrow> (string \<Rightarrow> 'lb option) \<Rightarrow> string set \<Rightarrow> bool" where
  "done_for T V K \<longleftrightarrow> (\<forall>k \<in> K. V k = T k)"

fun handler_done :: "(string \<Rightarrow> 'lb option) \<Rightarrow> (string \<Rightarrow> 'lb option) \<Rightarrow> kvpair list \<Rightarrow> 'lb hpc \<Rightarrow> bool" where
  "handler_done T V li (HAdd its as) \<longleftrightarrow> (\<exists>ds. li = ds @ its \<and> done_for T V (list_keys ds))"
| "handler_done T V li (HPut k lb its as) \<longleftrightarrow>
     (\<exists>ds it. li = ds @ it # its \<and> k = kv_key it \<and> T k = Some lb \<and> done_for T V (list_keys ds))"
| "handler_done T V li (HConfig as need) \<longleftrightarrow> done_for T V (list_keys li)"
| "handler_done T V li (HScan ks seen names need) \<longleftrightarrow> done_for T V (- set ks) \<and> done_for T V (list_keys li)"
| "handler_done T V li (HDelete ns need) \<longleftrightarrow> V = T"
| "handler_done T V li HDone \<longleftrightarrow> V = T"
| "handler_done T V li HPanic \<longleftrightarrow> True"

definition towards :: "(string \<Rightarrow> 'lb option) \<Rightarrow> (string \<Rightarrow> 'lb option) \<Rightarrow> (string \<Rightarrow> 'lb option) \<Rightarrow> bool" where
  "towards T V W \<longleftrightarrow> (\<forall>k. W k = V k \<or> W k = T k)"

lemma towards_refl [simp]: "towards T V V"
  by (simp add: towards_def)

lemma towards_trans: "towards T U V \<Longrightarrow> towards T V W \<Longrightarrow> towards T U W"
  unfolding towards_def by metis

lemma done_for_towards: "towards T V W \<Longrightarrow> done_for T V K \<Longrightarrow> done_for T W K"
  unfolding done_for_def towards_def by metis

lemma towards_end: "towards T T W \<Longrightarrow> W = T"
  by (auto simp: towards_def)

lemma handler_done_stable: "towards T V W \<Longrightarrow> handler_done T V li pc \<Longrightarrow> handler_done T W li pc"
  by (cases pc) (auto intro: done_for_towards dest: towards_end)

lemma done_for_Un [simp]: "done_for T V (K \<union> K') \<longleftrightarrow> done_for T V K \<and> done_for T V K'"
  by (auto simp: done_for_def)

lemma done_for_insert [simp]: "done_for T V (insert k K) \<longleftrightarrow> V k = T k \<and> done_for T V K"
  by (auto simp: done_for_def)

lemma done_for_empty [simp]: "done_for T V {}"
  by (simp add: done_for_def)

lemma done_for_UNIV: "done_for T V UNIV \<longleftrightarrow> V = T"
  by (auto simp: done_for_def)

lemma handler_done_next:
  assumes "li = ds @ it # its" and "done_for T V (list_keys ds)" and "V (kv_key it) = T (kv_key it)"
  shows "handler_done T V li (HAdd its as)"
proof -
  have "li = (ds @ [it]) @ its" using assms(1) by simp
  moreover have "done_for T V (list_keys (ds @ [it]))" using assms(2,3) by simp
  ultimately show ?thesis unfolding handler_done.simps by blast
qed

lemma handler_done_put:
  assumes "li = ds @ it # its" and "done_for T V (list_keys ds)" and "T (kv_key it) = Some lb"
  shows "handler_done T V li (HPut (kv_key it) lb its as)"
  unfolding handler_done.simps using assms by blast

locale fixed_impl = keeps_names i for i :: "('lb, 'e) ilb" +
  fixes R :: "bool set"
  assumes config_same: "ldr \<in> R \<Longrightarrow> ilb_config i ldr e lb = Some (r, lb', e') \<Longrightarrow> lb' = lb"
    and parse_same: "ilb_parse i e k v = ilb_parse i e' k v"
begin

lemma accepted_same: "accepted i cl e it = accepted i cl e' it"
  unfolding accepted_def using parse_same [of e _ _ e'] by simp

lemma step_settles:
  assumes "handler_step i ord li pc b pc' b'" and "base_ok b" and "is_range_order ord" and "b_leader b \<in> R"
    and "distinct (map kv_key li)" and "b_cluster b = b_cluster b0"
    and "towards (settled i b0 li) (elem_view b0) (elem_view b)"
    and "handler_done (settled i b0 li) (elem_view b) li pc"
  shows "base_ok b' \<and> b_leader b' = b_leader b \<and> b_cluster b' = b_cluster b \<and>
    towards (settled i b0 li) (elem_view b) (elem_view b') \<and> handler_done (settled i b0 li) (elem_view b') li pc'"
  using assms(1)
proof cases
  case (refused it its as)
  from assms(8) refused obtain ds where ds: "li = ds @ it # its" "done_for (settled i b0 li) (elem_view b) (list_keys ds)" by auto
  have "settled i b0 li (kv_key it) = elem_view b0 (kv_key it)"
    using settled_listed [OF assms(5), where it = it and i = i and b = b0] ds(1) refused(4) assms(6) accepted_same [of _ "b_env b" it "b_env b0"] by simp
  with assms(7) [unfolded towards_def, rule_format, of "kv_key it"]
  have "elem_view b (kv_key it) = settled i b0 li (kv_key it)" by auto
  from handler_done_next [OF ds this] assms(2) show ?thesis unfolding refused(2,3) by simp
next
  case (same it lb its as)
  from assms(8) same obtain ds where ds: "li = ds @ it # its" "done_for (settled i b0 li) (elem_view b) (list_keys ds)" by auto
  have "settled i b0 li (kv_key it) = Some lb"
    using settled_listed [OF assms(5), where it = it and i = i and b = b0] ds(1) same(4) assms(6) accepted_same [of _ "b_env b" it "b_env b0"] by simp
  then have "elem_view b (kv_key it) = settled i b0 li (kv_key it)" using same(5) by simp
  from handler_done_next [OF ds this] assms(2) show ?thesis unfolding same(2,3) by simp
next
  case (differs it lb its as)
  from assms(8) differs obtain ds where ds: "li = ds @ it # its" "done_for (settled i b0 li) (elem_view b) (list_keys ds)" by auto
  have "settled i b0 li (kv_key it) = Some lb"
    using settled_listed [OF assms(5), where it = it and i = i and b = b0] ds(1) differs(4) assms(6) accepted_same [of _ "b_env b" it "b_env b0"] by simp
  from handler_done_put [OF ds this] assms(2) show ?thesis unfolding differs(2,3) by simp
next
  case (puts k lb its as)
  from assms(8) puts obtain ds it where ds: "li = ds @ it # its" "k = kv_key it" "settled i b0 li k = Some lb"
    "done_for (settled i b0 li) (elem_view b) (list_keys ds)" by auto
  have view: "elem_view b' = (elem_view b)(k \<mapsto> lb)"
    unfolding puts(3) put_elem_def by (rule elem_view_insert [OF assms(2)])
  then have t: "towards (settled i b0 li) (elem_view b) (elem_view b')" using ds(3) by (simp add: towards_def)
  have "elem_view b' (kv_key it) = settled i b0 li (kv_key it)" using view ds(2,3) by simp
  from handler_done_next [OF ds(1) done_for_towards [OF t ds(4)] this] t base_ok_put [OF assms(2)]
  show ?thesis unfolding puts(2) by (simp add: puts(3) put_elem_def)
next
  case (configures a r lb' e' as need)
  then have "lb' = b_heap b ! a" using config_same assms(4) by blast
  then have "b' = b\<lparr>b_env := e'\<rparr>" unfolding configures(3) by simp
  with assms(2,8) configures(1,2) show ?thesis by simp
next
  case (configured need)
  have "done_for (settled i b0 li) (elem_view b) (- set (map fst (ord (b_elem b))))"
    unfolding done_for_def
  proof
    fix k
    assume "k \<in> - set (map fst (ord (b_elem b)))"
    then have none: "elem_view b k = None"
      using range_order_set [OF assms(3), of "b_elem b"] by (simp add: elem_view_def map_of_eq_None_iff)
    show "elem_view b k = settled i b0 li k"
    proof (cases "k \<in> list_keys li")
      case True
      with assms(8) configured show ?thesis by (simp add: done_for_def)
    next
      case False
      with none show ?thesis by (simp add: settled_gone)
    qed
  qed
  with configured assms(2,8) show ?thesis by simp
next
  case (more k seen ks names need)
  with assms(2,8) show ?thesis by (auto simp: done_for_def)
next
  case (stays k ks seen names need)
  have "elem_view b k = settled i b0 li k"
    using stays assms(8) settled_gone [of k li i b0] by (cases "k \<in> list_keys li") (auto simp: done_for_def elem_view_def)
  with stays assms(2,8) show ?thesis by (auto simp: done_for_def)
next
  case (goes k a ks seen names need)
  have view: "elem_view b' = (elem_view b)(k := None)"
    unfolding goes(3) by (simp add: elem_view_def fun_eq_iff delete_conv')
  have none: "settled i b0 li k = None" by (rule settled_gone [OF goes(4)])
  have "distinct (map snd (AList.delete k (b_elem b)))"
    using assms(2) by (simp add: base_ok_def AList.delete_eq distinct_map_filter)
  moreover have "set (AList.delete k (b_elem b)) \<subseteq> set (b_elem b)" by (auto simp: AList.delete_eq)
  ultimately have "base_ok b'" using assms(2) unfolding goes(3) by (auto simp: base_ok_def distinct_delete)
  with view none goes assms(8) show ?thesis by (auto simp: towards_def done_for_def)
next
  case (scanned seen names need)
  with assms(2,8) show ?thesis by (simp add: done_for_UNIV)
next
  case (deleted need)
  with assms(2,8) show ?thesis by simp
qed (use assms(2,8) in simp_all)

lemma overlap_settles:
  assumes "overlap_run i ord {li} R b [] b' hs" and "base_ok b" and "is_range_order ord" and "b_leader b \<in> R"
    and "distinct (map kv_key li)"
  shows "base_ok b' \<and> b_leader b' \<in> R \<and> b_cluster b' = b_cluster b \<and>
    towards (settled i b li) (elem_view b) (elem_view b') \<and>
    (\<forall>h \<in> set hs. fst h = li \<and> handler_done (settled i b li) (elem_view b') li (snd h))"
  using assms(1)
proof (induction rule: overlap_run.induct)
  case at_first
  with assms(2-4) show ?case by simp
next
  case (one_more c hs c' hs')
  let ?T = "settled i b li"
  from one_more.IH have inv: "base_ok c" "b_leader c \<in> R" "b_cluster c = b_cluster b"
    "towards ?T (elem_view b) (elem_view c)"
    "\<forall>h \<in> set hs. fst h = li \<and> handler_done ?T (elem_view c) li (snd h)" by simp_all
  from one_more(2) show ?case
  proof cases
    case (begins li')
    with inv show ?thesis by auto
  next
    case (acts n li' pc pc')
    from inv(5) handler_at [OF acts(2,3)] have h: "li' = li" "handler_done ?T (elem_view c) li pc" by auto
    from step_settles [OF acts(4) [unfolded h(1)] inv(1) assms(3) inv(2) assms(5) inv(3,4) h(2)] inv(2,3)
    have s: "base_ok c'" "b_leader c' \<in> R" "b_cluster c' = b_cluster b" "towards ?T (elem_view c) (elem_view c')"
      "handler_done ?T (elem_view c') li pc'" by simp_all
    have "\<forall>h \<in> set hs. fst h = li \<and> handler_done ?T (elem_view c') li (snd h)"
      using inv(5) handler_done_stable [OF s(4)] by blast
    from all_handlers_update [OF this acts(2), of "(li', pc')"] s(5) h(1)
    have "\<forall>h \<in> set hs'. fst h = li \<and> handler_done ?T (elem_view c') li (snd h)"
      unfolding acts(1) by simp
    with s(1-3) towards_trans [OF inv(4) s(4)] show ?thesis by blast
  next
    case (roles ldr)
    have "elem_view (c\<lparr>b_leader := ldr\<rparr>) = elem_view c" by (simp add: elem_view_def fun_eq_iff)
    with roles inv show ?thesis by (simp add: base_ok_def)
  qed
qed

end

section \<open>Runs of two handlers\<close>

lemma overlap_run_roles:
  "overlap_run i ord L R b hs b' hs' \<Longrightarrow> R \<subseteq> R' \<Longrightarrow> overlap_run i ord L R' b hs b' hs'"
proof (induction rule: overlap_run.induct)
  case at_first
  show ?case by (rule overlap_run.at_first)
next
  case (one_more c hs1 c' hs1')
  have "overlap_step i ord L R' c hs1 c' hs1'"
    using one_more.hyps(2) one_more.prems by cases (auto intro: overlap_step.intros)
  with one_more.IH [OF one_more.prems] show ?case by (rule overlap_run.one_more)
qed

lemma handler_in_group:
  "handler_run i ord li pc b pc' b' \<Longrightarrow> n < length hs \<Longrightarrow> hs ! n = (li, pc) \<Longrightarrow>
     overlap_run i ord L R b hs b' (hs[n := (li, pc')])"
proof (induction arbitrary: hs rule: handler_run.induct)
  case (run_refl pc b)
  then have "hs[n := (li, pc)] = hs" using list_update_id [of hs n] by simp
  then show ?case by (simp add: overlap_run.at_first)
next
  case (run_step pc b pc1 b1 pc2 b2)
  have "overlap_run i ord L R b hs b1 (hs[n := (li, pc1)])"
    by (rule one_more [OF at_first acts [OF run_step.prems run_step.hyps(1)]])
  from overlap_run_trans [OF run_step.IH [of "hs[n := (li, pc1)]"] this] run_step.prems(1) show ?case by simp
qed

lemma event_in_group:
  assumes "handler_event ord i li b = Some b'" and "base_ok b" and "is_range_order ord"
    and "n < length hs" and "hs ! n = (li, HAdd li [])"
  shows "overlap_run i ord L R b hs b' (hs[n := (li, HDone)])"
  using handler_in_group [OF handler_run_event(1) [OF assms(2,3), THEN iffD1, OF assms(1)] assms(4,5)] .

lemma one_begins: "li \<in> L \<Longrightarrow> overlap_run i ord L R b [] b [(li, HAdd li [])]"
  by (rule one_more [OF at_first begins [of li L i ord R b "[]"], simplified])

lemma two_begin:
  assumes "l1 \<in> L" and "l2 \<in> L"
  shows "overlap_run i ord L R b [] b [(l1, HAdd l1 []), (l2, HAdd l2 [])]"
  using one_more [OF one_begins [OF assms(1)] begins [OF assms(2)]] by simp

text \<open>Both are under way, the second ends first.\<close>

lemma two_events:
  assumes "handler_event ord i l2 b = Some b1" and "handler_event ord i l1 b1 = Some b2"
    and "base_ok b" and "base_ok b1" and "is_range_order ord"
  shows "overlap_run i ord L R b [(l1, HAdd l1 []), (l2, HAdd l2 [])] b2 [(l1, HDone), (l2, HDone)]"
proof -
  let ?hs = "[(l1, HAdd l1 []), (l2, HAdd l2 [])]"
  have "overlap_run i ord L R b ?hs b1 [(l1, HAdd l1 []), (l2, HDone)]"
    using event_in_group [OF assms(1,3,5), of 1 ?hs] by simp
  moreover have "overlap_run i ord L R b1 [(l1, HAdd l1 []), (l2, HDone)] b2 [(l1, HDone), (l2, HDone)]"
    using event_in_group [OF assms(2,4,5), of 0 "[(l1, HAdd l1 []), (l2, HDone)]"] by simp
  ultimately show ?thesis by (blast intro: overlap_run_trans)
qed

lemma event_drops:
  assumes "handler_event ord i li b = Some b'" and "base_ok b" and "distinct (map kv_key li)" and "is_range_order ord"
    and "k \<notin> list_keys li"
  shows "elem_view b' k = None"
proof -
  obtain ks where "map_option (\<lambda>b'. (elem_view b', b_env b')) (handler_event ord i li b)
      = sync i li (b_leader b) (b_cluster b) ks (elem_view b) (b_env b)"
    using handler_event_cases [OF assms(2-4), of i] by blast
  with assms(1) obtain f where "elem_view b' = f |` list_keys li"
    by (auto simp: sync_def split: option.splits prod.splits)
  with assms(5) show ?thesis by simp
qed

lemma event_base_ok:
  "handler_event ord i li b = Some b' \<Longrightarrow> base_ok b \<Longrightarrow> distinct (map kv_key li) \<Longrightarrow> is_range_order ord \<Longrightarrow> base_ok b'"
  using handler_event_cases [of b li ord i] by blast

context fixed_impl begin

lemma overlap_settled:
  assumes "overlap_run i ord {li} R b [] b' hs" and "hs \<noteq> []" and "\<forall>h \<in> set hs. snd h = HDone"
    and "base_ok b" and "is_range_order ord" and "b_leader b \<in> R" and "distinct (map kv_key li)"
  shows "elem_view b' = settled i b li"
proof -
  from assms(2) obtain h where h: "h \<in> set hs" by (cases hs) auto
  with assms(3) have "snd h = HDone" by blast
  with overlap_settles [OF assms(1,4-7)] h show ?thesis by fastforce
qed

lemma overlap_alone:
  assumes "overlap_run i ord {li} R b [] b' hs" and "hs \<noteq> []" and "\<forall>h \<in> set hs. snd h = HDone"
    and "base_ok b" and "is_range_order ord" and "b_leader b \<in> R" and "distinct (map kv_key li)"
    and "handler_event ord i li b = Some b1"
  shows "elem_view b' = elem_view b1"
proof -
  have "overlap_run i ord {li} R b [(li, HAdd li [])] b1 [(li, HDone)]"
    using event_in_group [OF assms(8,4,5), of 0 "[(li, HAdd li [])]"] by simp
  then have "overlap_run i ord {li} R b [] b1 [(li, HDone)]"
    by (rule overlap_run_trans [OF _ one_begins]) simp
  from overlap_settled [OF this _ _ assms(4-7)] overlap_settled [OF assms(1-7)] show ?thesis by simp
qed

end

section \<open>The last walk\<close>

text \<open>A handler that has not yet taken the keys of the table, and what its walk has still to do.\<close>

fun before_walk :: "'lb hpc \<Rightarrow> bool" where
  "before_walk (HAdd its as) \<longleftrightarrow> True"
| "before_walk (HPut k lb its as) \<longleftrightarrow> True"
| "before_walk (HConfig as need) \<longleftrightarrow> True"
| "before_walk _ \<longleftrightarrow> False"

fun walk_left :: "kvpair list \<Rightarrow> (string \<Rightarrow> 'lb option) \<Rightarrow> 'lb hpc \<Rightarrow> bool" where
  "walk_left li V (HScan ks seen names need) \<longleftrightarrow> dom V \<subseteq> list_keys li \<union> set ks"
| "walk_left li V (HDelete ns need) \<longleftrightarrow> dom V \<subseteq> list_keys li"
| "walk_left li V HDone \<longleftrightarrow> dom V \<subseteq> list_keys li"
| "walk_left li V _ \<longleftrightarrow> True"

lemma before_walk_left: "before_walk pc \<Longrightarrow> walk_left li V pc"
  by (cases pc) simp_all

lemma step_walk_left:
  assumes "handler_step i ord li pc b pc' b'" and "is_range_order ord" and "walk_left li (elem_view b) pc"
  shows "walk_left li (elem_view b') pc'"
  using assms(1)
proof cases
  case (configured need)
  have "dom (elem_view b) = set (map fst (ord (b_elem b)))"
    using range_order_set [OF assms(2), of "b_elem b"] dom_map_of_conv_image_fst [of "b_elem b"]
    by (auto simp: elem_view_def dom_def)
  with configured show ?thesis by simp
next
  case (stays k ks seen names need)
  with assms(3) show ?thesis by (auto simp: elem_view_def)
next
  case (goes k a ks seen names need)
  have "elem_view b' = (elem_view b)(k := None)"
    unfolding goes(3) by (simp add: elem_view_def fun_eq_iff delete_conv')
  with goes assms(3) show ?thesis by auto
next
  case (deletes n r e' ns need)
  with assms(3) show ?thesis by (simp add: elem_view_def)
next
  case (deleted need)
  with assms(3) show ?thesis by (auto simp: elem_view_def)
qed (use assms(3) in auto)

lemma no_step_done: "\<not> handler_step i ord li HDone b pc' b'"
  by (auto elim: handler_step.cases)

lemma last_walk:
  assumes "overlap_run i ord {} R b [(li, pc), (li', HDone)] b' [(li, HDone), (li', HDone)]"
    and "before_walk pc" and "is_range_order ord"
  shows "dom (elem_view b') \<subseteq> list_keys li"
proof -
  have "\<exists>pc'. hs = [(li, pc'), (li', HDone)] \<and> walk_left li (elem_view c) pc'"
    if "overlap_run i ord {} R b [(li, pc), (li', HDone)] c hs" for c hs
    using that
  proof (induction rule: overlap_run.induct)
    case at_first
    from before_walk_left [OF assms(2)] show ?case by simp
  next
    case (one_more c hs c' hs')
    then obtain pc1 where h: "hs = [(li, pc1), (li', HDone)]" "walk_left li (elem_view c) pc1" by blast
    from one_more(2) show ?case
    proof cases
      case (begins l)
      then show ?thesis by simp
    next
      case (acts n l pc2 pc')
      have "pc2 \<noteq> HDone" using acts(4) no_step_done by metis
      with acts(2,3) have "n = 0" "l = li" "pc2 = pc1" by (auto simp: h(1) less_Suc_eq)
      with acts step_walk_left [OF _ assms(3) h(2)] h(1) show ?thesis by simp
    next
      case (roles ldr)
      have "elem_view (c\<lparr>b_leader := ldr\<rparr>) = elem_view c" by (simp add: elem_view_def fun_eq_iff)
      with roles h show ?thesis by simp
    qed
  qed
  from this [OF assms(1)] show ?thesis by auto
qed

section \<open>The implementations\<close>

lemma lvs_config_keeps_common: "lvs_config x ldr e l = Some (r, l', e') \<Longrightarrow> lvs_common l' = lvs_common l"
proof -
  have place: "lvs_common l' = lvs_common l" if "lvs_place base ip l = (u, l')" for base ip u l'
    using that by (auto simp: lvs_place_def Let_def split: option.splits if_splits)
  have alloc: "lvs_common l' = lvs_common l" if "alloc_vip x e l = Some (err, l', e1)" for err e1 l'
    using that place by (auto simp: alloc_vip_def split: option.splits sum.splits prod.splits if_splits)
  assume "lvs_config x ldr e l = Some (r, l', e')"
  then show ?thesis
    using alloc by (auto simp: lvs_config_def split: if_splits option.splits prod.splits)
qed

interpretation lvs_names: keeps_names "lvs_impl x"
  by unfold_locales (auto simp: lvs_impl_def get_name_def get_cluster_name_def dest: lvs_config_keeps_common)

interpretation ng_names: keeps_names "nginx_impl c"
  by unfold_locales (auto simp: nginx_impl_def nginx_config_eq split: prod.splits)

interpretation lvs_fixed: fixed_impl "lvs_impl x" "{False}"
  by unfold_locales (auto simp: lvs_impl_def lvs_config_def split: if_splits prod.splits)

interpretation ng_fixed: fixed_impl "nginx_impl c" UNIV
  by unfold_locales (auto simp: nginx_impl_def nginx_config_eq split: prod.splits)

section \<open>The promises\<close>

text \<open>C11: whatever handlers of whatever listings overlap on the table of an LVS node, leading or not, and
  however its role changes meanwhile: no two keys come to share a service object, every service stands
  under a key whose last part is its name and is one of the cluster, a handler puts only keys of its
  own listing, and the names that a handler of a listing is about to delete are last parts of keys
  (of the first table or of the listings) that its own listing does not have, and so never the name of
  a service that its own listing has.  This is for keys with distinct last parts, as under one etcd
  directory, and a first table that already has services under their names.\<close>

theorem overlap_keeps_table:
  assumes "overlap_run (lvs_impl x) ord L R b [] b' hs" and "base_ok b" and "table_fits (lvs_impl x) b"
    and "D = dom (elem_view b) \<union> (\<Union>li \<in> L. list_keys li)" and "inj_on part_of D"
  shows "base_ok b' \<and> table_fits (lvs_impl x) b' \<and> b_cluster b' = b_cluster b \<and>
    (\<forall>h \<in> set hs. fst h \<in> L \<and> handler_fits (lvs_impl x) (b_cluster b) D h)"
  using lvs_names.overlap_fits [OF assms(1-3,5)] overlap_base_ok [OF assms(1,2)] assms(4) by simp

theorem overlap_keeps_table_nginx:
  assumes "overlap_run (nginx_impl c) ord L R b [] b' hs" and "base_ok b" and "table_fits (nginx_impl c) b"
    and "D = dom (elem_view b) \<union> (\<Union>li \<in> L. list_keys li)" and "inj_on part_of D"
  shows "base_ok b' \<and> table_fits (nginx_impl c) b' \<and> b_cluster b' = b_cluster b \<and>
    (\<forall>h \<in> set hs. fst h \<in> L \<and> handler_fits (nginx_impl c) (b_cluster b) D h)"
  using ng_names.overlap_fits [OF assms(1-3,5)] overlap_base_ok [OF assms(1,2)] assms(4) by simp

text \<open>C10: overlapping is harmless to the table as long as the services do not change: when handlers of one
  and the same listing overlap on an nginx node, any number of them in any interleaving, and all have
  ended, the table is the one that a single handler leaves.\<close>

theorem overlap_same_listing:
  assumes "overlap_run (nginx_impl c) ord {li} R b [] b' hs" and "hs \<noteq> []" and "\<forall>h \<in> set hs. snd h = HDone"
    and "base_ok b" and "is_range_order ord" and "distinct (map kv_key li)"
    and "handler_event ord (nginx_impl c) li b = Some b1"
  shows "elem_view b' = elem_view b1"
proof -
  have "overlap_run (nginx_impl c) ord {li} UNIV b [] b' hs" by (rule overlap_run_roles [OF assms(1)]) simp
  from ng_fixed.overlap_alone [OF this assms(2-5) _ assms(6,7)] show ?thesis by simp
qed

theorem overlap_same_listing_follower:
  assumes "overlap_run (lvs_impl x) ord {li} {False} b [] b' hs" and "hs \<noteq> []" and "\<forall>h \<in> set hs. snd h = HDone"
    and "base_ok b" and "is_range_order ord" and "\<not> b_leader b" and "distinct (map kv_key li)"
    and "handler_event ord (lvs_impl x) li b = Some b1"
  shows "elem_view b' = elem_view b1"
  using lvs_fixed.overlap_alone [OF assms(1-5) _ assms(7,8)] assms(6) by simp

text \<open>C32: a stale listing wins.  Two handlers are under way, one with a listing that the feed of a stopped
  watch fetched earlier, one with the current listing, and the handler of the current one ends while
  the other has not yet begun its walk over the table.  However they interleaved before, and in every
  continuation without further handlers, once the handler of the old listing has ended too, only keys
  of the old listing are in the table: the services that only the current listing has are gone,
  although no handler is left that would bring them back.\<close>

theorem stale_listing_wins:
  assumes "overlap_run i ord {old, new} R b [] b1 [(old, pc), (new, HDone)]" and "before_walk pc"
    and "overlap_run i ord {} R b1 [(old, pc), (new, HDone)] b2 [(old, HDone), (new, HDone)]"
    and "is_range_order ord"
  shows "dom (elem_view b2) \<subseteq> list_keys old \<and> (\<forall>k \<in> list_keys new - list_keys old. elem_view b2 k = None)"
  using last_walk [OF assms(3,2,4)] by auto

text \<open>Two handlers of one listing can both be about to write the table: Go ends a program that it catches
  at that.\<close>

theorem overlap_races:
  assumes "li = it # its" and "li \<in> L" and "accepted i (b_cluster b) (b_env b) it = Some lb"
    and "elem_view b (kv_key it) \<noteq> Some lb"
  shows "overlap_run i ord L R b [] b [(li, HPut (kv_key it) lb its []), (li, HPut (kv_key it) lb its [])]"
proof -
  have d: "handler_step i ord li (HAdd li []) b (HPut (kv_key it) lb its []) b"
    unfolding assms(1) by (rule differs [OF assms(3,4)])
  from one_more [OF one_more [OF two_begin [OF assms(2,2)] acts [OF _ _ d, of 0]] acts [OF _ _ d, of 1], where R = R]
  show ?thesis by simp
qed

section \<open>Examples\<close>

text \<open>Two handlers on a table with one service: both have the empty listing, or one has the
  record of the service and the other, older one, does not.\<close>

lemma demo_two_events:
  assumes "\<forall>it \<in> set li. visible_name (last (split_on CHR ''/'' (kv_key it)))" and "distinct (map kv_key li)"
    and "base_ok b" and "b_env b = b_env demo_table"
  obtains b1 b2 where "handler_event rev (lvs_impl (demo_ctx 10000)) li b = Some b1"
    and "handler_event rev (lvs_impl (demo_ctx 10000)) [] b1 = Some b2" and "base_ok b1"
proof -
  let ?i = "lvs_impl (demo_ctx 10000)"
  obtain b1 where b1: "handler_event rev ?i li b = Some b1"
    "ipam_inv (vx_alc (demo_ctx 10000)) (vx_kv (demo_ctx 10000)) mem_view demo_item (ve_kv (b_env b1))"
    using demo_table_event [OF assms(3,4,2,1)] by blast
  have ok: "base_ok b1" using event_base_ok [OF b1(1) assms(3,2)] by simp
  from demo_node.node_event [OF ok _ _ b1(2), of "[]" rev] obtain b2 where "handler_event rev ?i [] b1 = Some b2"
    by auto
  with b1(1) ok that show thesis by blast
qed

text \<open>A listing that has only a record that is refused: its handler is about to delete the service of the
  table.\<close>

definition demo_item_b :: kvpair where
  "demo_item_b = \<lparr>kv_key = ''/lb/lb/prod/l4/b'', kv_value = [], kv_index = 2\<rparr>"

lemma demo_item_b_refused: "accepted (lvs_impl (demo_ctx base)) cl e demo_item_b = None"
proof -
  have "json_parse [] = None" by code_simp
  then show ?thesis by (simp add: accepted_def lvs_impl_def lvs_parse_def lvs_unmarshal_def demo_item_b_def)
qed

lemma overlap_keeps_table_witness:
  "\<exists>b'. overlap_run (lvs_impl (demo_ctx 10000)) rev {[demo_item_b]} {} demo_table []
       b' [([demo_item_b], HDelete [''a''] False)] \<and>
     table_fits (lvs_impl (demo_ctx 10000)) b' \<and> ''a'' \<notin> part_of ` list_keys [demo_item_b]"
proof -
  let ?i = "lvs_impl (demo_ctx 10000)" and ?li = "[demo_item_b]" and ?k = "''/lb/lb/prod/l4/a''"
  let ?b = "demo_table\<lparr>b_elem := AList.delete ?k (b_elem demo_table)\<rparr>"
  have t: "map_of (b_elem demo_table) ?k = Some 0" "map fst (rev (b_elem demo_table)) = [?k]"
    "map fst (b_elem demo_table) = [?k]" "ilb_name ?i (b_heap demo_table ! 0) = ''a''"
    by (simp_all add: demo_table_def lvs_impl_def get_name_def)
  have nk: "?k \<notin> list_keys ?li" by (simp add: demo_item_b_def)
  have "handler_step ?i rev ?li (HAdd ?li []) demo_table (HAdd [] []) demo_table"
    by (rule refused [OF demo_item_b_refused])
  moreover have "handler_step ?i rev ?li (HAdd [] []) demo_table (HConfig [] False) demo_table" by (rule added)
  moreover have "handler_step ?i rev ?li (HConfig [] False) demo_table (HScan [?k] [?k] [] False) demo_table"
    using configured [of ?i rev ?li False demo_table] by (simp only: t)
  moreover have "handler_step ?i rev ?li (HScan [?k] [?k] [] False) demo_table (HScan [] [?k] [''a''] False) ?b"
    using goes [OF nk t(1), of ?i rev "[]" "[?k]" "[]" False] by (simp add: t(4))
  moreover have "handler_step ?i rev ?li (HScan [] [?k] [''a''] False) ?b (HDelete [''a''] False) ?b" by (rule scanned)
  ultimately have "handler_run ?i rev ?li (HAdd ?li []) demo_table (HDelete [''a''] False) ?b"
    by (blast intro: run_step run_refl)
  from handler_in_group [OF this, of 0 "[(?li, HAdd ?li [])]"]
  have run: "overlap_run ?i rev {?li} {} demo_table [] ?b [(?li, HDelete [''a''] False)]"
    by (intro overlap_run_trans [OF _ one_begins]) simp_all
  have fits: "table_fits ?i demo_table"
    by (simp add: table_fits_def fits_def part_of_def lvs_impl_def get_name_def get_cluster_name_def demo_lb_def demo_svc_def)
  have "inj_on part_of (dom (elem_view demo_table) \<union> (\<Union>li \<in> {?li}. list_keys li))"
    by (simp add: demo_item_b_def part_of_def)
  from overlap_keeps_table [OF run _ fits refl this] run show ?thesis by (auto simp: names_gone_def)
qed

lemma stale_listing_wins_witness:
  "\<exists>b1 b2. overlap_run (lvs_impl (demo_ctx 10000)) rev {[], [demo_item_a (lvs_marshal demo_lb)]} {False} (demo_base False)
       [] b1 [([], HAdd [] []), ([demo_item_a (lvs_marshal demo_lb)], HDone)] \<and>
     elem_view b1 (kv_key (demo_item_a (lvs_marshal demo_lb))) = Some demo_lb \<and>
     overlap_run (lvs_impl (demo_ctx 10000)) rev {} {False} b1
       [([], HAdd [] []), ([demo_item_a (lvs_marshal demo_lb)], HDone)]
       b2 [([], HDone), ([demo_item_a (lvs_marshal demo_lb)], HDone)] \<and>
     elem_view b2 (kv_key (demo_item_a (lvs_marshal demo_lb))) = None"
proof -
  let ?i = "lvs_impl (demo_ctx 10000)" and ?it = "demo_item_a (lvs_marshal demo_lb)" and ?b = "demo_base False"
  have b: "base_ok ?b" "b_env ?b = b_env demo_table"
    by (simp_all add: demo_table_def demo_base_def new_lb_def base_ok_def)
  obtain b1 b2 where e: "handler_event rev ?i [?it] ?b = Some b1" "handler_event rev ?i [] b1 = Some b2" "base_ok b1"
    by (rule demo_two_events [OF _ _ b, of "[?it]"]) (simp_all add: demo_visible)
  have "overlap_run ?i rev {[?it]} {False} ?b [] b1 [([?it], HDone)]"
    using event_in_group [OF e(1) b(1), of 0 "[([?it], HAdd [?it] [])]"]
    by (intro overlap_run_trans [OF _ one_begins]) simp_all
  from lvs_fixed.overlap_settled [OF this _ _ b(1)] have "elem_view b1 = settled ?i ?b [?it]" by simp
  then have view: "elem_view b1 (kv_key ?it) = Some demo_lb" by (simp add: settled_def demo_accepted)
  from event_in_group [OF e(1) b(1), of 1 "[([], HAdd [] []), ([?it], HAdd [?it] [])]"]
  have "overlap_run ?i rev L R ?b [([], HAdd [] []), ([?it], HAdd [?it] [])] b1 [([], HAdd [] []), ([?it], HDone)]"
    for L R by simp
  from overlap_run_trans [OF this two_begin]
  have run1: "overlap_run ?i rev {[], [?it]} {False} ?b [] b1 [([], HAdd [] []), ([?it], HDone)]" by simp
  have run2: "overlap_run ?i rev {} {False} b1 [([], HAdd [] []), ([?it], HDone)] b2 [([], HDone), ([?it], HDone)]"
    using event_in_group [OF e(2,3), of 0 "[([], HAdd [] []), ([?it], HDone)]"] by simp
  from stale_listing_wins [OF run1 _ run2] have "elem_view b2 (kv_key ?it) = None" by simp
  with run1 view run2 show ?thesis by blast
qed

text \<open>An nginx node with one service, which no listing has.\<close>

definition demo_one_site :: "(nginx, os) lb_base" where
  "demo_one_site = (new_lb demo_conf nginx_os)\<lparr>b_heap := [demo_site], b_elem := [(''/lb/lb/prod/l7/a'', 0)]\<rparr>"

lemma overlap_same_listing_witness:
  "\<exists>b'. overlap_run (nginx_impl demo_conf) rev {[]} {} demo_one_site [] b' [([], HDone), ([], HDone)] \<and>
     elem_view b' = Map.empty"
proof -
  let ?i = "nginx_impl demo_conf"
  have b: "base_ok demo_one_site" by (simp add: demo_one_site_def new_lb_def base_ok_def)
  obtain b1 where b1: "handler_event rev ?i [] demo_one_site = Some b1"
    using ngx.event_syncs [OF b, of "[]" rev demo_conf] by auto
  have ok: "base_ok b1" using event_base_ok [OF b1 b] by simp
  obtain b2 where b2: "handler_event rev ?i [] b1 = Some b2"
    using ngx.event_syncs [OF ok, of "[]" rev demo_conf] by auto
  have run: "overlap_run ?i rev {[]} {} demo_one_site [] b2 [([], HDone), ([], HDone)]"
    by (rule overlap_run_trans [OF two_events [OF b1 b2 b ok] two_begin]) simp_all
  have "elem_view b1 = Map.empty"
  proof
    fix k
    show "elem_view b1 k = None" by (rule event_drops [OF b1 b]) simp_all
  qed
  with overlap_same_listing [OF run _ _ b _ _ b1] run show ?thesis by auto
qed

end
