(* ===== verification/Spec2Isabelle.thy ===== *)
theory Spec2Isabelle
  imports Lbmain Watch Leader Stats Routejson Reservation Takeover Filesync Overlap
begin

text \<open>
  A model of \<open>lbmanager\<close>, a manager of load balancers: every node watches the services of its catalog in
  etcd, writes configuration files for LVS (keepalived) or nginx from them, and reloads the daemon.
  The nodes elect a leader, and the leader of an LVS cluster gives the services their virtual
  addresses and ports.

  \<^bold>\<open>How the program is put together\<close> (\<open>main.go\<close>, theory \<open>Lbmain\<close>).  The configuration is read and checked
  (\<open>pkg/conf\<close>), the key-value store is opened and awaited (\<open>pkg/kvstore\<close> over \<open>libkv\<close>), a handler is made for
  the configured type (\<open>pkg/lbm\<close>), initialised (address management \<open>pkg/ipam\<close>, \<open>pkg/keepalived\<close>,
  \<open>pkg/stats\<close>) and handed to the elector (\<open>pkg/leader\<close>), which calls \<open>Run\<close> and \<open>Change\<close>; these start the watch
  that feeds the handler with listings.

  \<^bold>\<open>Theories\<close>, in the order of the calls from below:
  \<^item> \<open>Prelude\<close>: strings, decimal numbers, association lists, the order in which Go ranges over a map.
  \<^item> \<open>Gonet\<close>, \<open>Ipcidr\<close>: package \<open>net\<close> as far as it is used (addresses are byte lists of length 4 or 16,
    texts, masks, CIDR), and \<open>pkg/ipam/ip\<close>, \<open>pkg/ipam/types\<close>; \<open>Routejson\<close>: the JSON forms of the latter.
  \<^item> \<open>Libkv\<close>, \<open>Kvstore\<close>: the calls of libkv's etcd client over the keys API of etcd, and \<open>pkg/kvstore\<close>.  The
    API is a record of functions on a state; what is documented of it is the locale \<open>etcd_service\<close>
    (a tree of entries, conditional writes, increasing indices, errors that may hide a success: any error
    of a write may, because the client repeats it).
    \<open>Memetcd\<close> is a small server in memory that satisfies it, at which the witnesses are evaluated.
  \<^item> \<open>Backend\<close>, \<open>Allocator\<close>, \<open>Allocrange\<close>, \<open>Ipam\<close>, \<open>Ipamserve\<close>, \<open>Ipaminit\<close>: the store of leases
    (\<open>pkg/ipam/backend/etcd\<close>) against the locale \<open>reserving_store\<close>, the allocator with its search loop,
    its range, \<open>RequireIP\<close> and \<open>ReleaseIP\<close>, and \<open>Init\<close>; \<open>Reservation\<close>: two nodes reserving at once.
  \<^item> \<open>Utils\<close>, \<open>Conf\<close>, \<open>Lbtypes\<close>: files, links, permissions and the shell as a record; the configuration;
    the service types with all their checks and defaults.
  \<^item> \<open>Json\<close>, \<open>Lbjson\<close>: \<open>encoding/json\<close> (printer and parser) and the struct tags of the program.
  \<^item> \<open>Tmpl\<close>, \<open>Render\<close>: what the two templates of \<open>tmpl.go\<close> produce, as functions on the services, and the
    files they are written to.
  \<^item> \<open>Gotemplate\<close>, \<open>Gotmplprint\<close>, \<open>Tmpltext\<close>: the lexer, the parser and the execution of the part of
    \<open>text/template\<close> that the program uses; that parsing reads back what printing a list of nodes gives; the two
    templates as they stand in the source, with \<open>LBBase.Render\<close> on them and the proof that they produce the texts of
    \<open>Tmpl\<close>.
  \<^item> \<open>Lbm\<close>, \<open>Lbsync\<close>: the service table (keys to pointers into a heap) and the handler of a listing; the
    contract of an implementation is the locale \<open>lb_impl\<close>.
  \<^item> \<open>Lvs\<close>, \<open>Nginx\<close>, \<open>Lbimpl\<close>: the two implementations of the interface \<open>ILB\<close>, interpretations of \<open>lb_impl\<close>.
  \<^item> \<open>Filesync\<close>: the configuration files an event leaves on disk; the locale \<open>file_node\<close> is the contract of an
    implementation with one file per service, interpreted on LVS followers and on nginx.
  \<^item> \<open>Keepalived\<close>: the reload goroutine and the callers of \<open>Reload\<close> as interleaved timed steps.
  \<^item> \<open>Watch\<close>: \<open>LBBase.watch\<close> with the goroutine behind its channel, which fetches listings while one is handled.
    The wait for a change ends at any moment or never, so that changes etcd does not report are covered.
  \<^item> \<open>Handlersteps\<close>, \<open>Overlap\<close>: the handler as a goroutine of small steps, shown to do alone what the handler of
    \<open>Lbm\<close> does, and any number of handlers interleaved on one table; the locales \<open>keeps_names\<close> and \<open>fixed_impl\<close>,
    interpreted on LVS, LVS followers and nginx, say what an implementation has to do for that.
  \<^item> \<open>Etcdlock\<close>, \<open>Elector\<close>, \<open>Leader\<close>: the resource lock with a group of nodes on it, the start of the
    election and one attempt of the elector of client-go, and the callbacks as interleaved goroutines.
  \<^item> \<open>Election\<close>, \<open>Renewal\<close>: the elections in time, each attempt in a reading and a writing phase, on clocks
    that are set differently, with crashes and restarts of the nodes, and the renewal loop with the durations
    of \<open>pkg/leader/leader.go\<close>.  \<open>Serving\<close>, \<open>Takeover\<close>: a store that serves (the locale \<open>serving_etcd\<close>, which extends
    \<open>etcd_service\<close>), and the loop that acquires the lease from it.
  \<^item> \<open>Stats\<close>: the page of connection counts and the loop that serves it.

  \<^bold>\<open>Conventions.\<close>  Package variables are explicit state, errors are the left side of a sum, a panic or a
  fatal exit is \<open>None\<close> or a constructor of its own.  Go's \<open>int\<close> is \<open>int\<close>, with the 64-bit wrap-around
  written out where it can be reached (sleeps of \<open>keepalived\<close>, numbers in JSON, \<open>strconv.Atoi\<close>); bytes are
  \<open>8 word\<close>.  The order of a range over a map is a parameter about which only \<open>is_range_order\<close> is assumed;
  those of the local address groups and of the address cache are fixed for the life of a node.

  \<^bold>\<open>What is shown.\<close>
  Address management: after \<open>Init\<close> an invariant holds (a usable range, an existing directory, leases on
  dotted addresses) exactly when the records already in the store are well-formed, and every call keeps
  it; an address on lease to another service is never given away, a service holds at most one unless
  the release that \<open>RequireIP\<close> calls for fails, and the failure paths on which that is lost are exhibited.
  Handler: it refines a specification on the table as a map; on LVS and nginx nodes the table follows
  the listing; once the records that a leader changed are listed, the next event changes nothing
  (\<open>lvs_leader_settles\<close>).  What is written back is accepted unchanged only for a \<open>PortBase\<close> up to 65280 and
  services that survive their encoding (\<open>lvs_over l = l\<close>: no explicit zero in a field with a non-zero default).
  Values: exact acceptance conditions of the validators and of the configuration, JSON round trips,
  rendering is idempotent and cannot fail in the template: what is written is exactly the text of \<open>Tmpl\<close>.
  Files: on a follower of LVS and on nginx the configuration files follow the listing, and a follower
  writes, character for character, what the leader wrote for a service it placed, under the same
  conditions and as long as no address is in two local address groups.
  Overlapping handlers: they never mix up keys, names and services, each deletes only names that its own
  listing does not have, and those of one listing leave the table that one handler leaves; with different
  listings the one whose walk over the table comes last wins, also when it is the older one.
  Goroutines: no requested reload is lost and the daemon is signalled at a bounded rate; acknowledged
  writes of the election record form a chain; a lease is taken over only after it stood still for the
  lease duration; no two nodes hold an unexpired lease at once, and a leader that cannot renew has given up
  before another may take over, as long as attempts are short; a lease that nobody renews is taken
  over in time; at most one run acts as the leader.  Some of what the model shows is not intended: the
  watch that does not resubscribe, follower runs that are never stopped, and so on; these
  theorems state the behaviour of the code as it is.

  \<^bold>\<open>Bounds and fuel.\<close>  The JSON parser recurses on fuel, twice the length of its input and two more, which
  \<open>json_parse_fuel\<close> shows to be enough.  The template parser recurses on fuel, twice the number of tokens and one
  more, which the theorem \<open>parse_nodes_text\<close> shows to be enough for every printed list of nodes, the two templates
  among them.  Links are followed at most 40 times, as Linux does.  The search of the
  allocator and the wait for the store are \<open>partial_function (option)\<close>: that the search ends within the
  invariant is part of \<open>require_ip_promise\<close>, and \<open>wait_for_start_ends\<close> says exactly when the wait does, and
  in which state.

  \<^bold>\<open>Time.\<close>  In \<open>Election\<close> the clocks of the nodes differ by constants and run at the same speed.  The codec of the
  record is assumed to keep the second of the renewal and the holder, as \<open>metav1.Time\<close> does; it drops the fraction, and
  so a lease is counted from the start of the attempt that wrote it to one second before its end.  \<open>Renewal\<close>
  supposes that an attempt, with the delays of the scheduler, takes at most four thirds of a second: with 10
  seconds of lease, 5 of renewal and one lost, three attempts fit.

  \<^bold>\<open>Not modelled.\<close>  Drift of the clocks; a write that a crashed process left in flight; what \<open>text/template\<close> has
  beyond the two templates (pipes, methods, assignments, trim markers, comments, numbers, escapes), which
  the model rejects; logging; the scheduler (steps are interleaved arbitrarily; a call of \<open>ipam\<close> or of
  \<open>ConfigService\<close> and \<open>DeleteService\<close> is one step, in \<open>Watch\<close> and \<open>Leader\<close> also a call of the handler, so that what
  two renderings at once do to their common buffer is not covered; an access to the table is one step too, where
  Go may end the program for a data race); the replacement of invalid UTF-8 by \<open>encoding/json\<close>; the difference between a nil
  and an empty slice in \<open>reflect.DeepEqual\<close>; \<open>prettyPrint\<close>, which nothing calls; sockets and HTTP below
  \<open>http.HandleFunc\<close> and \<open>ListenAndServe\<close>; the JSON form of the election record, which belongs to client-go and is
  a parameter; locks, sessions and deletes of libkv that the program does not use.
\<close>

end
